(* ===== verification/Prelude.thy ===== *)
theory Prelude imports Main "HOL-Library.Word" "HOL-Library.Monad_Syntax"
begin

text \<open>
  Shared vocabulary of the development: the names of the C integer types, searching and
  updating the fixed-size tables that the kernel code scans with a pointer loop, and the
  collections of facts that the component theories feed to the simplifier.
  A function that may panic, trap or read outside an array returns an option; \<open>None\<close> is
  "control does not come back to the caller".
\<close>

unbundle bit_operations_syntax

type_synonym u8 = "8 word"
type_synonym u16 = "16 word"
type_synonym u32 = "32 word"
type_synonym u64 = "64 word"

named_theorems table_simps \<open>facts about scanning and updating tables\<close>
named_theorems bind_splits \<open>case analysis of option-valued code\<close>

declare bind_eq_Some_conv [bind_splits]

subsection \<open>Tables: scan for the first entry, update an entry in place\<close>

fun first_index :: "('a \<Rightarrow> bool) \<Rightarrow> 'a list \<Rightarrow> nat option" where
  "first_index P [] = None"
| "first_index P (x # xs) = (if P x then Some 0 else map_option Suc (first_index P xs))"

definition upd_at :: "nat \<Rightarrow> ('a \<Rightarrow> 'a) \<Rightarrow> 'a list \<Rightarrow> 'a list" where
  "upd_at i f xs = xs[i := f (xs ! i)]"

text \<open>C array accesses with a signed index: \<open>None\<close> is an access outside the array.\<close>

definition c_index :: "'a list \<Rightarrow> int \<Rightarrow> 'a option" where
  "c_index xs i = (if 0 \<le> i \<and> i < int (length xs) then Some (xs ! nat i) else None)"

definition c_update :: "'a list \<Rightarrow> int \<Rightarrow> 'a \<Rightarrow> 'a list option" where
  "c_update xs i v = (if 0 \<le> i \<and> i < int (length xs) then Some (xs[nat i := v]) else None)"

lemma c_index_Some [simp]: "0 \<le> i \<Longrightarrow> i < int (length xs) \<Longrightarrow> c_index xs i = Some (xs ! nat i)"
  by (simp add: c_index_def)

lemma c_update_Some [simp]: "0 \<le> i \<Longrightarrow> i < int (length xs) \<Longrightarrow> c_update xs i v = Some (xs[nat i := v])"
  by (simp add: c_update_def)

lemma c_index_SomeD: "c_index xs i = Some x \<Longrightarrow> 0 \<le> i \<and> i < int (length xs) \<and> x = xs ! nat i"
  by (simp add: c_index_def split: if_splits)

lemma c_update_SomeD: "c_update xs i v = Some ys \<Longrightarrow> 0 \<le> i \<and> i < int (length xs) \<and> ys = xs[nat i := v]"
  by (simp add: c_update_def split: if_splits)

lemma uint_eq_uint_iff [simp]: "uint a = uint b \<longleftrightarrow> a = (b :: 'a::len word)"
  by (simp add: word_uint_eq_iff)

lemma first_index_Some_iff:
  "first_index P xs = Some i \<longleftrightarrow> i < length xs \<and> P (xs ! i) \<and> (\<forall>j < i. \<not> P (xs ! j))"
proof (induction xs arbitrary: i)
  case Nil
  then show ?case by simp
next
  case (Cons x xs)
  then show ?case
    by (cases i) (auto simp: less_Suc_eq_0_disj nth_Cons')
qed

lemma first_index_None_iff: "first_index P xs = None \<longleftrightarrow> (\<forall>x \<in> set xs. \<not> P x)"
  by (induction xs) auto

lemma first_index_None_nth:
  "first_index P xs = None \<longleftrightarrow> (\<forall>i < length xs. \<not> P (xs ! i))"
  by (fastforce simp: first_index_None_iff in_set_conv_nth)

lemma length_upd_at [simp, table_simps]: "length (upd_at i f xs) = length xs"
  by (simp add: upd_at_def)

lemma nth_upd_at [table_simps]:
  "j < length xs \<Longrightarrow> upd_at i f xs ! j = (if j = i then f (xs ! i) else xs ! j)"
  by (simp add: upd_at_def nth_list_update)

lemma nth_upd_at_eq [simp]: "i < length xs \<Longrightarrow> upd_at i f xs ! i = f (xs ! i)"
  by (simp add: upd_at_def)

lemma nth_upd_at_neq [simp]: "j \<noteq> i \<Longrightarrow> upd_at i f xs ! j = xs ! j"
  by (simp add: upd_at_def)

lemma upd_at_map:
  "(\<And>x. g (f x) = g x) \<Longrightarrow> map g (upd_at i f xs) = map g xs"
  by (cases "i < length xs") (simp_all add: upd_at_def map_update list_update_beyond,
      metis length_map list_update_id nth_map)

lemma map_upd_at:
  "i < length xs \<Longrightarrow> map g (upd_at i f xs) = (map g xs)[i := g (f (xs ! i))]"
  by (simp add: upd_at_def map_update)

end
