(* ===== verification/KString.thy ===== *)
theory KString imports Prelude
begin

text \<open>
  The kernel's string library, \<open>kernel/string.c\<close>.  A buffer is the list of its bytes; a
  function that runs past the end of a buffer it was given answers \<open>None\<close>.
\<close>

section \<open>Definitions\<close>

text \<open>\<open>memset\<close> fills the first \<open>n\<close> bytes of the buffer with the low byte of \<open>c\<close>
  (\<open>stosb\<close> stores \<open>%al\<close>).\<close>

definition memset :: "u8 list \<Rightarrow> u32 \<Rightarrow> nat \<Rightarrow> u8 list option" where
  "memset dst c n =
     (if length dst < n then None else Some (replicate n (ucast c) @ drop n dst))"

fun memcmp :: "u8 list \<Rightarrow> u8 list \<Rightarrow> nat \<Rightarrow> int option" where
  "memcmp s1 s2 0 = Some 0"
| "memcmp (a # s1) (b # s2) (Suc n) =
     (if a \<noteq> b then Some (uint a - uint b) else memcmp s1 s2 n)"
| "memcmp _ _ (Suc n) = None"

text \<open>
  \<open>memmove\<close> works in one memory \<open>m\<close>, so that source and destination may overlap: copying
  downwards (\<open>*--d = *--s\<close>) when the destination starts inside the source, upwards otherwise.
\<close>

fun copy_up :: "nat \<Rightarrow> nat \<Rightarrow> nat \<Rightarrow> (nat \<Rightarrow> u8) \<Rightarrow> nat \<Rightarrow> u8" where
  "copy_up d s 0 m = m"
| "copy_up d s (Suc n) m = copy_up (Suc d) (Suc s) n (m(d := m s))"

fun copy_down :: "nat \<Rightarrow> nat \<Rightarrow> nat \<Rightarrow> (nat \<Rightarrow> u8) \<Rightarrow> nat \<Rightarrow> u8" where
  "copy_down d s 0 m = m"
| "copy_down d s (Suc n) m = copy_down (d - 1) (s - 1) n (m(d - 1 := m (s - 1)))"

definition memmove :: "nat \<Rightarrow> nat \<Rightarrow> nat \<Rightarrow> (nat \<Rightarrow> u8) \<Rightarrow> nat \<Rightarrow> u8" where
  "memmove dst src n m =
     (if src < dst \<and> src + n > dst then copy_down (dst + n) (src + n) n m
      else copy_up dst src n m)"

definition memcpy :: "nat \<Rightarrow> nat \<Rightarrow> nat \<Rightarrow> (nat \<Rightarrow> u8) \<Rightarrow> nat \<Rightarrow> u8" where
  "memcpy dst src n m = memmove dst src n m"

fun strncmp :: "u8 list \<Rightarrow> u8 list \<Rightarrow> nat \<Rightarrow> int option" where
  "strncmp p q 0 = Some 0"
| "strncmp (a # p) (b # q) (Suc n) =
     (if a \<noteq> 0 \<and> a = b then strncmp p q n else Some (uint a - uint b))"
| "strncmp _ _ (Suc n) = None"

text \<open>
  \<open>strncpy\<close> first copies up to and including the terminator (\<open>cpy\<close>, which returns the bytes
  left to fill), then pads with zeros.
\<close>

fun strncpy :: "u8 list \<Rightarrow> u8 list \<Rightarrow> nat \<Rightarrow> u8 list option" where
  "strncpy s t 0 = Some s"
| "strncpy (x # s) (b # t) (Suc n) =
     (if b \<noteq> 0 then map_option (Cons b) (strncpy s t n)
      else if length s < n then None else Some (0 # replicate n 0 @ drop n s))"
| "strncpy _ _ (Suc n) = None"

fun safestrcpy_loop :: "u8 list \<Rightarrow> u8 list \<Rightarrow> nat \<Rightarrow> u8 list option" where
  "safestrcpy_loop (x # s) t 0 = Some (0 # s)"
| "safestrcpy_loop (x # s) (b # t) (Suc n) =
     (if b \<noteq> 0 then map_option (Cons b) (safestrcpy_loop s t n)
      else (case s of [] \<Rightarrow> None | y # s' \<Rightarrow> Some (0 # 0 # s')))"
| "safestrcpy_loop _ _ _ = None"

text \<open>
  In \<open>safestrcpy_loop\<close> the count is the number of bytes that the loop \<open>while(--n > 0 \<dots>)\<close>
  may still copy.  When the loop stops at a copied terminator, \<open>s\<close> already points one past
  it, so the final \<open>*s = 0\<close> clears the byte after the terminator.
\<close>

definition safestrcpy :: "u8 list \<Rightarrow> u8 list \<Rightarrow> int \<Rightarrow> u8 list option" where
  "safestrcpy s t n = (if n \<le> 0 then Some s else safestrcpy_loop s t (nat n - 1))"

fun strlen :: "u8 list \<Rightarrow> nat option" where
  "strlen [] = None"
| "strlen (b # s) = (if b = 0 then Some 0 else map_option Suc (strlen s))"

text \<open>The characters of a C string: the bytes before the first zero.\<close>

definition cstr :: "u8 list \<Rightarrow> u8 list" where
  "cstr s = takeWhile (\<lambda>b. b \<noteq> 0) s"

definition bytes_of :: "string \<Rightarrow> u8 list" where
  "bytes_of s = map of_char s"

section \<open>Lemmas\<close>

lemma copy_up_other: "a < d \<or> d + n \<le> a \<Longrightarrow> copy_up d s n m a = m a"
  by (induction d s n m rule: copy_up.induct) auto

lemma copy_up_moved:
  "\<lbrakk>d \<le> s \<or> s + n \<le> d; i < n\<rbrakk> \<Longrightarrow> copy_up d s n m (d + i) = m (s + i)"
proof (induction d s n m arbitrary: i rule: copy_up.induct)
  case (1 d s m)
  then show ?case by simp
next
  case (2 d s n m)
  show ?case
  proof (cases i)
    case 0
    then show ?thesis by (simp add: copy_up_other)
  next
    case (Suc j)
    have "copy_up (Suc d) (Suc s) n (m(d := m s)) (Suc d + j) = (m(d := m s)) (Suc s + j)"
      using "2.prems" Suc by (intro "2.IH") auto
    then show ?thesis using "2.prems" Suc by auto
  qed
qed

lemma copy_down_other:
  "n \<le> d \<Longrightarrow> a < d - n \<or> d \<le> a \<Longrightarrow> copy_down d s n m a = m a"
proof (induction d s n m rule: copy_down.induct)
  case (2 d s n m)
  then have a: "a \<noteq> d - 1" and "a < d - 1 - n \<or> d - 1 \<le> a" and "n \<le> d - 1"
    by arith+
  then have "copy_down (d - 1) (s - 1) n (m(d - 1 := m (s - 1))) a = (m(d - 1 := m (s - 1))) a"
    by (intro "2.IH")
  with a show ?case by (metis copy_down.simps(2) fun_upd_other)
qed simp

lemma copy_down_moved:
  "\<lbrakk>n \<le> s; s \<le> d; i < n\<rbrakk> \<Longrightarrow> copy_down d s n m (d - n + i) = m (s - n + i)"
proof (induction d s n m arbitrary: i rule: copy_down.induct)
  case (1 d s m)
  then show ?case by simp
next
  case (2 d s n m)
  let ?m = "m(d - 1 := m (s - 1))"
  show ?case
  proof (cases "i < n")
    case True
    have "copy_down (d - 1) (s - 1) n ?m (d - 1 - n + i) = ?m (s - 1 - n + i)"
      using "2.prems" True by (intro "2.IH") auto
    then show ?thesis using "2.prems" True by auto
  next
    case False
    with "2.prems" have i: "i = n" by simp
    have "copy_down (d - 1) (s - 1) n ?m (d - 1) = ?m (d - 1)"
      using "2.prems" by (intro copy_down_other) auto
    then show ?thesis using "2.prems" i by (simp add: numeral_2_eq_2)
  qed
qed

lemma memmove_moved: "i < n \<Longrightarrow> memmove dst src n m (dst + i) = m (src + i)"
  using copy_down_moved [of n "src + n" "dst + n" i m] copy_up_moved [of dst src n i m]
  by (auto simp: memmove_def)

lemma memmove_other: "a < dst \<or> dst + n \<le> a \<Longrightarrow> memmove dst src n m a = m a"
  by (auto simp: memmove_def copy_down_other copy_up_other)

lemma memcmp_eq_0:
  "n \<le> length s1 \<Longrightarrow> n \<le> length s2 \<Longrightarrow> memcmp s1 s2 n = Some 0 \<longleftrightarrow> take n s1 = take n s2"
  by (induction s1 s2 n rule: memcmp.induct) auto

lemma strncmp_total:
  "n \<le> length p \<Longrightarrow> n \<le> length q \<Longrightarrow> \<exists>r. strncmp p q n = Some r"
  by (induction p q n rule: strncmp.induct) auto

lemma strncmp_eq_0:
  "n \<le> length p \<Longrightarrow> n \<le> length q \<Longrightarrow>
   strncmp p q n = Some 0 \<longleftrightarrow> cstr (take n p) = cstr (take n q)"
  by (induction p q n rule: strncmp.induct) (auto simp: cstr_def uint_0_iff)

lemma strncpy_length: "strncpy s t n = Some s' \<Longrightarrow> length s' = length s"
  by (induction s t n arbitrary: s' rule: strncpy.induct) (auto split: if_splits)

lemma strncpy_cstr:
  "strncpy s t n = Some s' \<Longrightarrow> n \<le> length s \<Longrightarrow> cstr (take n s') = cstr (take n t)"
  by (induction s t n arbitrary: s' rule: strncpy.induct) (auto simp: cstr_def split: if_splits)

lemma strlen_cstr: "strlen s = Some n \<Longrightarrow> n = length (cstr s)"
  by (induction s arbitrary: n) (auto simp: cstr_def split: if_splits)

lemma strlen_Some_iff: "(\<exists>n. strlen s = Some n) \<longleftrightarrow> 0 \<in> set s"
  by (induction s) auto

lemma safestrcpy_loop_length:
  "safestrcpy_loop s t n = Some s' \<Longrightarrow> length s' = length s"
  by (induction s t n arbitrary: s' rule: safestrcpy_loop.induct)
    (auto split: if_splits list.splits)

lemma safestrcpy_loop_cstr:
  "safestrcpy_loop s t n = Some s' \<Longrightarrow> cstr s' = cstr (take n t)"
  by (induction s t n arbitrary: s' rule: safestrcpy_loop.induct)
    (auto simp: cstr_def split: if_splits list.splits)

lemma safestrcpy_loop_nul:
  "safestrcpy_loop s t n = Some s' \<Longrightarrow> 0 \<in> set s'"
  by (induction s t n arbitrary: s' rule: safestrcpy_loop.induct)
    (auto split: if_splits list.splits)

section \<open>Properties\<close>

end
