(* ===== verification/Proc.thy ===== *)
theory Proc imports KString
begin

text \<open>
  Processes and the multi-level feedback queue scheduler: \<open>kernel/proc.c\<close>, \<open>kernel/proc.h\<close>
  and \<open>include/pstat.h\<close> of the scheduler project.  A \<open>struct proc *\<close> is the index of the entry in
  \<open>ptable.proc\<close>, the null pointer is \<open>None\<close>; the current process (\<open>proc\<close>) is the argument
  \<open>me\<close>.  The calls into the memory, file and inode layers are the fields of a record of
  kernel services, whose state is the type \<open>'m\<close>.  Code that runs between \<open>acquire\<close>
  and \<open>release\<close> of \<open>ptable.lock\<close> is one step.
\<close>

section \<open>Process table\<close>

datatype procstate = UNUSED | EMBRYO | SLEEPING | RUNNABLE | RUNNING | ZOMBIE

datatype channel = ChanProc nat | ChanAddr u32

record trapframe =
  tf_edi :: u32
  tf_esi :: u32
  tf_ebp :: u32
  tf_oesp :: u32
  tf_ebx :: u32
  tf_edx :: u32
  tf_ecx :: u32
  tf_eax :: u32
  tf_gs :: u16
  tf_fs :: u16
  tf_es :: u16
  tf_ds :: u16
  tf_trapno :: u32
  tf_err :: u32
  tf_eip :: u32
  tf_cs :: u16
  tf_eflags :: u32
  tf_esp :: u32
  tf_ss :: u16

text \<open>The saved kernel registers, with the return address that \<open>allocproc\<close> stores above
  them on the kernel stack.\<close>

record kcontext =
  ctx_edi :: u32
  ctx_esi :: u32
  ctx_ebx :: u32
  ctx_ebp :: u32
  ctx_eip :: u32
  ctx_ret :: u32

record proc =
  sz :: u32
  pgdir :: u32
  kstack :: u32
  pstate :: procstate
  pid :: int
  parent :: "nat option"
  tf :: trapframe
  kctx :: kcontext
  chan :: "channel option"
  killed :: int
  ofile :: "nat option list"
  cwd :: "nat option"
  pname :: "u8 list"
  wait_ticks :: int
  ticks :: "int list"
  priority :: int
  tick_remain :: int
  slice_remain :: int

record ptable =
  procs :: "proc list"
  nextpid :: int
  initproc :: "nat option"

definition NPROC :: nat where "NPROC = 64"
definition NOFILE :: nat where "NOFILE = 16"

definition time_slice :: "int list" where "time_slice = [64, 4, 2, 1]"
definition slices :: "int list" where "slices = [8000000, 32, 16, 8]"

record 'm kops =
  k_kalloc :: "'m \<Rightarrow> (u32 \<times> 'm) option"
  k_kfree :: "u32 \<Rightarrow> 'm \<Rightarrow> 'm option"
  k_setupkvm :: "'m \<Rightarrow> (u32 \<times> 'm) option"
  k_initcode :: "u32 \<Rightarrow> 'm \<Rightarrow> 'm option"
  k_copyuvm :: "u32 \<Rightarrow> u32 \<Rightarrow> 'm \<Rightarrow> (u32 \<times> 'm) option"
  k_freevm :: "u32 \<Rightarrow> 'm \<Rightarrow> 'm option"
  k_allocuvm :: "u32 \<Rightarrow> u32 \<Rightarrow> u32 \<Rightarrow> 'm \<Rightarrow> (u32 \<times> 'm) option"
  k_deallocuvm :: "u32 \<Rightarrow> u32 \<Rightarrow> u32 \<Rightarrow> 'm \<Rightarrow> (u32 \<times> 'm) option"
  k_filedup :: "nat \<Rightarrow> 'm \<Rightarrow> 'm option"
  k_fileclose :: "nat \<Rightarrow> 'm \<Rightarrow> 'm option"
  k_idup :: "nat \<Rightarrow> 'm \<Rightarrow> 'm option"
  k_iput :: "nat \<Rightarrow> 'm \<Rightarrow> 'm option"
  k_root_inode :: "'m \<Rightarrow> (nat option \<times> 'm) option"
  k_forkret :: u32
  k_trapret :: u32

definition upd_proc :: "nat \<Rightarrow> (proc \<Rightarrow> proc) \<Rightarrow> ptable \<Rightarrow> ptable" where
  "upd_proc i f s = s\<lparr>procs := upd_at i f (procs s)\<rparr>"

text \<open>The table as the loader leaves it: all bytes zero.\<close>

definition zero_tf :: trapframe where
  "zero_tf = \<lparr>tf_edi = 0, tf_esi = 0, tf_ebp = 0, tf_oesp = 0, tf_ebx = 0, tf_edx = 0, tf_ecx = 0,
     tf_eax = 0, tf_gs = 0, tf_fs = 0, tf_es = 0, tf_ds = 0, tf_trapno = 0, tf_err = 0,
     tf_eip = 0, tf_cs = 0, tf_eflags = 0, tf_esp = 0, tf_ss = 0\<rparr>"

definition zero_proc :: proc where
  "zero_proc = \<lparr>sz = 0, pgdir = 0, kstack = 0, pstate = UNUSED, pid = 0, parent = None,
     tf = zero_tf, kctx = \<lparr>ctx_edi = 0, ctx_esi = 0, ctx_ebx = 0, ctx_ebp = 0, ctx_eip = 0,
       ctx_ret = 0\<rparr>,
     chan = None, killed = 0, ofile = replicate NOFILE None, cwd = None,
     pname = replicate 16 0, wait_ticks = 0, ticks = [0, 0, 0, 0], priority = 0,
     tick_remain = 0, slice_remain = 0\<rparr>"

definition boot_ptable :: ptable where
  "boot_ptable = \<lparr>procs = replicate NPROC zero_proc, nextpid = 1, initproc = None\<rparr>"

section \<open>Creating processes\<close>

definition alloc_slot :: "int \<Rightarrow> proc \<Rightarrow> proc" where
  "alloc_slot np p = p\<lparr>pstate := EMBRYO, pid := np, priority := 3,
     tick_remain := time_slice ! 3, wait_ticks := 0, ticks := [0, 0, 0, 0],
     slice_remain := 8\<rparr>"

definition fresh_context :: "'m kops \<Rightarrow> kcontext" where
  "fresh_context K = \<lparr>ctx_edi = 0, ctx_esi = 0, ctx_ebx = 0, ctx_ebp = 0,
     ctx_eip = k_forkret K, ctx_ret = k_trapret K\<rparr>"

definition allocproc ::
    "'m kops \<Rightarrow> ptable \<Rightarrow> 'm \<Rightarrow> (nat option \<times> ptable \<times> 'm) option" where
  "allocproc K s m =
     (case first_index (\<lambda>p. pstate p = UNUSED) (procs s) of
        None \<Rightarrow> Some (None, s, m)
      | Some i \<Rightarrow>
          (let s1 = (upd_proc i (alloc_slot (nextpid s)) s)\<lparr>nextpid := nextpid s + 1\<rparr> in
           do { (ks, m) \<leftarrow> k_kalloc K m;
                if ks = 0
                then Some (None, upd_proc i (\<lambda>p. p\<lparr>kstack := 0, pstate := UNUSED\<rparr>) s1, m)
                else Some (Some i, upd_proc i (\<lambda>p. p\<lparr>kstack := ks, kctx := fresh_context K\<rparr>) s1, m) }))"

text \<open>\<open>userinit\<close>: a null \<open>allocproc\<close> result is dereferenced, so it stops there.\<close>

definition user_tf :: trapframe where
  "user_tf = zero_tf\<lparr>tf_cs := 0x23, tf_ds := 0x2B, tf_es := 0x2B, tf_ss := 0x2B,
     tf_eflags := 0x200, tf_esp := 4096, tf_eip := 0\<rparr>"

definition userinit :: "'m kops \<Rightarrow> ptable \<Rightarrow> 'm \<Rightarrow> (ptable \<times> 'm) option" where
  "userinit K s m = do {
     (np, s, m) \<leftarrow> allocproc K s m;
     i \<leftarrow> np;
     let s = s\<lparr>initproc := Some i\<rparr>;
     (d, m) \<leftarrow> k_setupkvm K m;
     if d = 0 then None
     else do {
       m \<leftarrow> k_initcode K d m;
       nm \<leftarrow> safestrcpy (pname (procs s ! i)) (bytes_of ''initcode'' @ [0]) 16;
       (root, m) \<leftarrow> k_root_inode K m;
       Some (upd_proc i (\<lambda>p. p\<lparr>pgdir := d, sz := 4096, tf := user_tf, pname := nm,
               cwd := root, pstate := RUNNABLE\<rparr>) s, m) } }"

text \<open>\<open>growproc\<close>: the size arithmetic is unsigned and wraps.\<close>

definition growproc :: "'m kops \<Rightarrow> nat \<Rightarrow> int \<Rightarrow> ptable \<Rightarrow> 'm \<Rightarrow> (int \<times> ptable \<times> 'm) option" where
  "growproc K me n s m =
     (let p = procs s ! me; new = sz p + word_of_int n in
      do { (sz', m) \<leftarrow> (if n > 0 then k_allocuvm K (pgdir p) (sz p) new m
                        else if n < 0 then k_deallocuvm K (pgdir p) (sz p) new m
                        else Some (sz p, m));
           if n \<noteq> 0 \<and> sz' = 0 then Some (-1, s, m)
           else if pgdir p = 0 then None
           else Some (0, upd_proc me (\<lambda>p. p\<lparr>sz := sz'\<rparr>) s, m) })"

fun dup_files :: "'m kops \<Rightarrow> nat option list \<Rightarrow> nat option list \<Rightarrow> 'm \<Rightarrow> (nat option list \<times> 'm) option" where
  "dup_files K (Some f # ps) (c # cs) m = do {
     m \<leftarrow> k_filedup K f m;
     (cs', m) \<leftarrow> dup_files K ps cs m;
     Some (Some f # cs', m) }"
| "dup_files K (None # ps) (c # cs) m = do {
     (cs', m) \<leftarrow> dup_files K ps cs m;
     Some (c # cs', m) }"
| "dup_files K _ cs m = Some (cs, m)"

definition fork :: "'m kops \<Rightarrow> nat \<Rightarrow> ptable \<Rightarrow> 'm \<Rightarrow> (int \<times> ptable \<times> 'm) option" where
  "fork K me s m = do {
     (np, s, m) \<leftarrow> allocproc K s m;
     (case np of
        None \<Rightarrow> Some (-1, s, m)
      | Some i \<Rightarrow> do {
          (d, m) \<leftarrow> k_copyuvm K (pgdir (procs s ! me)) (sz (procs s ! me)) m;
          if d = 0
          then do {
            m \<leftarrow> k_kfree K (kstack (procs s ! i)) m;
            Some (-1, upd_proc i (\<lambda>p. p\<lparr>pgdir := 0, kstack := 0, pstate := UNUSED\<rparr>) s, m) }
          else do {
            let me_p = procs s ! me;
            (fs, m) \<leftarrow> dup_files K (ofile me_p) (ofile (procs s ! i)) m;
            c \<leftarrow> cwd me_p;
            m \<leftarrow> k_idup K c m;
            nm \<leftarrow> safestrcpy (pname (procs s ! i)) (pname me_p) 16;
            Some (pid (procs s ! i),
              upd_proc i (\<lambda>p. p\<lparr>pgdir := d, sz := sz me_p, parent := Some me,
                tf := (tf me_p)\<lparr>tf_eax := 0\<rparr>, ofile := fs, cwd := Some c,
                pstate := RUNNABLE, pname := nm\<rparr>) s, m) } }) }"

section \<open>Sleep and wakeup\<close>

definition wakeup_one :: "channel option \<Rightarrow> proc \<Rightarrow> proc" where
  "wakeup_one c p = (if pstate p = SLEEPING \<and> chan p = c then p\<lparr>pstate := RUNNABLE\<rparr> else p)"

definition wakeup1 :: "channel option \<Rightarrow> ptable \<Rightarrow> ptable" where
  "wakeup1 c s = s\<lparr>procs := map (wakeup_one c) (procs s)\<rparr>"

definition wakeup :: "channel option \<Rightarrow> ptable \<Rightarrow> ptable" where
  "wakeup c s = wakeup1 c s"

text \<open>
  \<open>sleep\<close> up to its call of \<open>sched\<close>, and what it does when it is scheduled again.
\<close>

definition sleep_on :: "channel option \<Rightarrow> nat \<Rightarrow> ptable \<Rightarrow> ptable" where
  "sleep_on c me s = upd_proc me (\<lambda>p. p\<lparr>chan := c, pstate := SLEEPING\<rparr>) s"

definition sleep_resumed :: "nat \<Rightarrow> ptable \<Rightarrow> ptable" where
  "sleep_resumed me s = upd_proc me (\<lambda>p. p\<lparr>chan := None\<rparr>) s"

definition yield :: "nat \<Rightarrow> ptable \<Rightarrow> ptable" where
  "yield me s = upd_proc me (\<lambda>p. p\<lparr>pstate := RUNNABLE\<rparr>) s"

section \<open>Exit, wait, kill\<close>

fun close_files :: "'m kops \<Rightarrow> nat option list \<Rightarrow> 'm \<Rightarrow> 'm option" where
  "close_files K [] m = Some m"
| "close_files K (None # fs) m = close_files K fs m"
| "close_files K (Some f # fs) m = do { m \<leftarrow> k_fileclose K f m; close_files K fs m }"

definition adopt :: "nat \<Rightarrow> nat \<Rightarrow> ptable \<Rightarrow> ptable" where
  "adopt me i s =
     (if parent (procs s ! i) = Some me
      then (let s1 = upd_proc i (\<lambda>p. p\<lparr>parent := initproc s\<rparr>) s in
            if pstate (procs s ! i) = ZOMBIE
            then wakeup1 (map_option ChanProc (initproc s)) s1 else s1)
      else s)"

definition reparent :: "nat \<Rightarrow> ptable \<Rightarrow> ptable" where
  "reparent me s = fold (adopt me) [0..<length (procs s)] s"

text \<open>\<open>exit\<close>, up to its call of \<open>sched\<close>.\<close>

definition exit_proc :: "'m kops \<Rightarrow> nat \<Rightarrow> ptable \<Rightarrow> 'm \<Rightarrow> (ptable \<times> 'm) option" where
  "exit_proc K me s m =
     (if initproc s = Some me then None
      else do {
        m \<leftarrow> close_files K (ofile (procs s ! me)) m;
        c \<leftarrow> cwd (procs s ! me);
        m \<leftarrow> k_iput K c m;
        let s = upd_proc me (\<lambda>p. p\<lparr>ofile := replicate NOFILE None, cwd := None\<rparr>) s;
        let s = wakeup1 (map_option ChanProc (parent (procs s ! me))) s;
        let s = reparent me s;
        Some (upd_proc me (\<lambda>p. p\<lparr>pstate := ZOMBIE\<rparr>) s, m) })"

datatype wait_result = WaitPid int | WaitNone | WaitSleep

fun wait_scan :: "nat \<Rightarrow> proc list \<Rightarrow> nat \<Rightarrow> bool \<Rightarrow> nat option \<times> bool" where
  "wait_scan me [] i havekids = (None, havekids)"
| "wait_scan me (p # ps) i havekids =
     (if parent p \<noteq> Some me then wait_scan me ps (Suc i) havekids
      else if pstate p = ZOMBIE then (Some i, True)
      else wait_scan me ps (Suc i) True)"

definition reap :: "proc \<Rightarrow> proc" where
  "reap p = p\<lparr>kstack := 0, pstate := UNUSED, pid := 0, parent := None,
     pname := (pname p)[0 := 0], killed := 0\<rparr>"

text \<open>One pass of the loop of \<open>wait\<close>; \<open>WaitSleep\<close> is the call \<open>sleep(proc, \<dots>)\<close>, after which
  the loop starts again.\<close>

definition wait_pass :: "'m kops \<Rightarrow> nat \<Rightarrow> ptable \<Rightarrow> 'm \<Rightarrow> (wait_result \<times> ptable \<times> 'm) option" where
  "wait_pass K me s m =
     (case wait_scan me (procs s) 0 False of
        (Some i, _) \<Rightarrow> do {
          m \<leftarrow> k_kfree K (kstack (procs s ! i)) m;
          m \<leftarrow> k_freevm K (pgdir (procs s ! i)) m;
          Some (WaitPid (pid (procs s ! i)), upd_proc i reap s, m) }
      | (None, havekids) \<Rightarrow>
          if \<not> havekids \<or> killed (procs s ! me) \<noteq> 0 then Some (WaitNone, s, m)
          else Some (WaitSleep, sleep_on (Some (ChanProc me)) me s, m))"

definition kill :: "int \<Rightarrow> ptable \<Rightarrow> int \<times> ptable" where
  "kill q s =
     (case first_index (\<lambda>p. pid p = q) (procs s) of
        None \<Rightarrow> (-1, s)
      | Some i \<Rightarrow> (0, upd_proc i (\<lambda>p. p\<lparr>killed := 1,
            pstate := (if pstate p = SLEEPING then RUNNABLE else pstate p)\<rparr>) s))"

section \<open>The scheduler\<close>

fun height_loop :: "int \<Rightarrow> proc list \<Rightarrow> int" where
  "height_loop mx [] = mx"
| "height_loop mx (p # ps) =
     (if pstate p \<noteq> RUNNABLE then height_loop mx ps
      else height_loop (if priority p > mx then priority p else mx) ps)"

definition getheight :: "ptable \<Rightarrow> int" where
  "getheight s = height_loop 0 (procs s)"

text \<open>Accounting for the chosen process.\<close>

definition account :: "proc \<Rightarrow> proc option" where
  "account p = do {
     t \<leftarrow> c_index (ticks p) (priority p);
     ts \<leftarrow> c_update (ticks p) (priority p) (t + 1);
     Some (p\<lparr>tick_remain := tick_remain p - 1, wait_ticks := 0, ticks := ts,
             slice_remain := slice_remain p - 1\<rparr>) }"

text \<open>The loop that ages the entries before the chosen one; \<open>prio\<close> is the priority of
  the chosen process, which the code uses for the quantum of a promoted one.\<close>

definition age_one :: "int \<Rightarrow> proc \<Rightarrow> proc option" where
  "age_one prio q =
     (if pstate q \<noteq> RUNNABLE then Some q
      else let w = wait_ticks q + 1 in
      do { t \<leftarrow> c_index time_slice (priority q);
           if w = 10 * t \<and> priority q < 3
           then do { sl \<leftarrow> c_index slices prio;
                     tr \<leftarrow> c_index time_slice prio;
                     Some (q\<lparr>priority := priority q + 1, wait_ticks := 0,
                             slice_remain := sl, tick_remain := tr\<rparr>) }
           else Some (q\<lparr>wait_ticks := w\<rparr>) })"

fun age_before :: "int \<Rightarrow> nat \<Rightarrow> proc list \<Rightarrow> proc list option" where
  "age_before prio (Suc n) (q # qs) = do {
     q' \<leftarrow> age_one prio q;
     qs' \<leftarrow> age_before prio n qs;
     Some (q' # qs') }"
| "age_before prio _ qs = Some qs"

text \<open>From the choice of entry \<open>i\<close> to the switch into it; \<open>switchuvm\<close> panics on a process
  without page table.\<close>

definition dispatch :: "nat \<Rightarrow> ptable \<Rightarrow> ptable option" where
  "dispatch i s = do {
     p \<leftarrow> account (procs s ! i);
     ps \<leftarrow> age_before (priority p) i ((procs s)[i := p]);
     if pgdir p = 0 then None
     else Some (s\<lparr>procs := ps[i := p\<lparr>pstate := RUNNING\<rparr>]\<rparr>) }"

definition eligible :: "nat \<Rightarrow> ptable \<Rightarrow> bool" where
  "eligible i s \<longleftrightarrow> pstate (procs s ! i) = RUNNABLE \<and> priority (procs s ! i) = getheight s"

text \<open>After the switch back: demotion, another turn of the round robin, or a fresh quantum.
  The result is the new loop position (\<open>p--\<close> followed by the loop's \<open>p++\<close> stays at \<open>i\<close>).\<close>

definition sched_return :: "nat \<Rightarrow> ptable \<Rightarrow> (ptable \<times> nat) option" where
  "sched_return i s =
     (let p = procs s ! i in
      if slice_remain p = 0
      then do { t \<leftarrow> c_index time_slice (priority p - 1);
                sl \<leftarrow> c_index slices (priority p - 1);
                Some (upd_proc i (\<lambda>p. p\<lparr>priority := priority p - 1, tick_remain := t,
                        slice_remain := sl\<rparr>) s, Suc i) }
      else if tick_remain p \<noteq> 0 then Some (s, i)
      else do { t \<leftarrow> c_index time_slice (priority p);
                Some (upd_proc i (\<lambda>p. p\<lparr>tick_remain := t\<rparr>) s, Suc i) })"

text \<open>The inner \<open>for\<close> loop from position \<open>i\<close> to the next switch: the outer option is the crash
  of the code, the inner one is \<open>None\<close> when the scan reaches the end of the table.\<close>

function sched_scan :: "nat \<Rightarrow> ptable \<Rightarrow> (ptable \<times> nat) option option" where
  "sched_scan i s =
     (if NPROC \<le> i then Some None
      else if \<not> eligible i s then sched_scan (Suc i) s
      else map_option (\<lambda>s'. Some (s', i)) (dispatch i s))"
  by pat_completeness auto
termination
  by (relation "measure (\<lambda>(i, s). NPROC - i)") auto

declare sched_scan.simps [simp del]

section \<open>Statistics and boosting\<close>

record pstat =
  ps_inuse :: "int list"
  ps_pid :: "int list"
  ps_priority :: "int list"
  ps_state :: "procstate list"
  ps_ticks :: "int list list"
  ps_wait_ticks :: "int list list"

definition wait_row :: "proc \<Rightarrow> int list option" where
  "wait_row p = c_update [0, 0, 0, 0] (priority p) (wait_ticks p)"

fun wait_rows :: "proc list \<Rightarrow> int list list option" where
  "wait_rows [] = Some []"
| "wait_rows (p # ps) = do { r \<leftarrow> wait_row p; rs \<leftarrow> wait_rows ps; Some (r # rs) }"

definition getprocinfo :: "ptable \<Rightarrow> pstat option \<Rightarrow> (int \<times> pstat option) option" where
  "getprocinfo s ps =
     (case ps of
        None \<Rightarrow> Some (-1, None)
      | Some _ \<Rightarrow> do {
          w \<leftarrow> wait_rows (procs s);
          Some (0, Some \<lparr>
            ps_inuse = map (\<lambda>p. if pstate p = UNUSED then 0 else 1) (procs s),
            ps_pid = map pid (procs s),
            ps_priority = map priority (procs s),
            ps_state = map pstate (procs s),
            ps_ticks = map (\<lambda>p. take 4 (ticks p)) (procs s),
            ps_wait_ticks = w\<rparr>) })"

definition boostproc :: "nat \<Rightarrow> ptable \<Rightarrow> (int \<times> ptable) option" where
  "boostproc me s =
     (let p = procs s ! me in
      if priority p \<noteq> 3
      then do { sl \<leftarrow> c_index slices (priority p + 1);
                t \<leftarrow> c_index time_slice (priority p + 1);
                Some (0, upd_proc me (\<lambda>p. p\<lparr>priority := priority p + 1, wait_ticks := 0,
                         slice_remain := sl, tick_remain := t\<rparr>) s) }
      else Some (0, s))"

end
