(* ===== verification/Sched.thy ===== *)
theory Sched imports Proc
begin

text \<open>
  The one-CPU machine around \<open>kernel/proc.c\<close>: the scheduler loop position, the system calls of
  the process it switched to, and the calls by which that process gives the CPU back.  The
  invariants of the process table hold in every reachable state.
\<close>

section \<open>Definitions\<close>

datatype sched_pos = Scan nat | Run nat

record cpu_state =
  ctab :: ptable
  cpos :: sched_pos

text \<open>Calls of the running process \<open>me\<close> that come back to it.\<close>

inductive proc_step :: "'m kops \<Rightarrow> nat \<Rightarrow> ptable \<Rightarrow> ptable \<Rightarrow> bool" for K :: "'m kops" and me :: nat where
  step_fork: "fork K me s m = Some (r, s', m') \<Longrightarrow> proc_step K me s s'"
| step_grow: "growproc K me n s m = Some (r, s', m') \<Longrightarrow> proc_step K me s s'"
| step_wait: "wait_pass K me s m = Some (r, s', m') \<Longrightarrow> r \<noteq> WaitSleep \<Longrightarrow> proc_step K me s s'"
| step_kill: "kill q s = (r, s') \<Longrightarrow> proc_step K me s s'"
| step_wakeup: "proc_step K me s (wakeup c s)"
| step_boost: "boostproc me s = Some (r, s') \<Longrightarrow> proc_step K me s s'"
| step_resumed: "proc_step K me s (sleep_resumed me s)"

text \<open>Calls that end in \<open>sched()\<close>.\<close>

inductive gives_up :: "'m kops \<Rightarrow> nat \<Rightarrow> ptable \<Rightarrow> ptable \<Rightarrow> bool" for K :: "'m kops" and me :: nat where
  up_yield: "gives_up K me s (yield me s)"
| up_sleep: "gives_up K me s (sleep_on c me s)"
| up_exit: "exit_proc K me s m = Some (s', m') \<Longrightarrow> gives_up K me s s'"
| up_wait: "wait_pass K me s m = Some (WaitSleep, s', m') \<Longrightarrow> gives_up K me s s'"

inductive sched_step :: "'m kops \<Rightarrow> cpu_state \<Rightarrow> cpu_state \<Rightarrow> bool" for K :: "'m kops" where
  scan_end: "cpos c = Scan i \<Longrightarrow> NPROC \<le> i \<Longrightarrow> sched_step K c (c\<lparr>cpos := Scan 0\<rparr>)"
| interrupt: "cpos c = Scan 0 \<Longrightarrow> sched_step K c (c\<lparr>ctab := wakeup ch (ctab c)\<rparr>)"
| skip: "cpos c = Scan i \<Longrightarrow> i < NPROC \<Longrightarrow> \<not> eligible i (ctab c) \<Longrightarrow>
     sched_step K c (c\<lparr>cpos := Scan (Suc i)\<rparr>)"
| switch_to: "cpos c = Scan i \<Longrightarrow> i < NPROC \<Longrightarrow> eligible i (ctab c) \<Longrightarrow>
     dispatch i (ctab c) = Some t \<Longrightarrow> sched_step K c \<lparr>ctab = t, cpos = Run i\<rparr>"
| run: "cpos c = Run i \<Longrightarrow> proc_step K i (ctab c) t \<Longrightarrow> sched_step K c (c\<lparr>ctab := t\<rparr>)"
| switch_back: "cpos c = Run i \<Longrightarrow> gives_up K i (ctab c) t \<Longrightarrow>
     sched_return i t = Some (t', j) \<Longrightarrow> sched_step K c \<lparr>ctab = t', cpos = Scan j\<rparr>"

inductive reachable :: "'m kops \<Rightarrow> cpu_state \<Rightarrow> bool" for K :: "'m kops" where
  boot: "userinit K boot_ptable m = Some (t, m') \<Longrightarrow> reachable K \<lparr>ctab = t, cpos = Scan 0\<rparr>"
| step: "reachable K c \<Longrightarrow> sched_step K c c' \<Longrightarrow> reachable K c'"

text \<open>One tick of process \<open>i\<close>: it is chosen, runs, and yields; and \<open>n\<close> such ticks.\<close>

definition run_tick :: "nat \<Rightarrow> ptable \<Rightarrow> (ptable \<times> nat) option" where
  "run_tick i s = do { s \<leftarrow> dispatch i s; sched_return i (yield i s) }"

fun run_ticks :: "nat \<Rightarrow> nat \<Rightarrow> ptable \<Rightarrow> ptable option" where
  "run_ticks 0 i s = Some s"
| "run_ticks (Suc n) i s = do { (s, j) \<leftarrow> run_tick i s; run_ticks n i s }"

text \<open>The invariant.\<close>

definition alive :: "proc \<Rightarrow> bool" where
  "alive p \<longleftrightarrow> pstate p \<in> {SLEEPING, RUNNABLE, RUNNING}"

definition proc_ok :: "proc \<Rightarrow> bool" where
  "proc_ok p \<longleftrightarrow> 0 \<le> priority p \<and> priority p \<le> 3 \<and> length (ticks p) = 4 \<and> pstate p \<noteq> EMBRYO"

definition table_ok :: "ptable \<Rightarrow> bool" where
  "table_ok s \<longleftrightarrow> length (procs s) = NPROC \<and> (\<forall>p \<in> set (procs s). proc_ok p)"

definition pids_ok :: "ptable \<Rightarrow> bool" where
  "pids_ok s \<longleftrightarrow> 0 < nextpid s \<and>
     (\<forall>i < length (procs s). pstate (procs s ! i) \<noteq> UNUSED \<longrightarrow>
        0 < pid (procs s ! i) \<and> pid (procs s ! i) < nextpid s) \<and>
     (\<forall>i < length (procs s). \<forall>j < length (procs s).
        pstate (procs s ! i) \<noteq> UNUSED \<and> pstate (procs s ! j) \<noteq> UNUSED \<and>
        pid (procs s ! i) = pid (procs s ! j) \<longrightarrow> i = j)"

definition family_ok :: "ptable \<Rightarrow> bool" where
  "family_ok s \<longleftrightarrow>
     (\<exists>k. initproc s = Some k \<and> k < length (procs s) \<and> alive (procs s ! k)) \<and>
     (\<forall>i < length (procs s). \<forall>j. parent (procs s ! i) = Some j \<longrightarrow>
        j < length (procs s) \<and> alive (procs s ! j))"

definition running_is :: "nat option \<Rightarrow> ptable \<Rightarrow> bool" where
  "running_is r s \<longleftrightarrow> (\<forall>i < length (procs s). pstate (procs s ! i) = RUNNING \<longleftrightarrow> r = Some i)"

definition ptable_inv :: "ptable \<Rightarrow> bool" where
  "ptable_inv s \<longleftrightarrow> table_ok s \<and> pids_ok s \<and> family_ok s"

definition sched_inv :: "cpu_state \<Rightarrow> bool" where
  "sched_inv c \<longleftrightarrow> ptable_inv (ctab c) \<and>
     running_is (case cpos c of Scan _ \<Rightarrow> None | Run i \<Rightarrow> Some i) (ctab c) \<and>
     (case cpos c of Scan _ \<Rightarrow> True | Run i \<Rightarrow> i < NPROC)"

section \<open>Steps that keep identities\<close>

text \<open>\<open>mild p q\<close>: entry \<open>q\<close> is the same process as \<open>p\<close>, in a state of the same kind.\<close>

definition mild :: "proc \<Rightarrow> proc \<Rightarrow> bool" where
  "mild p q \<longleftrightarrow> pid q = pid p \<and> parent q = parent p \<and> alive q = alive p \<and>
     (pstate q = UNUSED \<longleftrightarrow> pstate p = UNUSED) \<and> proc_ok q"

definition same_run :: "proc \<Rightarrow> proc \<Rightarrow> bool" where
  "same_run p q \<longleftrightarrow> (pstate q = RUNNING \<longleftrightarrow> pstate p = RUNNING)"

lemma mild_refl: "proc_ok p \<Longrightarrow> mild p p"
  by (simp add: mild_def)

lemma ptable_inv_mild:
  assumes "ptable_inv s" "list_all2 mild (procs s) (procs t)"
    "nextpid t = nextpid s" "initproc t = initproc s"
  shows "ptable_inv t"
proof -
  note l = list_all2_lengthD [OF assms(2)]
  have m: "mild (procs s ! i) (procs t ! i)" if "i < length (procs s)" for i
    using list_all2_nthD [OF assms(2)] that by simp
  have "table_ok t"
    using assms(1) l m by (auto simp: ptable_inv_def table_ok_def all_set_conv_all_nth mild_def)
  moreover have "pids_ok t"
    using assms(1,3) l m by (auto simp: ptable_inv_def pids_ok_def mild_def)
  moreover have "family_ok t"
    using assms(1,4) l m by (fastforce simp: ptable_inv_def family_ok_def mild_def)
  ultimately show ?thesis by (simp add: ptable_inv_def)
qed

lemma running_is_same:
  assumes "running_is r s" "list_all2 same_run (procs s) (procs t)"
  shows "running_is r t"
  using assms list_all2_lengthD [OF assms(2)] list_all2_nthD [OF assms(2)]
  by (auto simp: running_is_def same_run_def)

lemma list_all2_upd_at:
  assumes "\<forall>p \<in> set xs. R p p" "i < length xs \<Longrightarrow> R (xs ! i) (f (xs ! i))"
  shows "list_all2 R xs (upd_at i f xs)"
  using assms by (auto simp: list_all2_conv_all_nth nth_upd_at)

lemma ptable_inv_upd:
  assumes "ptable_inv s" "i < NPROC \<Longrightarrow> mild (procs s ! i) (f (procs s ! i))"
  shows "ptable_inv (upd_proc i f s)"
proof (rule ptable_inv_mild [OF assms(1)])
  from assms(1) have "\<forall>p \<in> set (procs s). mild p p" and "length (procs s) = NPROC"
    by (auto simp: ptable_inv_def table_ok_def mild_refl)
  then show "list_all2 mild (procs s) (procs (upd_proc i f s))"
    using assms(2) by (auto simp: upd_proc_def intro: list_all2_upd_at)
qed (simp_all add: upd_proc_def)

lemma running_is_upd:
  assumes "running_is r s" "i < length (procs s) \<Longrightarrow> same_run (procs s ! i) (f (procs s ! i))"
  shows "running_is r (upd_proc i f s)"
  using assms(1)
  by (rule running_is_same)
    (auto simp: upd_proc_def same_run_def assms(2) [unfolded same_run_def] intro!: list_all2_upd_at)

lemma inv_nth_ok: "ptable_inv s \<Longrightarrow> i < NPROC \<Longrightarrow> proc_ok (procs s ! i)"
  by (simp add: ptable_inv_def table_ok_def)

lemma inv_length: "ptable_inv s \<Longrightarrow> length (procs s) = NPROC"
  by (simp add: ptable_inv_def table_ok_def)

lemma alive_simps [simp]:
  "pstate p = SLEEPING \<Longrightarrow> alive p" "pstate p = RUNNABLE \<Longrightarrow> alive p"
  "pstate p = RUNNING \<Longrightarrow> alive p" "pstate p = UNUSED \<Longrightarrow> \<not> alive p"
  "pstate p = ZOMBIE \<Longrightarrow> \<not> alive p" "pstate p = EMBRYO \<Longrightarrow> \<not> alive p"
  by (simp_all add: alive_def)

lemma wakeup_one_mild: "proc_ok p \<Longrightarrow> mild p (wakeup_one c p)"
  by (auto simp: wakeup_one_def mild_def proc_ok_def)

lemma wakeup_one_same_run: "same_run p (wakeup_one c p)"
  by (auto simp: wakeup_one_def same_run_def)

lemma wakeup1_inv: "ptable_inv s \<Longrightarrow> ptable_inv (wakeup1 c s)"
  by (rule ptable_inv_mild [of s])
    (auto simp: wakeup1_def list_all2_map2 list.rel_refl_strong wakeup_one_mild
      ptable_inv_def table_ok_def intro!: list.rel_refl_strong)

lemma wakeup1_running: "running_is r s \<Longrightarrow> running_is r (wakeup1 c s)"
  by (rule running_is_same [of r s])
    (auto simp: wakeup1_def list_all2_map2 wakeup_one_same_run intro!: list.rel_refl_strong)

section \<open>Operations of the running process\<close>

lemma proc_okD:
  "proc_ok p \<Longrightarrow> 0 \<le> priority p" "proc_ok p \<Longrightarrow> priority p \<le> 3"
  "proc_ok p \<Longrightarrow> length (ticks p) = 4" "proc_ok p \<Longrightarrow> pstate p \<noteq> EMBRYO"
  by (simp_all add: proc_ok_def)

lemma running_nth: "running_is (Some i) s \<Longrightarrow> i < length (procs s) \<Longrightarrow> pstate (procs s ! i) = RUNNING"
  by (simp add: running_is_def)

lemma sleep_on_inv:
  "ptable_inv s \<Longrightarrow> me < NPROC \<Longrightarrow> running_is (Some me) s \<Longrightarrow> ptable_inv (sleep_on c me s)"
  unfolding sleep_on_def
  by (rule ptable_inv_upd) (auto simp: mild_def inv_length running_nth proc_ok_def dest: inv_nth_ok)

lemma yield_inv:
  "ptable_inv s \<Longrightarrow> me < NPROC \<Longrightarrow> running_is (Some me) s \<Longrightarrow> ptable_inv (yield me s)"
  unfolding yield_def
  by (rule ptable_inv_upd) (auto simp: mild_def inv_length running_nth proc_ok_def dest: inv_nth_ok)

lemma running_given_up:
  assumes "running_is (Some me) s" "\<And>p. pstate (f p) \<noteq> RUNNING"
  shows "running_is None (upd_proc me f s)"
  using assms by (auto simp: running_is_def upd_proc_def nth_upd_at)

lemma sleep_resumed_inv: "ptable_inv s \<Longrightarrow> ptable_inv (sleep_resumed me s)"
  unfolding sleep_resumed_def
  by (rule ptable_inv_upd) (auto simp: mild_def proc_ok_def alive_def dest: inv_nth_ok)

lemma sleep_resumed_running: "running_is r s \<Longrightarrow> running_is r (sleep_resumed me s)"
  unfolding sleep_resumed_def by (rule running_is_upd) (auto simp: same_run_def)

lemma boost_inv: "ptable_inv s \<Longrightarrow> boostproc me s = Some (r, t) \<Longrightarrow> ptable_inv t"
  by (auto simp: boostproc_def Let_def bind_splits split: if_splits dest!: c_index_SomeD
      intro!: ptable_inv_upd) (auto simp: mild_def proc_ok_def alive_def slices_def dest: inv_nth_ok)

lemma boost_running: "running_is r s \<Longrightarrow> boostproc me s = Some (x, t) \<Longrightarrow> running_is r t"
  by (auto simp: boostproc_def Let_def bind_splits same_run_def split: if_splits
      intro!: running_is_upd)

lemma kill_inv: "ptable_inv s \<Longrightarrow> kill q s = (r, t) \<Longrightarrow> ptable_inv t"
  by (auto simp: kill_def split: option.splits if_splits intro!: ptable_inv_upd)
    (auto simp: mild_def proc_ok_def alive_def dest: inv_nth_ok)

lemma kill_running: "running_is r s \<Longrightarrow> kill q s = (x, t) \<Longrightarrow> running_is r t"
  by (auto simp: kill_def same_run_def split: option.splits if_splits intro!: running_is_upd)

lemma growproc_inv: "ptable_inv s \<Longrightarrow> growproc K me n s m = Some (r, t, m') \<Longrightarrow> ptable_inv t"
  by (auto simp: growproc_def Let_def bind_splits split: if_splits intro!: ptable_inv_upd)
    (auto simp: mild_def proc_ok_def alive_def dest: inv_nth_ok)

lemma growproc_running:
  "running_is r s \<Longrightarrow> growproc K me n s m = Some (x, t, m') \<Longrightarrow> running_is r t"
  by (auto simp: growproc_def Let_def bind_splits same_run_def split: if_splits intro!: running_is_upd)

section \<open>Allocation, fork and wait\<close>

text \<open>A slot that was free before and is free again after: only its contents changed.\<close>

lemma ptable_inv_free_slot:
  assumes "ptable_inv s" "i < NPROC" "pstate (procs s ! i) = UNUSED"
    "pstate (f (procs s ! i)) = UNUSED" "proc_ok (f (procs s ! i))"
    "parent (f (procs s ! i)) = parent (procs s ! i)" "n \<ge> nextpid s"
  shows "ptable_inv ((upd_proc i f s)\<lparr>nextpid := n\<rparr>)"
  unfolding ptable_inv_def
proof (intro conjI)
  note l = inv_length [OF assms(1)]
  show "table_ok ((upd_proc i f s)\<lparr>nextpid := n\<rparr>)"
    using assms l by (auto simp: table_ok_def upd_proc_def all_set_conv_all_nth nth_upd_at ptable_inv_def)
  show "pids_ok ((upd_proc i f s)\<lparr>nextpid := n\<rparr>)"
    using assms l by (fastforce simp: pids_ok_def upd_proc_def nth_upd_at ptable_inv_def)
  show "family_ok ((upd_proc i f s)\<lparr>nextpid := n\<rparr>)"
    using assms l by (auto simp: family_ok_def upd_proc_def nth_upd_at ptable_inv_def alive_def)
qed

text \<open>A free slot becomes a live process with the next pid.\<close>

lemma ptable_inv_new_proc:
  assumes "ptable_inv s" "i < NPROC" "pstate (procs s ! i) = UNUSED"
    "alive (f (procs s ! i))" "proc_ok (f (procs s ! i))"
    "parent (f (procs s ! i)) = Some me" "me < NPROC" "alive (procs s ! me)"
    "pid (f (procs s ! i)) = nextpid s"
  shows "ptable_inv ((upd_proc i f s)\<lparr>nextpid := nextpid s + 1\<rparr>)"
  unfolding ptable_inv_def
proof (intro conjI)
  note l = inv_length [OF assms(1)]
  show "table_ok ((upd_proc i f s)\<lparr>nextpid := nextpid s + 1\<rparr>)"
    using assms l by (auto simp: table_ok_def upd_proc_def all_set_conv_all_nth nth_upd_at ptable_inv_def)
  have old: "0 < pid (procs s ! k) \<and> pid (procs s ! k) < nextpid s"
    if "k < NPROC" "pstate (procs s ! k) \<noteq> UNUSED" for k
    using assms(1) that l by (auto simp: ptable_inv_def pids_ok_def)
  show "pids_ok ((upd_proc i f s)\<lparr>nextpid := nextpid s + 1\<rparr>)"
    using assms l by (fastforce simp: pids_ok_def upd_proc_def nth_upd_at ptable_inv_def dest: old)
  show "family_ok ((upd_proc i f s)\<lparr>nextpid := nextpid s + 1\<rparr>)"
    using assms l by (fastforce simp: family_ok_def upd_proc_def nth_upd_at ptable_inv_def)
qed

lemma upd_proc_simps [simp]:
  "nextpid (upd_proc i f s) = nextpid s" "initproc (upd_proc i f s) = initproc s"
  "length (procs (upd_proc i f s)) = length (procs s)"
  "procs (upd_proc i f s) = upd_at i f (procs s)"
  by (simp_all add: upd_proc_def)

lemma upd_proc_nextpid: "upd_proc i f (s\<lparr>nextpid := n\<rparr>) = (upd_proc i f s)\<lparr>nextpid := n\<rparr>"
  by (simp add: upd_proc_def)

lemma upd_proc_twice: "upd_proc i g (upd_proc i f s) = upd_proc i (\<lambda>p. g (f p)) s"
  by (cases "i < length (procs s)") (simp_all add: upd_proc_def upd_at_def list_update_beyond)

lemma allocproc_cases:
  assumes "allocproc K s m = Some (np, t, m')"
  obtains (full) "np = None" "t = s" "m' = m" "first_index (\<lambda>p. pstate p = UNUSED) (procs s) = None"
  | (nomem) i where "np = None" "i < length (procs s)" "pstate (procs s ! i) = UNUSED"
      "k_kalloc K m = Some (0, m')"
      "t = (upd_proc i (\<lambda>p. (alloc_slot (nextpid s) p)\<lparr>kstack := 0, pstate := UNUSED\<rparr>) s)\<lparr>nextpid := nextpid s + 1\<rparr>"
  | (ok) i ks where "np = Some i" "i < length (procs s)" "pstate (procs s ! i) = UNUSED"
      "k_kalloc K m = Some (ks, m')" "ks \<noteq> 0"
      "t = (upd_proc i (\<lambda>p. (alloc_slot (nextpid s) p)\<lparr>kstack := ks, kctx := fresh_context K\<rparr>) s)\<lparr>nextpid := nextpid s + 1\<rparr>"
proof (cases "first_index (\<lambda>p. pstate p = UNUSED) (procs s)")
  case None
  with assms full show ?thesis by (simp add: allocproc_def)
next
  case (Some i)
  then have i: "i < length (procs s)" "pstate (procs s ! i) = UNUSED"
    by (auto simp: first_index_Some_iff)
  from assms Some obtain ks where ks: "k_kalloc K m = Some (ks, m')"
    by (auto simp: allocproc_def Let_def bind_splits split: if_splits)
  show ?thesis
  proof (cases "ks = 0")
    case True
    with assms Some ks have
      "t = upd_proc i (\<lambda>p. p\<lparr>kstack := 0, pstate := UNUSED\<rparr>)
         ((upd_proc i (alloc_slot (nextpid s)) s)\<lparr>nextpid := nextpid s + 1\<rparr>)" "np = None"
      by (simp_all add: allocproc_def Let_def)
    with nomem [OF _ i] ks True show ?thesis
      by (simp only: upd_proc_nextpid upd_proc_twice)
  next
    case False
    with assms Some ks have
      "t = upd_proc i (\<lambda>p. p\<lparr>kstack := ks, kctx := fresh_context K\<rparr>)
         ((upd_proc i (alloc_slot (nextpid s)) s)\<lparr>nextpid := nextpid s + 1\<rparr>)" "np = Some i"
      by (simp_all add: allocproc_def Let_def)
    with ok [OF _ i ks False] show ?thesis
      by (simp only: upd_proc_nextpid upd_proc_twice)
  qed
qed

lemma proc_okI: "pstate q = UNUSED \<or> alive q \<Longrightarrow> priority q = 3 \<Longrightarrow> length (ticks q) = 4 \<Longrightarrow> proc_ok q"
  by (auto simp: proc_ok_def alive_def)

lemma alloc_slot_simps [simp]:
  "pid (alloc_slot n p) = n" "priority (alloc_slot n p) = 3" "ticks (alloc_slot n p) = [0, 0, 0, 0]"
  "parent (alloc_slot n p) = parent p" "pstate (alloc_slot n p) = EMBRYO"
  "slice_remain (alloc_slot n p) = 8" "tick_remain (alloc_slot n p) = 1" "wait_ticks (alloc_slot n p) = 0"
  "killed (alloc_slot n p) = killed p" "ofile (alloc_slot n p) = ofile p" "cwd (alloc_slot n p) = cwd p"
  by (simp_all add: alloc_slot_def time_slice_def)

text \<open>Every way \<open>fork\<close> can come back.\<close>

lemma fork_cases:
  assumes "fork K me s m = Some (r, t, m')"
  obtains (full) "r = -1" "t = s"
  | (failed) i f where "r = -1" "i < length (procs s)" "pstate (procs s ! i) = UNUSED"
      "t = (upd_proc i f s)\<lparr>nextpid := nextpid s + 1\<rparr>"
      "pstate (f (procs s ! i)) = UNUSED" "proc_ok (f (procs s ! i))"
      "parent (f (procs s ! i)) = parent (procs s ! i)"
  | (child) i f where "r = nextpid s" "i < length (procs s)" "pstate (procs s ! i) = UNUSED"
      "t = (upd_proc i f s)\<lparr>nextpid := nextpid s + 1\<rparr>"
      "pstate (f (procs s ! i)) = RUNNABLE" "proc_ok (f (procs s ! i))"
      "parent (f (procs s ! i)) = Some me" "pid (f (procs s ! i)) = nextpid s"
      "priority (f (procs s ! i)) = 3" "slice_remain (f (procs s ! i)) = 8"
      "killed (f (procs s ! i)) = killed (procs s ! i)"
      "i \<noteq> me \<Longrightarrow> tf (f (procs s ! i)) = (tf (procs s ! me))\<lparr>tf_eax := 0\<rparr> \<and>
         sz (f (procs s ! i)) = sz (procs s ! me) \<and> cwd (f (procs s ! i)) = cwd (procs s ! me)"
proof -
  from assms obtain np s1 m1 where a: "allocproc K s m = Some (np, s1, m1)"
    by (auto simp: fork_def bind_splits)
  show thesis
    using a
  proof (cases rule: allocproc_cases)
    case full
    with assms a that(1) show ?thesis by (simp add: fork_def)
  next
    case (nomem i)
    show ?thesis
      by (rule that(2) [of i "\<lambda>p. (alloc_slot (nextpid s) p)\<lparr>kstack := 0, pstate := UNUSED\<rparr>"])
        (use nomem assms a in \<open>auto simp: fork_def proc_ok_def\<close>)
  next
    case (ok i ks)
    from assms a ok obtain d m2 where
      d: "k_copyuvm K (pgdir (procs s1 ! me)) (sz (procs s1 ! me)) m1 = Some (d, m2)"
      by (auto simp: fork_def bind_splits)
    show ?thesis
    proof (cases "d = 0")
      case True
      show ?thesis
        by (rule that(2) [of i "\<lambda>p. (alloc_slot (nextpid s) p)\<lparr>kctx := fresh_context K,
              pgdir := 0, kstack := 0, pstate := UNUSED\<rparr>"])
          (use ok assms a d True in \<open>auto simp: fork_def bind_splits upd_proc_nextpid upd_proc_twice proc_ok_def\<close>)
    next
      case False
      with ok assms a d obtain fs c nm where
        "cwd (procs s1 ! me) = Some c"
        "t = upd_proc i (\<lambda>p. p\<lparr>pgdir := d, sz := sz (procs s1 ! me), parent := Some me,
                tf := (tf (procs s1 ! me))\<lparr>tf_eax := 0\<rparr>, ofile := fs, cwd := Some c,
                pstate := RUNNABLE, pname := nm\<rparr>) s1" "r = pid (procs s1 ! i)"
        by (fastforce simp: fork_def bind_splits Let_def)
      moreover from this(1) ok(6) have "i \<noteq> me \<Longrightarrow> cwd (procs s ! me) = Some c"
        by simp
      ultimately show ?thesis
        using ok that(3) [of i "\<lambda>p. (alloc_slot (nextpid s) p)\<lparr>kstack := ks, kctx := fresh_context K,
                pgdir := d, sz := sz (procs s1 ! me), parent := Some me,
                tf := (tf (procs s1 ! me))\<lparr>tf_eax := 0\<rparr>, ofile := fs, cwd := Some c,
                pstate := RUNNABLE, pname := nm\<rparr>"]
        by (auto simp: upd_proc_nextpid upd_proc_twice proc_ok_def)
    qed
  qed
qed

lemma fork_inv:
  assumes "ptable_inv s" "me < NPROC" "alive (procs s ! me)" "fork K me s m = Some (r, t, m')"
  shows "ptable_inv t"
  using assms(4)
proof (cases rule: fork_cases)
  case full
  with assms(1) show ?thesis by simp
next
  case (failed i f)
  with assms(1) show ?thesis
    by (auto simp: inv_length intro!: ptable_inv_free_slot)
next
  case (child i f)
  with assms show ?thesis
    by (auto simp: inv_length intro!: ptable_inv_new_proc [where me = me])
qed

lemma running_is_nextpid [simp]: "running_is r (s\<lparr>nextpid := n\<rparr>) = running_is r s"
  by (simp add: running_is_def)

lemma fork_running:
  assumes "running_is r s" "fork K me s m = Some (x, t, m')"
  shows "running_is r t"
  using assms(2)
  by (cases rule: fork_cases) (use assms(1) in \<open>auto intro!: running_is_upd simp: same_run_def\<close>)

lemma wait_scan_Some:
  "wait_scan me ps k hk = (Some i, b) \<Longrightarrow>
   k \<le> i \<and> i < k + length ps \<and> parent (ps ! (i - k)) = Some me \<and> pstate (ps ! (i - k)) = ZOMBIE"
proof (induction me ps k hk rule: wait_scan.induct)
  case (1 me k hk)
  then show ?case by simp
next
  case (2 me p ps k hk)
  have later: ?case
    if "Suc k \<le> i \<and> i < Suc k + length ps \<and> parent (ps ! (i - Suc k)) = Some me \<and>
        pstate (ps ! (i - Suc k)) = ZOMBIE"
  proof -
    from that have "i - k = Suc (i - Suc k)" by arith
    with that show ?thesis by simp
  qed
  show ?case
  proof (cases "parent p = Some me \<and> pstate p = ZOMBIE")
    case True
    with "2.prems" show ?thesis by simp
  next
    case False
    with "2.prems" "2.IH" show ?thesis
      by (cases "parent p = Some me") (auto intro!: later)
  qed
qed

lemma wait_scan_None:
  "wait_scan me ps k hk = (None, b) \<Longrightarrow>
   (\<forall>p \<in> set ps. parent p = Some me \<longrightarrow> pstate p \<noteq> ZOMBIE) \<and>
   (b \<longleftrightarrow> hk \<or> (\<exists>p \<in> set ps. parent p = Some me))"
  by (induction me ps k hk rule: wait_scan.induct) (auto split: if_splits)

lemma wait_pass_cases:
  assumes "wait_pass K me s m = Some (r, t, m')"
  obtains (reaped) i where "i < length (procs s)" "parent (procs s ! i) = Some me"
      "pstate (procs s ! i) = ZOMBIE" "r = WaitPid (pid (procs s ! i))" "t = upd_proc i reap s"
  | (none) "r = WaitNone" "t = s"
  | (sleeps) "r = WaitSleep" "t = sleep_on (Some (ChanProc me)) me s"
proof (cases "wait_scan me (procs s) 0 False")
  case (Pair io b)
  show ?thesis
  proof (cases io)
    case None
    with assms Pair none sleeps show ?thesis
      by (auto simp: wait_pass_def split: if_splits)
  next
    case (Some i)
    with Pair wait_scan_Some [of me "procs s" 0 False i b]
    have "i < length (procs s)" "parent (procs s ! i) = Some me" "pstate (procs s ! i) = ZOMBIE"
      by auto
    with assms Pair Some reaped show ?thesis
      by (auto simp: wait_pass_def bind_splits)
  qed
qed

lemma reap_inv:
  assumes "ptable_inv s" "i < NPROC" "pstate (procs s ! i) = ZOMBIE"
  shows "ptable_inv (upd_proc i reap s)"
  unfolding ptable_inv_def
proof (intro conjI)
  note l = inv_length [OF assms(1)]
  show "table_ok (upd_proc i reap s)"
    using assms l by (auto simp: table_ok_def all_set_conv_all_nth nth_upd_at ptable_inv_def reap_def proc_ok_def)
  show "pids_ok (upd_proc i reap s)"
    using assms l by (fastforce simp: pids_ok_def nth_upd_at ptable_inv_def reap_def)
  have na: "\<not> alive (procs s ! i)" using assms(3) by simp
  show "family_ok (upd_proc i reap s)"
    using assms l na by (fastforce simp: family_ok_def nth_upd_at ptable_inv_def reap_def)
qed

lemma wait_pass_inv:
  assumes "ptable_inv s" "me < NPROC" "running_is (Some me) s"
    "wait_pass K me s m = Some (r, t, m')"
  shows "ptable_inv t"
  using assms(4)
  by (cases rule: wait_pass_cases) (use assms in \<open>auto simp: inv_length intro: reap_inv sleep_on_inv\<close>)

lemma wait_pass_running:
  assumes "running_is (Some me) s" "wait_pass K me s m = Some (r, t, m')"
  shows "running_is (if r = WaitSleep then None else Some me) t"
  using assms(2)
proof (cases rule: wait_pass_cases)
  case (reaped i)
  with assms(1) show ?thesis by (auto intro!: running_is_upd simp: same_run_def reap_def)
next
  case none
  with assms(1) show ?thesis by simp
next
  case sleeps
  with assms(1) show ?thesis by (auto simp: sleep_on_def intro: running_given_up)
qed

section \<open>Exit\<close>

text \<open>\<open>adopted q me p p'\<close>: the entry after the adoption pass, children of \<open>me\<close> being given to \<open>q\<close>.\<close>

definition adopted :: "nat option \<Rightarrow> nat \<Rightarrow> bool \<Rightarrow> proc \<Rightarrow> proc \<Rightarrow> bool" where
  "adopted q me now p p' \<longleftrightarrow> pid p' = pid p \<and> alive p' = alive p \<and> (proc_ok p \<longrightarrow> proc_ok p') \<and>
     (pstate p' = UNUSED \<longleftrightarrow> pstate p = UNUSED) \<and> (pstate p' = ZOMBIE \<longleftrightarrow> pstate p = ZOMBIE) \<and>
     (pstate p' = RUNNING \<longleftrightarrow> pstate p = RUNNING) \<and>
     parent p' = (if now \<and> parent p = Some me then q else parent p)"

lemma adopted_wakeup: "adopted q me b p p' \<Longrightarrow> adopted q me b p (wakeup_one c p')"
  by (auto simp: adopted_def wakeup_one_def proc_ok_def)

lemma adopt_frame: "initproc (adopt me i s) = initproc s" "nextpid (adopt me i s) = nextpid s"
  "length (procs (adopt me i s)) = length (procs s)"
  by (simp_all add: adopt_def Let_def wakeup1_def)

lemma reparent_upto:
  assumes "k \<le> length (procs s)"
  shows "(let t = fold (adopt me) [0..<k] s in
     initproc t = initproc s \<and> nextpid t = nextpid s \<and> length (procs t) = length (procs s) \<and>
     (\<forall>j < length (procs s). adopted (initproc s) me (j < k) (procs s ! j) (procs t ! j)))"
  using assms
proof (induction k)
  case 0
  then show ?case by (simp add: adopted_def)
next
  case (Suc k)
  define t where "t = fold (adopt me) [0..<k] s"
  from Suc have t: "initproc t = initproc s" "nextpid t = nextpid s" "length (procs t) = length (procs s)"
    and ad: "\<And>j. j < length (procs s) \<Longrightarrow> adopted (initproc s) me (j < k) (procs s ! j) (procs t ! j)"
    by (simp_all add: t_def Let_def)
  from ad [of k] Suc.prems have par: "parent (procs t ! k) = parent (procs s ! k)"
    by (simp add: adopted_def)
  have "adopted (initproc s) me (j < Suc k) (procs s ! j) (procs (adopt me k t) ! j)"
    if j: "j < length (procs s)" for j
  proof -
    have "adopted (initproc s) me (j < Suc k) (procs s ! j)
        (if j = k \<and> parent (procs t ! k) = Some me then (procs t ! j)\<lparr>parent := initproc s\<rparr> else procs t ! j)"
      using ad [OF j] par by (auto simp: adopted_def less_Suc_eq proc_ok_def alive_def)
    then show ?thesis
      using j t by (auto simp: adopt_def Let_def wakeup1_def nth_upd_at intro: adopted_wakeup)
  qed
  then show ?case
    using t by (simp add: t_def [symmetric] adopt_frame)
qed

lemma reparent_adopted:
  "j < length (procs s) \<Longrightarrow> adopted (initproc s) me True (procs s ! j) (procs (reparent me s) ! j)"
  and reparent_frame: "initproc (reparent me s) = initproc s" "nextpid (reparent me s) = nextpid s"
  "length (procs (reparent me s)) = length (procs s)"
  using reparent_upto [of "length (procs s)" s me] by (simp_all add: reparent_def Let_def)

lemma adopt_awake:
  "k < length (procs s) \<Longrightarrow> pstate (procs s ! k) \<noteq> SLEEPING \<Longrightarrow> pstate (procs (adopt me i s) ! k) \<noteq> SLEEPING"
  by (auto simp: adopt_def Let_def wakeup1_def upd_proc_def nth_upd_at wakeup_one_def)

lemma reparent_awake:
  "k < length (procs s) \<Longrightarrow> pstate (procs s ! k) \<noteq> SLEEPING \<Longrightarrow> pstate (procs (reparent me s) ! k) \<noteq> SLEEPING"
proof -
  have "pstate (procs (fold (adopt me) is s) ! k) \<noteq> SLEEPING"
    if "k < length (procs s)" "pstate (procs s ! k) \<noteq> SLEEPING" for "is"
    using that by (induction "is" arbitrary: s) (simp_all add: adopt_awake adopt_frame)
  then show "k < length (procs s) \<Longrightarrow> pstate (procs s ! k) \<noteq> SLEEPING \<Longrightarrow>
      pstate (procs (reparent me s) ! k) \<noteq> SLEEPING"
    by (simp add: reparent_def)
qed

lemma exit_proc_cases:
  assumes "exit_proc K me s m = Some (t, m')"
  obtains u where "initproc s \<noteq> Some me"
    "u = upd_proc me (\<lambda>p. p\<lparr>ofile := replicate NOFILE None, cwd := None\<rparr>) s"
    "t = upd_proc me (\<lambda>p. p\<lparr>pstate := ZOMBIE\<rparr>)
       (reparent me (wakeup1 (map_option ChanProc (parent (procs u ! me))) u))"
  using assms by (auto simp: exit_proc_def bind_splits Let_def split: if_splits)

lemma exit_inv:
  assumes inv: "ptable_inv s" and me: "me < NPROC" and run: "running_is (Some me) s"
    and ex: "exit_proc K me s m = Some (t, m')"
  shows "ptable_inv t \<and> running_is None t"
  using ex
proof (cases rule: exit_proc_cases)
  case (1 u)
  define v where "v = wakeup1 (map_option ChanProc (parent (procs u ! me))) u"
  define w where "w = reparent me v"
  have u: "ptable_inv u" "running_is (Some me) u" "initproc u = initproc s"
    unfolding 1(2)
    using inv run me
    by (auto intro!: ptable_inv_upd running_is_upd simp: mild_def same_run_def proc_ok_def alive_def
        dest: inv_nth_ok)
  have v: "ptable_inv v" "running_is (Some me) v" "initproc v = initproc s"
    using u by (auto simp: v_def intro: wakeup1_inv wakeup1_running) (simp add: wakeup1_def)
  note l = inv_length [OF v(1)]
  obtain k where k: "initproc v = Some k" "k < NPROC" "alive (procs v ! k)" "k \<noteq> me"
    using v(1,3) 1(1) l by (auto simp: ptable_inv_def family_ok_def)
  have ad: "adopted (Some k) me True (procs v ! j) (procs w ! j)" if "j < NPROC" for j
    using reparent_adopted [of j v me] that l k(1) by (simp add: w_def)
  have w: "length (procs w) = NPROC" "initproc w = Some k" "nextpid w = nextpid v"
    using l k(1) by (simp_all add: w_def reparent_frame)
  have t: "t = upd_proc me (\<lambda>p. p\<lparr>pstate := ZOMBIE\<rparr>) w"
    using 1(3) by (simp add: w_def v_def)
  have pv: "pstate (procs v ! me) = RUNNING"
    using v(2) me l by (simp add: running_is_def)
  have tj: "pid (procs t ! j) = pid (procs v ! j)"
    "pstate (procs t ! j) = UNUSED \<longleftrightarrow> pstate (procs v ! j) = UNUSED"
    "alive (procs t ! j) \<longleftrightarrow> alive (procs v ! j) \<and> j \<noteq> me"
    "proc_ok (procs t ! j)"
    "parent (procs t ! j) = (if parent (procs v ! j) = Some me then Some k else parent (procs v ! j))"
    if "j < NPROC" for j
    using ad [OF that] that w(1) pv inv_nth_ok [OF v(1) that]
    by (auto simp: t nth_upd_at adopted_def proc_ok_def)
  have lt: "length (procs t) = NPROC" "initproc t = Some k" "nextpid t = nextpid v"
    using w by (simp_all add: t)
  have "table_ok t"
    using tj(4) lt by (simp add: table_ok_def all_set_conv_all_nth)
  moreover have "pids_ok t"
    using tj(1,2) lt l v(1) by (simp add: pids_ok_def ptable_inv_def)
  moreover have "family_ok t"
  proof -
    have "j < NPROC \<and> alive (procs t ! j)" if "i < NPROC" "parent (procs t ! i) = Some j" for i j
    proof (cases "parent (procs v ! i) = Some me")
      case True
      with that tj(5) k tj(3) show ?thesis by simp
    next
      case False
      with that tj(5) have "parent (procs v ! i) = Some j" "j \<noteq> me" by auto
      moreover from this that(1) v(1) l have "j < NPROC" "alive (procs v ! j)"
        by (auto simp: ptable_inv_def family_ok_def)
      ultimately show ?thesis by (simp add: tj(3))
    qed
    moreover have "alive (procs t ! k)" using k tj(3) by simp
    ultimately show ?thesis using lt k(2) unfolding family_ok_def by auto
  qed
  moreover have "running_is None t"
    unfolding t using v(2) ad w(1) l
    by (intro running_given_up [where me = me]) (auto simp: running_is_def adopted_def)
  ultimately show ?thesis by (simp add: ptable_inv_def)
qed

section \<open>The scheduler's own steps\<close>

lemma height_loop_le: "mx \<le> height_loop mx ps"
  by (induction mx ps rule: height_loop.induct) (auto split: if_splits)

lemma height_loop_ge: "p \<in> set ps \<Longrightarrow> pstate p = RUNNABLE \<Longrightarrow> priority p \<le> height_loop mx ps"
proof (induction mx ps rule: height_loop.induct)
  case (1 mx)
  then show ?case by simp
next
  case (2 mx q ps)
  then show ?case
    using height_loop_le [of "if priority q > mx then priority q else mx" ps] by auto
qed

lemma height_loop_attained:
  "height_loop mx ps = mx \<or> (\<exists>p \<in> set ps. pstate p = RUNNABLE \<and> priority p = height_loop mx ps)"
  by (induction mx ps rule: height_loop.induct) (auto split: if_splits)

lemma account_Some:
  "account p = Some q \<longleftrightarrow> 0 \<le> priority p \<and> nat (priority p) < length (ticks p) \<and>
     q = p\<lparr>tick_remain := tick_remain p - 1, wait_ticks := 0,
           ticks := (ticks p)[nat (priority p) := ticks p ! nat (priority p) + 1],
           slice_remain := slice_remain p - 1\<rparr>"
  by (auto simp: account_def bind_splits c_index_def c_update_def split: if_splits)

lemma length_tables [simp]: "length time_slice = 4" "length slices = 4"
  by (simp_all add: time_slice_def slices_def)

lemma age_one_total:
  "proc_ok q \<Longrightarrow> 0 \<le> prio \<Longrightarrow> prio \<le> 3 \<Longrightarrow> \<exists>q'. age_one prio q = Some q'"
  by (auto simp: age_one_def Let_def proc_ok_def)

lemma age_one_mild:
  "age_one prio q = Some q' \<Longrightarrow> proc_ok q \<Longrightarrow> mild q q' \<and> pstate q' = pstate q \<and> pgdir q' = pgdir q"
  by (auto simp: age_one_def Let_def bind_splits mild_def proc_ok_def alive_def split: if_splits)

lemma age_before_total:
  "\<forall>q \<in> set qs. proc_ok q \<Longrightarrow> 0 \<le> prio \<Longrightarrow> prio \<le> 3 \<Longrightarrow> \<exists>qs'. age_before prio n qs = Some qs'"
proof (induction prio n qs rule: age_before.induct)
  case (1 prio n q qs)
  from "1.prems" obtain q' where "age_one prio q = Some q'" using age_one_total [of q prio] by auto
  with 1 show ?case by auto
qed auto

lemma age_before_nth:
  "age_before prio n qs = Some qs' \<Longrightarrow> length qs' = length qs \<and>
     (\<forall>j < length qs. (j < n \<longrightarrow> age_one prio (qs ! j) = Some (qs' ! j)) \<and> (n \<le> j \<longrightarrow> qs' ! j = qs ! j))"
  by (induction prio n qs arbitrary: qs' rule: age_before.induct)
    (auto simp: bind_splits less_Suc_eq_0_disj nth_Cons')

lemma dispatch_cases:
  assumes "dispatch i s = Some t" "i < length (procs s)"
  obtains p where "account (procs s ! i) = Some p" "pgdir p \<noteq> 0"
    "procs t ! i = p\<lparr>pstate := RUNNING\<rparr>" "length (procs t) = length (procs s)"
    "nextpid t = nextpid s" "initproc t = initproc s"
    "\<And>j. j < i \<Longrightarrow> age_one (priority p) (procs s ! j) = Some (procs t ! j)"
    "\<And>j. i < j \<Longrightarrow> j < length (procs s) \<Longrightarrow> procs t ! j = procs s ! j"
proof -
  from assms obtain p ps where p: "account (procs s ! i) = Some p" "pgdir p \<noteq> 0"
    and ps: "age_before (priority p) i ((procs s)[i := p]) = Some ps"
    and t: "t = s\<lparr>procs := ps[i := p\<lparr>pstate := RUNNING\<rparr>]\<rparr>"
    by (auto simp: dispatch_def bind_splits split: if_splits)
  note nth = age_before_nth [OF ps]
  show ?thesis
    by (rule that [OF p]) (use nth assms(2) in \<open>auto simp: t nth_list_update\<close>)
qed

lemma dispatch_total:
  assumes "ptable_inv s" "i < NPROC" "pgdir (procs s ! i) \<noteq> 0"
  shows "\<exists>t. dispatch i s = Some t"
proof -
  note ok = inv_nth_ok [OF assms(1,2)]
  then have "nat (priority (procs s ! i)) < length (ticks (procs s ! i))" "0 \<le> priority (procs s ! i)"
    by (auto simp: proc_ok_def)
  with ok obtain p where p: "account (procs s ! i) = Some p" "proc_ok p" "pgdir p = pgdir (procs s ! i)"
    by (simp add: account_Some proc_ok_def)
  have "\<forall>q \<in> set ((procs s)[i := p]). proc_ok q"
    using assms(1) p(2) set_update_subset_insert [of "procs s" i p]
    by (auto simp: ptable_inv_def table_ok_def)
  with age_before_total [of _ "priority p" i] p(2)
  obtain qs where "age_before (priority p) i ((procs s)[i := p]) = Some qs"
    by (auto simp: proc_ok_def)
  with p assms(3) show ?thesis by (auto simp: dispatch_def)
qed

lemma dispatch_inv:
  assumes "ptable_inv s" "i < NPROC" "pstate (procs s ! i) = RUNNABLE" "running_is None s"
    "dispatch i s = Some t"
  shows "ptable_inv t \<and> running_is (Some i) t"
proof -
  note l = inv_length [OF assms(1)]
  from dispatch_cases [OF assms(5)] assms(2) l obtain p where
    p: "account (procs s ! i) = Some p" and t: "procs t ! i = p\<lparr>pstate := RUNNING\<rparr>"
      "length (procs t) = length (procs s)" "nextpid t = nextpid s" "initproc t = initproc s"
    and lo: "\<And>j. j < i \<Longrightarrow> age_one (priority p) (procs s ! j) = Some (procs t ! j)"
    and hi: "\<And>j. i < j \<Longrightarrow> j < length (procs s) \<Longrightarrow> procs t ! j = procs s ! j"
    by metis
  have m: "mild (procs s ! j) (procs t ! j)" "j \<noteq> i \<Longrightarrow> pstate (procs t ! j) = pstate (procs s ! j)"
    if "j < NPROC" for j
    using that lo [of j] hi [of j] p t(1) l assms(3) inv_nth_ok [OF assms(1) that]
    by (cases j i rule: linorder_cases;
        fastforce simp: mild_refl dest: age_one_mild account_Some [THEN iffD1] simp: mild_def proc_ok_def)+
  have "ptable_inv t"
    by (rule ptable_inv_mild [OF assms(1)]) (use m l t in \<open>auto simp: list_all2_conv_all_nth\<close>)
  moreover have "running_is (Some i) t"
    using assms(4) m(2) t l by (fastforce simp: running_is_def)
  ultimately show ?thesis by simp
qed

lemma sched_return_total:
  assumes "ptable_inv s" "i < NPROC"
  shows "(\<exists>r. sched_return i s = Some r) \<longleftrightarrow>
    \<not> (priority (procs s ! i) = 0 \<and> slice_remain (procs s ! i) = 0)"
  using inv_nth_ok [OF assms]
  by (auto simp: sched_return_def Let_def proc_ok_def bind_splits c_index_def)

lemma sched_return_inv:
  assumes "ptable_inv s" "running_is None s" "i < NPROC" "sched_return i s = Some (t, j)"
  shows "ptable_inv t \<and> running_is None t"
  using assms inv_nth_ok [OF assms(1,3)]
  by (auto simp: sched_return_def Let_def bind_splits mild_def same_run_def proc_ok_def alive_def
      split: if_splits dest!: c_index_SomeD intro!: ptable_inv_upd running_is_upd)

section \<open>The machine keeps the invariant\<close>

lemma proc_step_inv:
  assumes "proc_step K me s t" "ptable_inv s" "running_is (Some me) s" "me < NPROC"
  shows "ptable_inv t \<and> running_is (Some me) t"
  using assms
proof (induction rule: proc_step.induct)
  case (step_fork s m r s' m')
  then show ?case
    by (auto intro: fork_inv fork_running simp: inv_length running_nth)
next
  case (step_wait s m r s' m')
  then show ?case using wait_pass_inv wait_pass_running by fastforce
qed (auto intro: growproc_inv growproc_running kill_inv kill_running boost_inv boost_running
  sleep_resumed_inv sleep_resumed_running simp: wakeup_def intro!: wakeup1_inv wakeup1_running)

lemma gives_up_inv:
  assumes "gives_up K me s t" "ptable_inv s" "running_is (Some me) s" "me < NPROC"
  shows "ptable_inv t \<and> running_is None t"
  using assms
proof (induction rule: gives_up.induct)
  case (up_wait s m s' m')
  then show ?case using wait_pass_inv wait_pass_running by fastforce
next
  case (up_yield s)
  then show ?case by (auto intro: yield_inv) (auto simp: yield_def intro: running_given_up)
next
  case (up_sleep s c)
  then show ?case by (auto intro: sleep_on_inv) (auto simp: sleep_on_def intro: running_given_up)
next
  case (up_exit s m s' m')
  then show ?case by (auto dest: exit_inv)
qed

lemma eligible_RUNNABLE: "eligible i s \<Longrightarrow> pstate (procs s ! i) = RUNNABLE"
  by (simp add: eligible_def)

lemma sched_step_inv: "sched_step K c c' \<Longrightarrow> sched_inv c \<Longrightarrow> sched_inv c'"
proof (induction rule: sched_step.induct)
  case (switch_to c i t)
  then show ?case
    using dispatch_inv [of "ctab c" i t] by (simp add: sched_inv_def eligible_RUNNABLE)
next
  case (switch_back c i t t' j)
  then have "ptable_inv t" "running_is None t" "i < NPROC"
    using gives_up_inv [of K i "ctab c" t] by (auto simp: sched_inv_def)
  with switch_back(3) show ?case
    using sched_return_inv [of t i t' j] by (simp add: sched_inv_def)
next
  case (run c i t)
  then show ?case using proc_step_inv [of K i "ctab c" t] by (simp add: sched_inv_def)
qed (auto simp: sched_inv_def wakeup_def intro: wakeup1_inv wakeup1_running)

lemma boot_inv_base:
  "table_ok boot_ptable" "pids_ok boot_ptable" "running_is None boot_ptable"
  "procs boot_ptable ! 0 = zero_proc" "length (procs boot_ptable) = NPROC"
  "first_index (\<lambda>p. pstate p = UNUSED) (procs boot_ptable) = Some 0"
  by (auto simp: boot_ptable_def table_ok_def pids_ok_def running_is_def zero_proc_def NPROC_def
      proc_ok_def first_index_Some_iff)

lemma userinit_cases:
  assumes "userinit K boot_ptable m = Some (t, m')"
  obtains f where "t = (upd_proc 0 f boot_ptable)\<lparr>nextpid := 2, initproc := Some 0\<rparr>"
    "pstate (f zero_proc) = RUNNABLE" "pid (f zero_proc) = 1" "parent (f zero_proc) = None"
    "proc_ok (f zero_proc)"
proof -
  from assms obtain np s1 m1 where a: "allocproc K boot_ptable m = Some (np, s1, m1)"
    by (auto simp: userinit_def bind_splits)
  from a show thesis
  proof (cases rule: allocproc_cases)
    case (ok i ks)
    have i: "i = 0"
      using a ok(1) boot_inv_base(6)
      by (auto simp: allocproc_def Let_def bind_splits split: option.splits if_splits)
    have np: "nextpid boot_ptable = 1" by (simp add: boot_ptable_def)
    from assms a ok i obtain d nm root where
      "t = upd_proc 0 (\<lambda>p. p\<lparr>pgdir := d, sz := 4096, tf := user_tf, pname := nm,
               cwd := root, pstate := RUNNABLE\<rparr>) (s1\<lparr>initproc := Some 0\<rparr>)"
      by (auto simp: userinit_def bind_splits Let_def split: if_splits)
    with ok i np that [of "\<lambda>p. (alloc_slot 1 p)\<lparr>kstack := ks, kctx := fresh_context K,
        pgdir := d, sz := 4096, tf := user_tf, pname := nm, cwd := root, pstate := RUNNABLE\<rparr>"]
    show ?thesis
      by (simp add: upd_proc_def upd_at_def proc_ok_def zero_proc_def)
  qed (use assms a in \<open>auto simp: userinit_def\<close>)
qed

lemma boot_inv:
  assumes "userinit K boot_ptable m = Some (t, m')"
  shows "sched_inv \<lparr>ctab = t, cpos = Scan 0\<rparr>"
  using assms
proof (cases rule: userinit_cases)
  case (1 f)
  have b: "procs boot_ptable ! i = zero_proc" if "i < NPROC" for i
    using that by (simp add: boot_ptable_def)
  have N: "NPROC > 0" by (simp add: NPROC_def)
  have tj: "procs t ! j = (if j = 0 then f zero_proc else zero_proc)" if "j < NPROC" for j
    using that b N by (auto simp: 1(1) upd_proc_def nth_upd_at boot_inv_base)
  have lt: "length (procs t) = NPROC" "nextpid t = 2" "initproc t = Some 0"
    by (simp_all add: 1(1) boot_inv_base)
  have z: "pstate zero_proc = UNUSED" "parent zero_proc = None" "proc_ok zero_proc"
    by (simp_all add: zero_proc_def proc_ok_def)
  have "table_ok t" "pids_ok t" "family_ok t" "running_is None t"
    using tj lt 1(2-5) z N
    by (auto simp: table_ok_def pids_ok_def family_ok_def running_is_def all_set_conv_all_nth split: if_splits)
  then show ?thesis by (simp add: sched_inv_def ptable_inv_def)
qed

lemma reachable_inv: "reachable K c \<Longrightarrow> sched_inv c"
  by (induction rule: reachable.induct) (auto intro: boot_inv sched_step_inv)

section \<open>Scanning and ticking\<close>

lemma sched_scan_Some:
  "sched_scan k s = Some (Some (t, i)) \<Longrightarrow>
   k \<le> i \<and> i < NPROC \<and> eligible i s \<and> (\<forall>j. k \<le> j \<and> j < i \<longrightarrow> \<not> eligible j s) \<and> dispatch i s = Some t"
proof (induction k s rule: sched_scan.induct)
  case (1 k s)
  show ?case
  proof (cases "NPROC \<le> k")
    case True
    with "1.prems" show ?thesis by (simp add: sched_scan.simps [of k s])
  next
    case False
    show ?thesis
    proof (cases "eligible k s")
      case True
      with False "1.prems" show ?thesis by (auto simp: sched_scan.simps [of k s])
    next
      case no: False
      with False "1.prems" have "sched_scan (Suc k) s = Some (Some (t, i))"
        by (simp add: sched_scan.simps [of k s])
      from "1.IH" [OF False no this]
      have ih: "Suc k \<le> i" "i < NPROC" "eligible i s" "dispatch i s = Some t"
        "\<forall>j. Suc k \<le> j \<and> j < i \<longrightarrow> \<not> eligible j s" by auto
      have "\<not> eligible j s" if "k \<le> j \<and> j < i" for j
        using ih(5) no that by (cases "j = k") auto
      with ih show ?thesis by simp
    qed
  qed
qed

lemma sched_scan_first:
  assumes "k \<le> i" "i < NPROC" "eligible i s" "\<forall>j. k \<le> j \<and> j < i \<longrightarrow> \<not> eligible j s"
  shows "sched_scan k s = map_option (\<lambda>t. Some (t, i)) (dispatch i s)"
  using assms
proof (induction k s rule: sched_scan.induct)
  case (1 k s)
  show ?case
  proof (cases "k = i")
    case True
    with "1.prems" show ?thesis by (simp add: sched_scan.simps [of i s])
  next
    case False
    with 1 show ?thesis by (simp add: sched_scan.simps [of k s])
  qed
qed

lemma sched_scan_none:
  "\<forall>j. k \<le> j \<and> j < NPROC \<longrightarrow> \<not> eligible j s \<Longrightarrow> sched_scan k s = Some None"
  by (induction k s rule: sched_scan.induct) (subst sched_scan.simps, simp)

lemma getheight_ge:
  "j < length (procs s) \<Longrightarrow> pstate (procs s ! j) = RUNNABLE \<Longrightarrow> priority (procs s ! j) \<le> getheight s"
  by (simp add: getheight_def height_loop_ge)

lemma getheight_attained:
  assumes "ptable_inv s" "j < NPROC" "pstate (procs s ! j) = RUNNABLE"
  shows "\<exists>i < NPROC. eligible i s"
proof -
  note l = inv_length [OF assms(1)]
  have "\<exists>p \<in> set (procs s). pstate p = RUNNABLE \<and> priority p = getheight s"
  proof (cases "getheight s = 0")
    case True
    with assms l getheight_ge [of j s] proc_okD(1) [OF inv_nth_ok [OF assms(1,2)]]
    have "priority (procs s ! j) = getheight s" by simp
    with assms l show ?thesis by (metis nth_mem)
  next
    case False
    then show ?thesis using height_loop_attained [of 0 "procs s"] by (simp add: getheight_def)
  qed
  then show ?thesis using l by (auto simp: eligible_def in_set_conv_nth)
qed

text \<open>One tick, seen from the process that runs.\<close>

lemma run_tick_entry:
  assumes inv: "ptable_inv s" "running_is None s" and i: "i < NPROC"
    and p: "pstate (procs s ! i) = RUNNABLE" "pgdir (procs s ! i) \<noteq> 0"
    and ok: "slice_remain (procs s ! i) = 1 \<longrightarrow> priority (procs s ! i) > 0"
  obtains t j where "run_tick i s = Some (t, j)" "ptable_inv t" "running_is None t"
    "pstate (procs t ! i) = RUNNABLE" "pgdir (procs t ! i) \<noteq> 0"
    "ticks (procs t ! i) = (ticks (procs s ! i))[nat (priority (procs s ! i)) :=
       ticks (procs s ! i) ! nat (priority (procs s ! i)) + 1]"
    "slice_remain (procs s ! i) \<noteq> 1 \<Longrightarrow> priority (procs t ! i) = priority (procs s ! i) \<and>
       slice_remain (procs t ! i) = slice_remain (procs s ! i) - 1 \<and>
       (if tick_remain (procs s ! i) = 1
        then j = Suc i \<and> tick_remain (procs t ! i) = time_slice ! nat (priority (procs s ! i))
        else j = i \<and> tick_remain (procs t ! i) = tick_remain (procs s ! i) - 1)"
    "slice_remain (procs s ! i) = 1 \<Longrightarrow> priority (procs t ! i) = priority (procs s ! i) - 1 \<and>
       slice_remain (procs t ! i) = slices ! nat (priority (procs s ! i) - 1) \<and>
       tick_remain (procs t ! i) = time_slice ! nat (priority (procs s ! i) - 1) \<and> j = Suc i"
proof -
  note l = inv_length [OF inv(1)]
  note ok0 = proc_okD [OF inv_nth_ok [OF inv(1) i]]
  obtain u where u: "dispatch i s = Some u" using dispatch_total [OF inv(1) i p(2)] by auto
  from dispatch_cases [OF u] i l obtain q where q: "account (procs s ! i) = Some q"
    and uq: "procs u ! i = q\<lparr>pstate := RUNNING\<rparr>" "length (procs u) = length (procs s)"
    by metis
  have uinv: "ptable_inv u" "running_is (Some i) u"
    using dispatch_inv [OF inv(1) i p(1) inv(2) u] by auto
  have y: "ptable_inv (yield i u)" "running_is None (yield i u)"
    using yield_inv [OF uinv(1) i uinv(2)] uinv(2) by (auto simp: yield_def intro: running_given_up)
  have yi: "procs (yield i u) ! i = q\<lparr>pstate := RUNNABLE\<rparr>"
    using uq i l by (simp add: yield_def)
  have "\<not> (priority (procs (yield i u) ! i) = 0 \<and> slice_remain (procs (yield i u) ! i) = 0)"
    using yi q ok by (auto simp: account_Some)
  then obtain t j where r: "sched_return i (yield i u) = Some (t, j)"
    using sched_return_total [OF y(1) i] by auto
  then have t: "ptable_inv t" "running_is None t"
    using sched_return_inv [OF y i r] by auto
  have tick: "run_tick i s = Some (t, j)" using u r by (simp add: run_tick_def)
  have ly: "i < length (procs (yield i u))" using uq(2) l i by (simp add: yield_def)
  show thesis
    by (rule that [OF tick t])
      (use r yi q ly p ok0 in \<open>auto simp: sched_return_def Let_def bind_splits account_Some
        split: if_splits dest!: c_index_SomeD\<close>)
qed

lemma run_ticks_add: "run_ticks (a + b) i s = Option.bind (run_ticks a i s) (run_ticks b i)"
proof (induction a arbitrary: s)
  case (Suc a)
  then show ?case by (cases "run_tick i s") auto
qed simp

lemma run_ticks_level:
  assumes "ptable_inv s" "running_is None s" "i < NPROC" "pstate (procs s ! i) = RUNNABLE"
    "pgdir (procs s ! i) \<noteq> 0" "int n < slice_remain (procs s ! i)"
  shows "\<exists>t. run_ticks n i s = Some t \<and> ptable_inv t \<and> running_is None t \<and>
     pstate (procs t ! i) = RUNNABLE \<and> pgdir (procs t ! i) \<noteq> 0 \<and>
     priority (procs t ! i) = priority (procs s ! i) \<and>
     slice_remain (procs t ! i) = slice_remain (procs s ! i) - int n \<and>
     ticks (procs t ! i) = (ticks (procs s ! i))[nat (priority (procs s ! i)) :=
       ticks (procs s ! i) ! nat (priority (procs s ! i)) + int n]"
  using assms
proof (induction n arbitrary: s)
  case 0
  then show ?case by simp
next
  case (Suc n)
  have len: "nat (priority (procs s ! i)) < length (ticks (procs s ! i))"
    using proc_okD [OF inv_nth_ok [OF Suc.prems(1,3)]] by simp
  have n1: "slice_remain (procs s ! i) \<noteq> 1" using Suc.prems(6) by simp
  then have "slice_remain (procs s ! i) = 1 \<longrightarrow> priority (procs s ! i) > 0" by simp
  from run_tick_entry [OF Suc.prems(1-5) this]
  obtain u j where u: "run_tick i s = Some (u, j)" "ptable_inv u" "running_is None u"
    "pstate (procs u ! i) = RUNNABLE" "pgdir (procs u ! i) \<noteq> 0"
    and tk: "ticks (procs u ! i) = (ticks (procs s ! i))[nat (priority (procs s ! i)) :=
       ticks (procs s ! i) ! nat (priority (procs s ! i)) + 1]"
    and pr: "priority (procs u ! i) = priority (procs s ! i)"
      "slice_remain (procs u ! i) = slice_remain (procs s ! i) - 1"
    using n1 by metis
  have "int n < slice_remain (procs u ! i)" using pr(2) Suc.prems(6) by simp
  from Suc.IH [OF u(2,3) Suc.prems(3) u(4,5) this]
  obtain t where t: "run_ticks n i u = Some t" "ptable_inv t" "running_is None t"
    "pstate (procs t ! i) = RUNNABLE" "pgdir (procs t ! i) \<noteq> 0"
    "priority (procs t ! i) = priority (procs s ! i)"
    "slice_remain (procs t ! i) = slice_remain (procs s ! i) - 1 - int n"
    "ticks (procs t ! i) = (ticks (procs u ! i))[nat (priority (procs s ! i)) :=
       ticks (procs u ! i) ! nat (priority (procs s ! i)) + int n]"
    unfolding pr by blast
  have "run_ticks (Suc n) i s = Some t" by (simp add: u(1) t(1))
  moreover have "ticks (procs t ! i) = (ticks (procs s ! i))[nat (priority (procs s ! i)) :=
       ticks (procs s ! i) ! nat (priority (procs s ! i)) + int (Suc n)]"
    by (simp add: t(8) tk len add.assoc)
  ultimately show ?case using t(2-7) by simp
qed

end
