(* ===== verification/SchedProps.thy ===== *)
theory SchedProps imports Sched
begin

text \<open>
  What the scheduler project promises: the highest level runs first, no runnable process is
  passed over, levels are left after exactly their slice, and the process table stays
  well formed over every run of the machine of theory \<open>Sched\<close>.
\<close>

section \<open>A concrete machine\<close>

text \<open>Kernel services over a counter of free pages, used to run the model on closed inputs.\<close>

definition demo_kops :: "nat kops" where
  "demo_kops = \<lparr>
     k_kalloc = (\<lambda>m. case m of 0 \<Rightarrow> Some (0, 0) | Suc n \<Rightarrow> Some (4096 * word_of_nat m, n)),
     k_kfree = (\<lambda>_ m. Some (Suc m)),
     k_setupkvm = (\<lambda>m. case m of 0 \<Rightarrow> Some (0, 0) | Suc n \<Rightarrow> Some (4096 * word_of_nat m, n)),
     k_initcode = (\<lambda>_ m. Some m),
     k_copyuvm = (\<lambda>_ _ m. case m of 0 \<Rightarrow> Some (0, 0) | Suc n \<Rightarrow> Some (4096 * word_of_nat m, n)),
     k_freevm = (\<lambda>_ m. Some (Suc m)),
     k_allocuvm = (\<lambda>_ _ new m. Some (new, m)),
     k_deallocuvm = (\<lambda>_ _ new m. Some (new, m)),
     k_filedup = (\<lambda>_ m. Some m), k_fileclose = (\<lambda>_ m. Some m),
     k_idup = (\<lambda>_ m. Some m), k_iput = (\<lambda>_ m. Some m),
     k_root_inode = (\<lambda>m. Some (Some 0, m)), k_forkret = 1, k_trapret = 2\<rparr>"

definition demo_table :: ptable where
  "demo_table = fst (the (userinit demo_kops boot_ptable 8))"

lemma demo_userinit: "\<exists>m. userinit demo_kops boot_ptable 8 = Some (demo_table, m)"
proof -
  have "userinit demo_kops boot_ptable 8 \<noteq> None" by code_simp
  then show ?thesis by (auto simp: demo_table_def)
qed

lemma demo_first: "pstate (procs demo_table ! 0) = RUNNABLE" "pgdir (procs demo_table ! 0) = 28672"
  "pid (procs demo_table ! 0) = 1" "priority (procs demo_table ! 0) = 3"
  "slice_remain (procs demo_table ! 0) = 8" "tick_remain (procs demo_table ! 0) = 1"
  "ticks (procs demo_table ! 0) = [0, 0, 0, 0]"
  by code_simp+

lemma demo_others: "list_all (\<lambda>p. pstate p = UNUSED) (tl (procs demo_table))"
  by code_simp

lemma demo_unused: "0 < j \<Longrightarrow> j < NPROC \<Longrightarrow> pstate (procs demo_table ! j) = UNUSED"
proof -
  assume j: "0 < j" "j < NPROC"
  have "length (procs demo_table) = NPROC" by code_simp
  with j have "tl (procs demo_table) ! (j - 1) = procs demo_table ! j" "j - 1 < length (tl (procs demo_table))"
    by (simp_all add: nth_tl)
  with demo_others show ?thesis by (auto simp: list_all_length)
qed

lemma demo_inv: "ptable_inv demo_table" "running_is None demo_table"
  using demo_userinit boot_inv by (fastforce simp: sched_inv_def)+


text \<open>The first process running, after it forked, and its child running.\<close>

definition demo_running :: ptable where
  "demo_running = the (dispatch 0 demo_table)"

definition demo_forked :: ptable where
  "demo_forked = fst (snd (the (fork demo_kops 0 demo_running 5)))"

definition demo_child :: ptable where
  "demo_child = the (dispatch 1 (sleep_on (Some (ChanProc 0)) 0 demo_forked))"

lemma demo_running_inv: "ptable_inv demo_running" "running_is (Some 0) demo_running"
  "pstate (procs demo_running ! 0) = RUNNING"
proof -
  have "dispatch 0 demo_table = Some demo_running"
    using dispatch_total [OF demo_inv(1), of 0] by (auto simp: demo_running_def demo_first NPROC_def)
  with dispatch_inv [OF demo_inv(1) _ demo_first(1) demo_inv(2)]
  show *: "ptable_inv demo_running" "running_is (Some 0) demo_running" by (auto simp: NPROC_def)
  then show "pstate (procs demo_running ! 0) = RUNNING"
    using running_nth [OF *(2)] inv_length [OF *(1)] by (simp add: NPROC_def)
qed

lemma demo_nextpid: "nextpid demo_running = 2"
  by code_simp

lemma demo_fork: "fork demo_kops 0 demo_running 5 = Some (2, demo_forked, 3)"
proof -
  have "(case fork demo_kops 0 demo_running 5 of None \<Rightarrow> False | Some (r, t, m) \<Rightarrow> r = 2 \<and> m = 3)"
    by code_simp
  then show ?thesis by (auto simp: demo_forked_def split: option.splits)
qed

lemma demo_child_inv: "ptable_inv demo_child" "running_is (Some 1) demo_child"
proof -
  have N: "(0::nat) < NPROC" "(1::nat) < NPROC" by (simp_all add: NPROC_def)
  have "alive (procs demo_running ! 0)" using demo_running_inv(3) by simp
  note fi = fork_inv [OF demo_running_inv(1) N(1) this demo_fork]
    and fr = fork_running [OF demo_running_inv(2) demo_fork]
  let ?s = "sleep_on (Some (ChanProc 0)) 0 demo_forked"
  have si: "ptable_inv ?s" by (rule sleep_on_inv [OF fi N(1) fr])
  have sr: "running_is None ?s"
    using running_given_up [OF fr] by (simp add: sleep_on_def)
  have e: "pstate (procs ?s ! 1) = RUNNABLE" "pgdir (procs ?s ! 1) \<noteq> 0" by code_simp+
  from dispatch_total [OF si N(2) e(2)] have "dispatch 1 ?s = Some demo_child"
    by (auto simp: demo_child_def)
  from dispatch_inv [OF si N(2) e(1) sr this]
  show "ptable_inv demo_child" "running_is (Some 1) demo_child" by auto
qed

section \<open>Properties\<close>

text \<open>C2.  One pass of the scheduler's inner loop: when some process is runnable, the pass ends in
  a switch to a runnable process of the highest level, the first such entry of the table, which
  is then running; when none is runnable the pass ends without a switch and without a crash.\<close>

theorem scheduler_scan_correct:
  assumes inv: "ptable_inv s"
    and vm: "\<forall>j < NPROC. pstate (procs s ! j) = RUNNABLE \<longrightarrow> pgdir (procs s ! j) \<noteq> 0"
  shows "if \<exists>j < NPROC. pstate (procs s ! j) = RUNNABLE
    then \<exists>i t. sched_scan 0 s = Some (Some (t, i)) \<and> i < NPROC \<and> pstate (procs s ! i) = RUNNABLE \<and>
      (\<forall>j < NPROC. pstate (procs s ! j) = RUNNABLE \<longrightarrow> priority (procs s ! j) \<le> priority (procs s ! i)) \<and>
      (\<forall>j < i. pstate (procs s ! j) = RUNNABLE \<longrightarrow> priority (procs s ! j) < priority (procs s ! i)) \<and>
      pstate (procs t ! i) = RUNNING
    else sched_scan 0 s = Some None"
proof (cases "\<exists>j < NPROC. pstate (procs s ! j) = RUNNABLE")
  case True
  note l = inv_length [OF inv]
  from True getheight_attained [OF inv] have "\<exists>i. i < NPROC \<and> eligible i s" by auto
  then obtain i where i: "i < NPROC \<and> eligible i s" and least: "\<forall>j < i. \<not> (j < NPROC \<and> eligible j s)"
    using exists_least_iff [of "\<lambda>i. i < NPROC \<and> eligible i s"] by blast
  then have r: "pstate (procs s ! i) = RUNNABLE" "priority (procs s ! i) = getheight s"
    by (auto simp: eligible_def)
  obtain t where t: "dispatch i s = Some t"
    using dispatch_total [OF inv] i vm r(1) by blast
  have scan: "sched_scan 0 s = Some (Some (t, i))"
    using sched_scan_first [of 0 i s] i least t by auto
  have run: "pstate (procs t ! i) = RUNNING"
  proof -
    from i l have "i < length (procs s)" by simp
    from dispatch_cases [OF t this] obtain p where "procs t ! i = p\<lparr>pstate := RUNNING\<rparr>" by metis
    then show ?thesis by simp
  qed
  have ge: "priority (procs s ! j) \<le> priority (procs s ! i)"
    if "j < NPROC" "pstate (procs s ! j) = RUNNABLE" for j
    using getheight_ge [of j s] that l r(2) by simp
  have "priority (procs s ! j) < priority (procs s ! i)" if "j < i" "pstate (procs s ! j) = RUNNABLE" for j
    using ge [of j] that i least r(2) by (fastforce simp: eligible_def)
  with scan i r ge run True show ?thesis by auto
next
  case False
  then have "\<not> eligible j s" if "j < NPROC" for j
    using that by (auto simp: eligible_def)
  with False show ?thesis by (auto intro: sched_scan_none)
qed

theorem scheduler_scan_correct_witness:
  "\<exists>i t. sched_scan 0 demo_table = Some (Some (t, i)) \<and> pstate (procs t ! i) = RUNNING"
proof -
  have vm: "\<forall>j < NPROC. pstate (procs demo_table ! j) = RUNNABLE \<longrightarrow> pgdir (procs demo_table ! j) \<noteq> 0"
  proof (intro allI impI)
    fix j assume "j < NPROC" "pstate (procs demo_table ! j) = RUNNABLE"
    with demo_unused [of j] demo_first(2) show "pgdir (procs demo_table ! j) \<noteq> 0"
      by (cases "j = 0") auto
  qed
  have "0 < NPROC" by (simp add: NPROC_def)
  with demo_first(1) have "\<exists>j < NPROC. pstate (procs demo_table ! j) = RUNNABLE" by blast
  with scheduler_scan_correct [OF demo_inv(1) vm] show ?thesis by auto
qed



text \<open>C4.  A process above the lowest level that keeps running and yielding stays on its level
  for exactly \<open>slices\<close> ticks, which are all counted for that level, and is then moved one level
  down with a fresh quantum and a fresh slice.\<close>

theorem demoted_after_slice:
  assumes inv: "ptable_inv s" "running_is None s" and i: "i < NPROC"
    and p: "pstate (procs s ! i) = RUNNABLE" "pgdir (procs s ! i) \<noteq> 0"
    and lev: "priority (procs s ! i) = L" "1 \<le> L" "slice_remain (procs s ! i) = slices ! nat L"
  shows "(\<forall>n. int n < slices ! nat L \<longrightarrow>
      (\<exists>t. run_ticks n i s = Some t \<and> priority (procs t ! i) = L)) \<and>
    (\<exists>t. run_ticks (nat (slices ! nat L)) i s = Some t \<and> priority (procs t ! i) = L - 1 \<and>
      slice_remain (procs t ! i) = slices ! nat (L - 1) \<and>
      tick_remain (procs t ! i) = time_slice ! nat (L - 1) \<and>
      ticks (procs t ! i) ! nat L = ticks (procs s ! i) ! nat L + slices ! nat L)"
proof
  note ok = proc_okD [OF inv_nth_ok [OF inv(1) i]]
  have L: "L = 1 \<or> L = 2 \<or> L = 3" using lev ok by auto
  define n where "n = nat (slices ! nat L) - 1"
  have n: "int n = slices ! nat L - 1" "nat (slices ! nat L) = n + 1"
    using L by (auto simp: n_def slices_def)
  show "\<forall>n. int n < slices ! nat L \<longrightarrow> (\<exists>t. run_ticks n i s = Some t \<and> priority (procs t ! i) = L)"
    using run_ticks_level [OF inv i p] lev by metis
  have "int n < slice_remain (procs s ! i)" using n lev by simp
  from run_ticks_level [OF inv i p this]
  obtain u where u: "run_ticks n i s = Some u" "ptable_inv u" "running_is None u"
    "pstate (procs u ! i) = RUNNABLE" "pgdir (procs u ! i) \<noteq> 0"
    "priority (procs u ! i) = L" "slice_remain (procs u ! i) = 1"
    "ticks (procs u ! i) = (ticks (procs s ! i))[nat L := ticks (procs s ! i) ! nat L + int n]"
    using n lev by auto
  have "slice_remain (procs u ! i) = 1 \<longrightarrow> priority (procs u ! i) > 0" using u lev by simp
  from run_tick_entry [OF u(2,3) i u(4,5) this]
  obtain t j where t: "run_tick i u = Some (t, j)" "priority (procs t ! i) = L - 1"
    "slice_remain (procs t ! i) = slices ! nat (L - 1)" "tick_remain (procs t ! i) = time_slice ! nat (L - 1)"
    "ticks (procs t ! i) = (ticks (procs u ! i))[nat L := ticks (procs u ! i) ! nat L + 1]"
    using u(6,7) by metis
  have "run_ticks (n + 1) i s = Some t"
    by (simp only: run_ticks_add) (simp add: u(1) t(1))
  moreover have "ticks (procs t ! i) ! nat L = ticks (procs s ! i) ! nat L + slices ! nat L"
    using L ok n by (auto simp: t(5) u(8))
  ultimately show "\<exists>t. run_ticks (nat (slices ! nat L)) i s = Some t \<and> priority (procs t ! i) = L - 1 \<and>
      slice_remain (procs t ! i) = slices ! nat (L - 1) \<and>
      tick_remain (procs t ! i) = time_slice ! nat (L - 1) \<and>
      ticks (procs t ! i) ! nat L = ticks (procs s ! i) ! nat L + slices ! nat L"
    using n t by auto
qed

theorem demoted_after_slice_witness:
  "\<exists>t. run_ticks 8 0 demo_table = Some t \<and> priority (procs t ! 0) = 2 \<and> ticks (procs t ! 0) ! 3 = 8"
proof -
  have "0 < NPROC" "pgdir (procs demo_table ! 0) \<noteq> 0" "(1::int) \<le> 3"
    "slice_remain (procs demo_table ! 0) = slices ! nat 3"
    by (simp_all add: NPROC_def demo_first slices_def)
  from demoted_after_slice [OF demo_inv this(1) demo_first(1) this(2) demo_first(4) this(3,4)]
  show ?thesis by (auto simp: slices_def demo_first)
qed

text \<open>C5.  \<open>fork\<close> either fails with \<open>-1\<close> and leaves every process in use as it was, or returns the
  next pid, which belongs to one slot that was free: a runnable child of the caller on the top
  level, with the caller's size and trap frame except that its own \<open>fork\<close> returns 0; no
  other entry changes.\<close>

theorem fork_spec:
  assumes inv: "ptable_inv s" and me: "me < NPROC" "pstate (procs s ! me) = RUNNING"
    and fk: "fork K me s m = Some (r, t, m')"
  shows "(r = -1 \<and> (\<forall>j < NPROC. if pstate (procs s ! j) = UNUSED then pstate (procs t ! j) = UNUSED
              else procs t ! j = procs s ! j)) \<or>
    (r = nextpid s \<and> (\<exists>i < NPROC. pstate (procs s ! i) = UNUSED \<and>
       pstate (procs t ! i) = RUNNABLE \<and> pid (procs t ! i) = r \<and> parent (procs t ! i) = Some me \<and>
       priority (procs t ! i) = 3 \<and> sz (procs t ! i) = sz (procs s ! me) \<and>
       tf (procs t ! i) = (tf (procs s ! me))\<lparr>tf_eax := 0\<rparr> \<and>
       (\<forall>j. j \<noteq> i \<longrightarrow> procs t ! j = procs s ! j)))"
  using fk
proof (cases rule: fork_cases)
  case full
  then show ?thesis by simp
next
  case (failed i f)
  then show ?thesis using inv_length [OF inv] by (auto simp: nth_upd_at)
next
  case (child i f)
  then have "i \<noteq> me" using me(2) by auto
  with child inv_length [OF inv] show ?thesis by auto
qed

theorem fork_spec_witness:
  "\<exists>t m' i. fork demo_kops 0 demo_running 5 = Some (2, t, m') \<and> i < NPROC \<and> pid (procs t ! i) = 2 \<and>
     parent (procs t ! i) = Some 0"
proof -
  have "fork demo_kops 0 demo_running 5 = Some (2, demo_forked, 3)" by (rule demo_fork)
  moreover have "nextpid demo_running = 2" by (rule demo_nextpid)
  ultimately show ?thesis
    using fork_spec [OF demo_running_inv(1) _ demo_running_inv(3), of demo_kops 5 2 demo_forked 3]
    by (auto simp: NPROC_def)
qed

text \<open>C6.  After \<open>exit\<close> the caller is a zombie, a parent that slept in \<open>wait\<close> is runnable
  again, every child of the caller belongs to the initial process, and a pass of the parent's
  \<open>wait\<close> that comes back has reaped a zombie child of the parent: it neither reports that there
  is no child nor sleeps again.\<close>

theorem exit_seen_by_parent:
  assumes inv: "ptable_inv s" "running_is (Some me) s" "me < NPROC"
    and par: "parent (procs s ! me) = Some j" "j \<noteq> me"
    and ex: "exit_proc K me s m = Some (t, m')"
  shows "pstate (procs t ! me) = ZOMBIE \<and> parent (procs t ! me) = Some j \<and>
    (pstate (procs s ! j) = SLEEPING \<and> chan (procs s ! j) = Some (ChanProc j) \<longrightarrow>
       pstate (procs t ! j) = RUNNABLE) \<and>
    (\<forall>i < NPROC. parent (procs s ! i) = Some me \<longrightarrow> parent (procs t ! i) = initproc s) \<and>
    (\<forall>r u n n'. wait_pass K j t n = Some (r, u, n') \<longrightarrow>
       (\<exists>k < NPROC. parent (procs t ! k) = Some j \<and> pstate (procs t ! k) = ZOMBIE \<and>
          r = WaitPid (pid (procs t ! k)) \<and> u = upd_proc k reap t))"
  using ex
proof (cases rule: exit_proc_cases)
  case (1 u)
  define v where "v = wakeup1 (map_option ChanProc (parent (procs u ! me))) u"
  note l = inv_length [OF inv(1)]
  have j: "j < NPROC" using inv(1) par(1) inv(3) l by (auto simp: ptable_inv_def family_ok_def)
  have u: "length (procs u) = NPROC" "initproc u = initproc s" "parent (procs u ! me) = Some j"
    "\<And>i. i < NPROC \<Longrightarrow> parent (procs u ! i) = parent (procs s ! i) \<and>
       pstate (procs u ! i) = pstate (procs s ! i) \<and> chan (procs u ! i) = chan (procs s ! i)"
    using par(1) l inv(3) by (auto simp: 1(2) nth_upd_at)
  have v: "length (procs v) = NPROC" "initproc v = initproc s"
    "\<And>i. i < NPROC \<Longrightarrow> procs v ! i = wakeup_one (Some (ChanProc j)) (procs u ! i)"
    using u by (auto simp: v_def wakeup1_def)
  have pv: "parent (procs v ! i) = parent (procs s ! i)" if "i < NPROC" for i
    using that u v(3) by (simp add: wakeup_one_def)
  have ad: "adopted (initproc s) me True (procs v ! i) (procs (reparent me v) ! i)" if "i < NPROC" for i
    using reparent_adopted [of i v me] that v by simp
  have t: "t = upd_proc me (\<lambda>p. p\<lparr>pstate := ZOMBIE\<rparr>) (reparent me v)"
    using 1(3) by (simp add: v_def)
  have lt: "length (procs t) = NPROC" using v by (simp add: t reparent_frame)
  have z: "pstate (procs t ! me) = ZOMBIE" "parent (procs t ! me) = Some j"
    using ad [OF inv(3)] pv [OF inv(3)] par inv(3) lt by (auto simp: t adopted_def)
  have woken: "pstate (procs t ! j) = RUNNABLE"
    if s: "pstate (procs s ! j) = SLEEPING" "chan (procs s ! j) = Some (ChanProc j)"
  proof -
    have "adopted (initproc s) me True (procs v ! j) (procs t ! j)"
      using ad [OF j] par(2) by (simp add: t)
    moreover have "pstate (procs v ! j) = RUNNABLE" using s j u v by (simp add: wakeup_one_def)
    moreover have "pstate (procs t ! j) \<noteq> SLEEPING"
      using reparent_awake [of j v me] calculation(2) j v par(2) by (simp add: t)
    ultimately show ?thesis by (auto simp: adopted_def alive_def)
  qed
  have kids: "parent (procs t ! i) = initproc s" if "i < NPROC" "parent (procs s ! i) = Some me" for i
    using ad [OF that(1)] pv [OF that(1)] that lt by (cases "i = me") (auto simp: t adopted_def)
  have w: "\<exists>k < NPROC. parent (procs t ! k) = Some j \<and> pstate (procs t ! k) = ZOMBIE \<and>
          r = WaitPid (pid (procs t ! k)) \<and> x = upd_proc k reap t"
    if "wait_pass K j t n = Some (r, x, n')" for r x n n'
  proof -
    have "procs t ! me \<in> set (procs t)" using lt inv(3) by simp
    with z have "\<exists>i b. wait_scan j (procs t) 0 False = (Some i, b)"
      using wait_scan_None [of j "procs t" 0 False] by (cases "wait_scan j (procs t) 0 False") fastforce
    then obtain i b where i: "wait_scan j (procs t) 0 False = (Some i, b)" by blast
    with wait_scan_Some [OF i] that lt show ?thesis
      by (auto simp: wait_pass_def bind_splits)
  qed
  show ?thesis using z woken kids w by blast
qed

theorem exit_seen_by_parent_witness:
  "\<exists>t m. exit_proc demo_kops 1 demo_child 3 = Some (t, m) \<and> pstate (procs t ! 1) = ZOMBIE \<and>
     pstate (procs demo_child ! 0) = SLEEPING \<and> pstate (procs t ! 0) = RUNNABLE"
proof -
  have "exit_proc demo_kops 1 demo_child 3 \<noteq> None" by code_simp
  then obtain t m where ex: "exit_proc demo_kops 1 demo_child 3 = Some (t, m)" by auto
  have c: "parent (procs demo_child ! 1) = Some 0" "pstate (procs demo_child ! 0) = SLEEPING"
    "chan (procs demo_child ! 0) = Some (ChanProc 0)" by code_simp+
  have N: "(1::nat) < NPROC" "(0::nat) \<noteq> 1" by (simp_all add: NPROC_def)
  from exit_seen_by_parent [OF demo_child_inv N(1) c(1) N(2) ex] ex c show ?thesis by auto
qed

text \<open>C7.  What a switch to entry \<open>i\<close> charges: the chosen process pays one tick, counted for its
  level, and its waiting time starts again; a runnable entry before \<open>i\<close> waits one tick more, and
  at ten quanta below the top level it is promoted by one level, with the quantum and the slice of
  the level of the chosen process; the entries after \<open>i\<close> do not age at all.\<close>

theorem dispatch_charges:
  assumes "dispatch i s = Some t" "i < length (procs s)"
  shows "(let p = procs s ! i; p' = procs t ! i in
      tick_remain p' = tick_remain p - 1 \<and> slice_remain p' = slice_remain p - 1 \<and> wait_ticks p' = 0 \<and>
      priority p' = priority p \<and>
      ticks p' = (ticks p)[nat (priority p) := ticks p ! nat (priority p) + 1]) \<and>
    (\<forall>j < i. let q = procs s ! j; q' = procs t ! j in
      if pstate q \<noteq> RUNNABLE then q' = q
      else if wait_ticks q + 1 = 10 * time_slice ! nat (priority q) \<and> priority q < 3
      then q' = q\<lparr>priority := priority q + 1, wait_ticks := 0,
                  slice_remain := slices ! nat (priority (procs s ! i)),
                  tick_remain := time_slice ! nat (priority (procs s ! i))\<rparr>
      else q' = q\<lparr>wait_ticks := wait_ticks q + 1\<rparr>) \<and>
    (\<forall>j. i < j \<and> j < length (procs s) \<longrightarrow> procs t ! j = procs s ! j)"
proof -
  from dispatch_cases [OF assms] obtain p where p: "account (procs s ! i) = Some p"
    and t: "procs t ! i = p\<lparr>pstate := RUNNING\<rparr>"
    and lo: "\<And>j. j < i \<Longrightarrow> age_one (priority p) (procs s ! j) = Some (procs t ! j)"
    and hi: "\<And>j. i < j \<Longrightarrow> j < length (procs s) \<Longrightarrow> procs t ! j = procs s ! j"
    by metis
  have prio: "priority p = priority (procs s ! i)" using p by (simp add: account_Some)
  have low: "let q = procs s ! j; q' = procs t ! j in
      if pstate q \<noteq> RUNNABLE then q' = q
      else if wait_ticks q + 1 = 10 * time_slice ! nat (priority q) \<and> priority q < 3
      then q' = q\<lparr>priority := priority q + 1, wait_ticks := 0,
                  slice_remain := slices ! nat (priority (procs s ! i)),
                  tick_remain := time_slice ! nat (priority (procs s ! i))\<rparr>
      else q' = q\<lparr>wait_ticks := wait_ticks q + 1\<rparr>" if "j < i" for j
    using lo [OF that] unfolding prio
    by (auto simp: age_one_def Let_def bind_splits split: if_splits dest!: c_index_SomeD)
  show ?thesis
    using p t low hi by (simp add: account_Some)
qed

theorem dispatch_charges_witness:
  "dispatch 0 demo_table = Some demo_running \<and> ticks (procs demo_running ! 0) = [0, 0, 0, 1] \<and>
   slice_remain (procs demo_running ! 0) = 7"
proof -
  have len: "0 < length (procs demo_table)" using demo_inv(1) by (simp add: inv_length NPROC_def)
  have "dispatch 0 demo_table = Some demo_running"
    using dispatch_total [OF demo_inv(1), of 0] by (auto simp: demo_running_def demo_first NPROC_def)
  with dispatch_charges [OF this len] show ?thesis by (simp add: demo_first Let_def)
qed

text \<open>C8.  When the switched-to process comes back, the scheduler goes on without reading outside
  its tables exactly when the process is not at level 0 with its slice used up: level 0 has no
  level below it, and the code decrements it to \<open>-1\<close> and indexes the tables with it.\<close>

theorem sched_return_in_bounds:
  assumes "ptable_inv s" "i < NPROC"
  shows "sched_return i s = None \<longleftrightarrow> priority (procs s ! i) = 0 \<and> slice_remain (procs s ! i) = 0"
  using sched_return_total [OF assms] by (cases "sched_return i s") auto

theorem sched_return_in_bounds_witness: "sched_return 0 demo_table \<noteq> None"
proof -
  have "0 < NPROC" by (simp add: NPROC_def)
  from sched_return_in_bounds [OF demo_inv(1) this] show ?thesis by (simp add: demo_first)
qed


end
