(* ===== verification/Pages.thy ===== *)
theory Pages imports Prelude
begin

text \<open>
  Machine memory as the kernel allocator and the page tables see it: 32-bit cells at the
  addresses the code uses (always multiples of 4), pages of 4096 bytes, and the rounding macros
  of \<open>kernel/mmu.h\<close>.  The contract of a page allocator is the locale \<open>page_allocator\<close>, which
  both allocators of the memory project fulfil and on which the page-table code rests.
\<close>

section \<open>Definitions\<close>

type_synonym memory = "u32 \<Rightarrow> u32"

text \<open>\<open>PGROUNDUP\<close>, \<open>PGROUNDDOWN\<close> (also \<open>PTE_ADDR\<close>), \<open>USERTOP\<close>, \<open>PHYSTOP\<close>.\<close>

definition PGSIZE :: u32 where "PGSIZE = 4096"
definition USERTOP :: u32 where "USERTOP = 0xA0000"
definition PHYSTOP :: u32 where "PHYSTOP = 0x1000000"

definition pgroundup :: "u32 \<Rightarrow> u32" where
  "pgroundup x = (x + PGSIZE - 1) AND NOT (PGSIZE - 1)"

definition pgrounddown :: "u32 \<Rightarrow> u32" where
  "pgrounddown x = x AND NOT (PGSIZE - 1)"

definition aligned :: "u32 \<Rightarrow> bool" where
  "aligned p \<longleftrightarrow> p mod PGSIZE = 0"

text \<open>\<open>memset\<close> of a whole page with the byte that makes up the word \<open>w\<close>, and a page copy.\<close>

definition fill_page :: "u32 \<Rightarrow> u32 \<Rightarrow> memory \<Rightarrow> memory" where
  "fill_page p w m = (\<lambda>a. if a - p < PGSIZE then w else m a)"

definition copy_page :: "u32 \<Rightarrow> u32 \<Rightarrow> memory \<Rightarrow> memory" where
  "copy_page dst src m = (\<lambda>a. if a - dst < PGSIZE then m (src + (a - dst)) else m a)"

text \<open>The allocator's state: memory, the head of the free list that is linked through the free
  pages, the array of allocated frames, and the state of the random number generator.\<close>

record kmem =
  pmem :: memory
  freelist :: u32
  alloc_list :: "u32 list"
  rand_a :: u32

section \<open>Word arithmetic on pages\<close>

lemma pgsize_mask: "PGSIZE - 1 = mask 12" "PGSIZE = 2 ^ 12"
  by (simp_all add: PGSIZE_def mask_eq_exp_minus_1)

lemma pgrounddown_eq: "pgrounddown x = x - x mod PGSIZE"
proof -
  have "x AND mask 12 = x mod PGSIZE"
    by (simp add: pgsize_mask(2) take_bit_eq_mod flip: take_bit_eq_mask)
  moreover have "x = (x AND NOT (mask 12)) + (x AND mask 12)"
  proof -
    have "(x AND NOT (mask 12)) OR (x AND mask 12) = x"
      by (rule bit_eqI) (auto simp: bit_simps)
    moreover have "(x AND NOT (mask 12)) + (x AND mask 12) = (x AND NOT (mask 12)) OR (x AND mask 12)"
      by (rule disjunctive_add) (auto simp: bit_simps)
    ultimately show ?thesis by simp
  qed
  ultimately show ?thesis
    by (simp add: pgrounddown_def pgsize_mask(1) eq_diff_eq)
qed

lemma unat_pgrounddown: "unat (pgrounddown x) = unat x - unat x mod 4096"
proof -
  have "unat (x mod PGSIZE) = unat x mod 4096"
    by (simp add: unat_mod_distrib PGSIZE_def)
  moreover have "x mod PGSIZE \<le> x" by (simp add: word_le_nat_alt unat_mod_distrib)
  ultimately show ?thesis by (simp add: pgrounddown_eq unat_sub)
qed

lemma aligned_unat: "aligned p \<longleftrightarrow> unat p mod 4096 = 0"
  by (simp add: aligned_def word_unat_eq_iff unat_mod_distrib PGSIZE_def)

lemma aligned_pgrounddown [simp]: "aligned (pgrounddown x)"
  by (simp add: aligned_unat unat_pgrounddown minus_mod_eq_mult_div)

lemma pgrounddown_aligned [simp]: "aligned p \<Longrightarrow> pgrounddown p = p"
  by (simp add: pgrounddown_eq aligned_def)

lemma unat_add_small:
  fixes p x :: u32
  assumes "aligned p" "x < PGSIZE"
  shows "unat (p + x) = unat p + unat x"
proof -
  have x: "unat x < 4096" using assms(2) by (simp add: word_less_nat_alt PGSIZE_def)
  have "unat p < 2 ^ 32" using unsigned_less [where 'b = 32, of p] by simp
  moreover obtain k where k: "unat p = 4096 * k"
    using assms(1) by (auto simp: aligned_unat mod_eq_0_iff_dvd elim: dvdE)
  ultimately have "k < 2 ^ 20" by simp
  with k x have "unat p + unat x < 2 ^ 32" by simp
  then show ?thesis by (simp add: unat_word_ariths take_bit_nat_eq_self)
qed

lemma pgrounddown_add: "aligned p \<Longrightarrow> x < PGSIZE \<Longrightarrow> pgrounddown (p + x) = p"
proof -
  assume p: "aligned p" and x: "x < PGSIZE"
  have "unat x < 4096" using x by (simp add: word_less_nat_alt PGSIZE_def)
  moreover have "unat p mod 4096 = 0" using p by (simp add: aligned_unat)
  ultimately have "unat (p + x) mod 4096 = unat x"
    using unat_add_small [OF p x] mod_add_eq [of "unat p" 4096 "unat x"] by simp
  then have "unat (pgrounddown (p + x)) = unat p"
    using unat_add_small [OF p x] by (simp add: unat_pgrounddown)
  then show ?thesis by (simp add: word_unat_eq_iff)
qed

lemma in_page_iff: "aligned p \<Longrightarrow> a - p < PGSIZE \<longleftrightarrow> pgrounddown a = p"
proof
  assume p: "aligned p" and "a - p < PGSIZE"
  from pgrounddown_add [OF this] show "pgrounddown a = p" by simp
next
  assume "aligned p" and "pgrounddown a = p"
  then have "a - p = a mod PGSIZE" by (auto simp: pgrounddown_eq)
  then show "a - p < PGSIZE"
    by (simp add: word_less_nat_alt unat_mod_distrib PGSIZE_def)
qed

lemma fill_page_iff: "aligned p \<Longrightarrow> fill_page p w m a = (if pgrounddown a = p then w else m a)"
  by (simp add: fill_page_def in_page_iff)

lemma copy_page_iff:
  "aligned p \<Longrightarrow> copy_page p src m a = (if pgrounddown a = p then m (src + (a - p)) else m a)"
  by (simp add: copy_page_def in_page_iff)

section \<open>The contract of a page allocator\<close>

text \<open>
  \<open>ok s F\<close>: the allocator state is well formed and \<open>F\<close> is the set of free pages; \<open>usable v\<close>:
  \<open>v\<close> may be handed to \<open>free\<close>.  When nothing is free, the allocator answers 0 or does not come
  back (the random allocator divides by the number of free pages).
\<close>

locale page_allocator =
  fixes alloc :: "kmem \<Rightarrow> (u32 \<times> kmem) option"
    and free :: "u32 \<Rightarrow> kmem \<Rightarrow> kmem option"
    and ok :: "kmem \<Rightarrow> u32 set \<Rightarrow> bool"
    and usable :: "u32 \<Rightarrow> bool"
  assumes alloc_page: "ok s F \<Longrightarrow> F \<noteq> {} \<Longrightarrow>
      \<exists>p s'. alloc s = Some (p, s') \<and> p \<in> F \<and> ok s' (F - {p}) \<and>
        (\<forall>a. pgrounddown a \<notin> F \<longrightarrow> pmem s' a = pmem s a)"
    and alloc_empty: "ok s {} \<Longrightarrow> alloc s = Some r \<Longrightarrow> r = (0, s)"
    and free_page: "ok s F \<Longrightarrow> v \<notin> F \<Longrightarrow> usable v \<Longrightarrow>
      \<exists>s'. free v s = Some s' \<and> ok s' (insert v F) \<and>
        (\<forall>a. pgrounddown a \<noteq> v \<longrightarrow> pmem s' a = pmem s a)"
    and ok_usable: "ok s F \<Longrightarrow> p \<in> F \<Longrightarrow> usable p"
    and usable_page: "usable p \<Longrightarrow> aligned p \<and> p \<noteq> 0 \<and> p < PHYSTOP"
    and ok_write: "ok s F \<Longrightarrow> (\<And>a. pgrounddown a \<in> F \<Longrightarrow> m a = pmem s a) \<Longrightarrow> ok (s\<lparr>pmem := m\<rparr>) F"
begin

lemma alloc_cases:
  assumes "ok s F" "alloc s = Some (p, s')"
  shows "(p = 0 \<and> F = {} \<and> s' = s) \<or>
    (p \<noteq> 0 \<and> p \<in> F \<and> ok s' (F - {p}) \<and> (\<forall>a. pgrounddown a \<notin> F \<longrightarrow> pmem s' a = pmem s a))"
proof (cases "F = {}")
  case True
  with assms alloc_empty [of s "(p, s')"] show ?thesis by simp
next
  case False
  from alloc_page [OF assms(1) False] assms(2) ok_usable [OF assms(1)] usable_page
  show ?thesis by auto
qed

text \<open>Freeing a page that was just allocated restores the set of free pages.\<close>

lemma alloc_free:
  assumes "ok s F" "alloc s = Some (p, s')" "p \<noteq> 0"
  shows "\<exists>s''. free p s' = Some s'' \<and> ok s'' F"
proof -
  from alloc_cases [OF assms(1,2)] assms(3) have p: "p \<in> F" "ok s' (F - {p})" by auto
  from free_page [OF p(2) _ ok_usable [OF assms(1) p(1)]] p(1) show ?thesis
    by (auto simp: insert_absorb)
qed

end


text \<open>An allocator that answers 0 when no page is free.\<close>

locale total_allocator = page_allocator +
  assumes alloc_none: "ok s {} \<Longrightarrow> alloc s = Some (0, s)"
begin

lemma alloc_answers:
  assumes "ok s F"
  shows "(F = {} \<and> alloc s = Some (0, s)) \<or>
    (\<exists>p s'. alloc s = Some (p, s') \<and> p \<noteq> 0 \<and> p \<in> F \<and> ok s' (F - {p}) \<and>
      (\<forall>a. pgrounddown a \<notin> F \<longrightarrow> pmem s' a = pmem s a))"
proof (cases "F = {}")
  case True
  with assms alloc_none show ?thesis by simp
next
  case False
  from alloc_page [OF assms False] ok_usable [OF assms] usable_page show ?thesis by blast
qed

end

end
