(* ===== verification/Kalloc.thy ===== *)
theory Kalloc imports Pages "HOL-Library.Multiset"
begin

text \<open>
  The physical page allocators of the memory project (\<open>part_a/kernel/kalloc.c\<close>,
  \<open>part_b/kernel/kalloc.c\<close>) and the random number generator of \<open>part_b/kernel/rand.c\<close>.  The free
  list lives in the first word of every free page, as in the code; \<open>kend\<close> is the linker symbol
  \<open>end\<close>.  Locks are the identity here.  \<open>None\<close> is a panic, a division by zero, a null dereference
  or a write outside \<open>alloc_list\<close>.
\<close>

section \<open>Part A: every second page, last in first out\<close>

definition ALLOC_MAX :: nat where "ALLOC_MAX = 1000000"

text \<open>The search for \<open>r\<close> in \<open>alloc_list\<close> and the shift of the entries behind it.\<close>

definition forget_frame :: "u32 \<Rightarrow> u32 list \<Rightarrow> u32 list" where
  "forget_frame r xs =
     (case first_index (\<lambda>x. x = r) xs of
        None \<Rightarrow> xs
      | Some i \<Rightarrow> take i xs @ drop (Suc i) xs)"

definition kfree :: "u32 \<Rightarrow> u32 \<Rightarrow> kmem \<Rightarrow> kmem option" where
  "kfree kend v s =
     (if v mod PGSIZE \<noteq> 0 \<or> v < kend \<or> v \<ge> PHYSTOP then None
      else Some (s\<lparr>pmem := (fill_page v 0x01010101 (pmem s))(v := freelist s),
                   freelist := v,
                   alloc_list := forget_frame v (alloc_list s)\<rparr>))"

definition log_alloc :: "u32 \<Rightarrow> kmem \<Rightarrow> kmem option" where
  "log_alloc r s =
     (if length (alloc_list s) < ALLOC_MAX
      then Some (s\<lparr>alloc_list := alloc_list s @ [r]\<rparr>) else None)"

definition kalloc :: "kmem \<Rightarrow> (u32 \<times> kmem) option" where
  "kalloc s =
     (let r = freelist s in
      if r \<noteq> 0
      then do { s \<leftarrow> log_alloc r (s\<lparr>freelist := pmem s r\<rparr>); Some (r, s) }
      else Some (r, s))"

text \<open>\<open>kinit\<close>: the loop over the page addresses; the distance of two pages is
  \<open>2 * PGSIZE\<close> in part A and \<open>PGSIZE\<close> in part B.\<close>

function kinit_loop :: "u32 \<Rightarrow> nat \<Rightarrow> nat \<Rightarrow> kmem \<Rightarrow> kmem option" where
  "kinit_loop kend stride p s =
     (if p + 4096 \<le> unat PHYSTOP \<and> 0 < stride
      then do { s \<leftarrow> kfree kend (word_of_nat p) s; kinit_loop kend stride (p + stride) s }
      else Some s)"
  by pat_completeness auto
termination by (relation "measure (\<lambda>(kend, stride, p, s). unat PHYSTOP - p)") (auto simp: PHYSTOP_def)

declare kinit_loop.simps [simp del]

definition kmem0 :: "memory \<Rightarrow> kmem" where
  "kmem0 m = \<lparr>pmem = m, freelist = 0, alloc_list = [], rand_a = 1\<rparr>"

definition kinit :: "u32 \<Rightarrow> memory \<Rightarrow> kmem option" where
  "kinit kend m = kinit_loop kend (2 * 4096) (unat (pgroundup kend)) (kmem0 m)"

text \<open>\<open>dump_allocated\<close>: the result and what it stores to \<open>frames\<close>.\<close>

fun dump_loop :: "u32 list \<Rightarrow> nat \<Rightarrow> nat \<Rightarrow> u32 list" where
  "dump_loop xs i 0 = []"
| "dump_loop xs i (Suc n) = xs ! (i - 1) # dump_loop xs (i - 1) n"

definition dump_allocated :: "int \<Rightarrow> kmem \<Rightarrow> int \<times> u32 list" where
  "dump_allocated numframes s =
     (let size = length (alloc_list s) in
      if numframes < 0 \<or> numframes > int size then (-1, [])
      else (0, dump_loop (alloc_list s) size (nat numframes)))"

section \<open>Part B: a random free page\<close>

definition XV6_RAND_MAX :: u32 where "XV6_RAND_MAX = 2147483647"

definition xorshift :: "u32 \<Rightarrow> u32" where
  "xorshift x =
     (let x = x XOR push_bit 13 x;
          x = x XOR drop_bit 17 x;
          x = x XOR push_bit 5 x
      in x)"

definition xv6_rand :: "kmem \<Rightarrow> int \<times> kmem" where
  "xv6_rand s =
     (let a = xorshift (rand_a s) mod (XV6_RAND_MAX + 1)
      in (sint a, s\<lparr>rand_a := a\<rparr>))"

definition xv6_srand :: "u32 \<Rightarrow> kmem \<Rightarrow> kmem" where
  "xv6_srand seed s = s\<lparr>rand_a := seed\<rparr>"

definition kinit_b :: "u32 \<Rightarrow> memory \<Rightarrow> kmem option" where
  "kinit_b kend m = kinit_loop kend 4096 (unat (pgroundup kend)) (kmem0 m)"

partial_function (option) count_free :: "memory \<Rightarrow> u32 \<Rightarrow> nat \<Rightarrow> nat option" where
  "count_free m r n = (if r \<noteq> 0 then count_free m (m r) (n + 1) else Some n)"

fun walk_free :: "memory \<Rightarrow> u32 \<Rightarrow> nat \<Rightarrow> u32" where
  "walk_free m r 0 = r"
| "walk_free m r (Suc n) = walk_free m (m r) n"

partial_function (option) find_prev :: "memory \<Rightarrow> u32 \<Rightarrow> u32 \<Rightarrow> u32 option" where
  "find_prev m rr r =
     (if rr \<noteq> 0 then (if m rr = r then Some rr else find_prev m (m rr) r) else Some rr)"

definition unlink_free :: "u32 \<Rightarrow> kmem \<Rightarrow> kmem option" where
  "unlink_free r s =
     (if freelist s = r then Some (s\<lparr>freelist := pmem s r\<rparr>)
      else do {
        rr \<leftarrow> find_prev (pmem s) (freelist s) r;
        if rr = 0 then None
        else Some (s\<lparr>pmem := (pmem s)(rr := pmem s r)\<rparr>) })"

text \<open>The remainder by the number of free pages traps when there is none.\<close>

definition kalloc_b :: "kmem \<Rightarrow> (u32 \<times> kmem) option" where
  "kalloc_b s =
     (let (x, s) = xv6_rand s in
      do { freesize \<leftarrow> count_free (pmem s) (freelist s) 0;
           if freesize = 0 then None
           else (let r = walk_free (pmem s) (freelist s) (nat x mod freesize) in
             if r \<noteq> 0 then do { s \<leftarrow> log_alloc r s; s \<leftarrow> unlink_free r s; Some (r, s) }
             else Some (r, s)) })"

section \<open>The free list as a list\<close>

fun chain :: "memory \<Rightarrow> u32 \<Rightarrow> u32 list \<Rightarrow> bool" where
  "chain m r [] \<longleftrightarrow> r = 0"
| "chain m r (p # ps) \<longleftrightarrow> r = p \<and> p \<noteq> 0 \<and> chain m (m p) ps"

definition page_usable :: "u32 \<Rightarrow> u32 \<Rightarrow> bool" where
  "page_usable kend p \<longleftrightarrow> aligned p \<and> kend \<le> p \<and> p \<noteq> 0 \<and> p < PHYSTOP"

definition free_ok :: "u32 \<Rightarrow> kmem \<Rightarrow> u32 list \<Rightarrow> bool" where
  "free_ok kend s fl \<longleftrightarrow> chain (pmem s) (freelist s) fl \<and> distinct (fl @ alloc_list s) \<and>
     (\<forall>p \<in> set (fl @ alloc_list s). page_usable kend p)"

definition kmem_ok :: "u32 \<Rightarrow> kmem \<Rightarrow> u32 set \<Rightarrow> bool" where
  "kmem_ok kend s F \<longleftrightarrow> (\<exists>fl. free_ok kend s fl \<and> set fl = F)"

lemma forget_frame_remove1: "forget_frame r xs = remove1 r xs"
proof (induction xs)
  case (Cons x xs)
  then show ?case by (cases "first_index (\<lambda>x. x = r) xs") (auto simp: forget_frame_def)
qed (simp add: forget_frame_def)

lemma chain_cong: "chain m r fl \<Longrightarrow> \<forall>p \<in> set fl. m' p = m p \<Longrightarrow> chain m' r fl"
  by (induction fl arbitrary: r) auto

lemma chain_append:
  "chain m r (xs @ p # ys) \<Longrightarrow> chain m (m p) ys \<and> p \<noteq> 0"
  by (induction xs arbitrary: r) auto

lemma count_free_chain: "chain m r fl \<Longrightarrow> count_free m r n = Some (n + length fl)"
  by (induction fl arbitrary: r n) (auto simp: count_free.simps)

lemma walk_free_chain: "chain m r fl \<Longrightarrow> n < length fl \<Longrightarrow> walk_free m r n = fl ! n"
proof (induction n arbitrary: r fl)
  case 0
  then show ?case by (cases fl) auto
next
  case (Suc n)
  then show ?case by (cases fl) auto
qed

lemma find_prev_chain:
  "chain m r (xs @ q # p # ys) \<Longrightarrow> distinct (xs @ q # p # ys) \<Longrightarrow> find_prev m r p = Some q"
proof (induction xs arbitrary: r)
  case Nil
  then show ?case by (auto simp: find_prev.simps)
next
  case (Cons x xs)
  then have "m x \<noteq> p" by (cases xs) auto
  with Cons show ?case by (auto simp: find_prev.simps [of m x])
qed

lemma chain_unlink:
  "chain m r (xs @ q # p # ys) \<Longrightarrow> distinct (xs @ q # p # ys) \<Longrightarrow>
   chain (m(q := m p)) r (xs @ q # ys)"
proof (induction xs arbitrary: r)
  case Nil
  then show ?case by (auto intro: chain_cong)
next
  case (Cons x xs)
  then show ?case by auto
qed

lemma page_usable_page: "page_usable kend p \<Longrightarrow> aligned p \<and> p \<noteq> 0 \<and> p < PHYSTOP"
  by (simp add: page_usable_def)

lemma aligned_usable: "page_usable kend p \<Longrightarrow> pgrounddown p = p"
  by (simp add: page_usable_def)

lemma free_ok_page:
  assumes "free_ok kend s fl" "p \<in> set fl"
  shows "page_usable kend p" "pgrounddown p = p"
proof -
  show u: "page_usable kend p" using assms by (simp add: free_ok_def)
  then show "pgrounddown p = p" by (rule aligned_usable)
qed

lemma usable_list_length:
  assumes "distinct xs" "\<forall>p \<in> set xs. page_usable kend p"
  shows "length xs \<le> 4096"
proof -
  let ?f = "\<lambda>p :: u32. unat p div 4096"
  have "inj_on ?f (set xs)"
  proof (rule inj_onI)
    fix a b assume "a \<in> set xs" "b \<in> set xs" "?f a = ?f b"
    moreover from this assms(2) have "unat a mod 4096 = 0" "unat b mod 4096 = 0"
      by (auto simp: page_usable_def aligned_unat)
    ultimately have "unat a = unat b"
      using div_mult_mod_eq [of "unat a" 4096] div_mult_mod_eq [of "unat b" 4096] by simp
    then show "a = b" by (simp add: word_unat_eq_iff)
  qed
  moreover have "?f ` set xs \<subseteq> {..<4096}"
    using assms(2) by (auto simp: page_usable_def PHYSTOP_def word_less_nat_alt)
  ultimately have "card (set xs) \<le> card {..<4096 :: nat}" by (metis card_inj_on_le finite_lessThan)
  with assms(1) show ?thesis by (simp add: distinct_card)
qed

lemma log_alloc_ok: "free_ok kend s fl \<Longrightarrow> log_alloc r s = Some (s\<lparr>alloc_list := alloc_list s @ [r]\<rparr>)"
  using usable_list_length [of "alloc_list s" kend] by (auto simp: free_ok_def log_alloc_def ALLOC_MAX_def)


section \<open>Both allocators keep the free list\<close>

lemma kfree_free_ok:
  assumes ok: "free_ok kend s fl" and v: "v \<notin> set fl" "page_usable kend v"
  shows "\<exists>s'. kfree kend v s = Some s' \<and> free_ok kend s' (v # fl) \<and>
    alloc_list s' = remove1 v (alloc_list s) \<and> (\<forall>a. pgrounddown a \<noteq> v \<longrightarrow> pmem s' a = pmem s a)"
proof -
  note al = aligned_usable [OF v(2)]
  let ?m = "(fill_page v 0x01010101 (pmem s))(v := freelist s)"
  have a: "aligned v" using v(2) by (simp add: page_usable_def)
  have other: "?m x = pmem s x" if "pgrounddown x \<noteq> v" for x
    using that al a by (auto simp: fill_page_iff)
  have "chain ?m v (v # fl)"
  proof -
    have "chain ?m (freelist s) fl"
    proof (rule chain_cong)
      show "chain (pmem s) (freelist s) fl" using ok by (simp add: free_ok_def)
      show "\<forall>p \<in> set fl. ?m p = pmem s p"
      proof
        fix p assume p: "p \<in> set fl"
        with ok have "pgrounddown p = p" by (auto simp: free_ok_def intro: aligned_usable)
        with p v(1) other [of p] show "?m p = pmem s p" by metis
      qed
    qed
    with v(2) show ?thesis by (simp add: page_usable_def)
  qed
  moreover have "kfree kend v s = Some (s\<lparr>pmem := ?m, freelist := v, alloc_list := remove1 v (alloc_list s)\<rparr>)"
    using v(2) by (auto simp: kfree_def page_usable_def aligned_def forget_frame_remove1 not_less not_le)
  moreover have "distinct ((v # fl) @ remove1 v (alloc_list s))"
    "\<forall>p \<in> set ((v # fl) @ remove1 v (alloc_list s)). page_usable kend p"
    using ok v by (auto simp: free_ok_def set_remove1_eq)
  ultimately show ?thesis using other by (auto simp: free_ok_def)
qed

lemma kalloc_free_ok:
  assumes ok: "free_ok kend s (p # fl)"
  shows "\<exists>s'. kalloc s = Some (p, s') \<and> free_ok kend s' fl \<and> pmem s' = pmem s \<and>
    alloc_list s' = alloc_list s @ [p]"
proof -
  from ok have c: "freelist s = p" "p \<noteq> 0" "chain (pmem s) (pmem s p) fl" by (auto simp: free_ok_def)
  have "log_alloc p (s\<lparr>freelist := pmem s p\<rparr>) = Some (s\<lparr>freelist := pmem s p, alloc_list := alloc_list s @ [p]\<rparr>)"
    using usable_list_length [of "alloc_list s" kend] ok
    by (auto simp: free_ok_def log_alloc_def ALLOC_MAX_def)
  with c ok show ?thesis by (auto simp: kalloc_def free_ok_def)
qed

lemma xv6_rand_frame:
  "xv6_rand s = (x, s') \<Longrightarrow> pmem s' = pmem s \<and> freelist s' = freelist s \<and> alloc_list s' = alloc_list s"
  by (auto simp: xv6_rand_def Let_def)

lemma unlink_free_ok:
  assumes c: "chain (pmem s) (freelist s) (xs @ p # ys)" and d: "distinct (xs @ p # ys)"
  shows "\<exists>s'. unlink_free p s = Some s' \<and> chain (pmem s') (freelist s') (xs @ ys) \<and>
    alloc_list s' = alloc_list s \<and> (\<forall>a. a \<notin> set (xs @ ys) \<longrightarrow> pmem s' a = pmem s a)"
proof (cases xs rule: rev_cases)
  case Nil
  with c show ?thesis by (auto simp: unlink_free_def)
next
  case (snoc zs q)
  from c d snoc have f: "freelist s \<noteq> p" by (cases zs) auto
  have q: "q \<noteq> 0" using c snoc chain_append [of "pmem s" "freelist s" zs q "p # ys"] by simp
  from f q chain_unlink [of "pmem s" "freelist s" zs q p ys] find_prev_chain [of "pmem s" "freelist s" zs q p ys] c d snoc
  show ?thesis by (auto simp: unlink_free_def)
qed

lemma kalloc_b_free_ok:
  assumes ok: "free_ok kend s fl" "fl \<noteq> []" and r: "xv6_rand s = (x, s1)"
  defines "i \<equiv> nat x mod length fl"
  shows "\<exists>s'. kalloc_b s = Some (fl ! i, s') \<and>
    free_ok kend s' (take i fl @ drop (Suc i) fl) \<and> alloc_list s' = alloc_list s @ [fl ! i] \<and>
    (\<forall>a. a \<notin> set fl \<longrightarrow> pmem s' a = pmem s a)"
proof -
  have i: "i < length fl" using ok(2) by (simp add: i_def)
  have split: "fl = take i fl @ fl ! i # drop (Suc i) fl" using i by (rule id_take_nth_drop)
  note fr = xv6_rand_frame [OF r]
  from ok(1) have c: "chain (pmem s1) (freelist s1) fl" and d: "distinct (fl @ alloc_list s)"
    and u: "\<forall>p \<in> set (fl @ alloc_list s). page_usable kend p"
    by (simp_all add: free_ok_def fr)
  let ?p = "fl ! i"
  let ?s2 = "s1\<lparr>alloc_list := alloc_list s1 @ [?p]\<rparr>"
  have p0: "?p \<noteq> 0" using u i by (auto simp: page_usable_def)
  have log: "log_alloc ?p s1 = Some ?s2"
    using usable_list_length [of "alloc_list s" kend] d u fr by (auto simp: log_alloc_def ALLOC_MAX_def)
  have "chain (pmem ?s2) (freelist ?s2) (take i fl @ ?p # drop (Suc i) fl)"
    "distinct (take i fl @ ?p # drop (Suc i) fl)"
    using c d split by (simp_all flip: split)
  from unlink_free_ok [OF this] obtain s' where s': "unlink_free ?p ?s2 = Some s'"
    "chain (pmem s') (freelist s') (take i fl @ drop (Suc i) fl)" "alloc_list s' = alloc_list ?s2"
    "\<forall>a. a \<notin> set (take i fl @ drop (Suc i) fl) \<longrightarrow> pmem s' a = pmem ?s2 a" by blast
  have "count_free (pmem s1) (freelist s1) 0 = Some (length fl)"
    using count_free_chain [OF c, of 0] by simp
  moreover have "walk_free (pmem s1) (freelist s1) (nat x mod length fl) = ?p"
    using walk_free_chain [OF c i] by (simp add: i_def)
  ultimately have "kalloc_b s = Some (?p, s')"
    using r p0 log s'(1) ok(2) by (simp add: kalloc_b_def)
  moreover have "free_ok kend s' (take i fl @ drop (Suc i) fl)"
  proof -
    have "mset (?p # take i fl @ drop (Suc i) fl) = mset fl"
      using arg_cong [OF split, of mset] by simp
    then have "mset ((take i fl @ drop (Suc i) fl) @ alloc_list s @ [?p]) = mset (fl @ alloc_list s)"
      by simp
    then have "distinct ((take i fl @ drop (Suc i) fl) @ alloc_list s @ [?p])"
      "set ((take i fl @ drop (Suc i) fl) @ alloc_list s @ [?p]) = set (fl @ alloc_list s)"
      using d by (metis mset_eq_imp_distinct_iff, metis mset_eq_setD)
    moreover have "alloc_list s' = alloc_list s @ [?p]" using s'(3) fr by simp
    ultimately show ?thesis using s'(2) u by (simp only: free_ok_def)
  qed
  moreover have "\<forall>a. a \<notin> set fl \<longrightarrow> pmem s' a = pmem s a"
    using s'(4) fr by (auto dest: in_set_takeD in_set_dropD)
  ultimately show ?thesis using s'(3) fr by auto
qed

lemma kalloc_empty: "free_ok kend s [] \<Longrightarrow> kalloc s = Some (0, s)"
  by (simp add: free_ok_def kalloc_def)

lemma kalloc_b_empty: "free_ok kend s [] \<Longrightarrow> kalloc_b s = None"
  by (simp add: free_ok_def kalloc_b_def xv6_rand_def count_free.simps Let_def)

lemma kmem_ok_write:
  assumes "kmem_ok kend s F" "\<And>a. pgrounddown a \<in> F \<Longrightarrow> m a = pmem s a"
  shows "kmem_ok kend (s\<lparr>pmem := m\<rparr>) F"
proof -
  from assms(1) obtain fl where fl: "free_ok kend s fl" "set fl = F" by (auto simp: kmem_ok_def)
  then have "\<forall>p \<in> set fl. m p = pmem s p"
    using assms(2) free_ok_page(2) [OF fl(1)] by metis
  with fl chain_cong [of "pmem s" "freelist s" fl m] show ?thesis
    by (auto simp: kmem_ok_def free_ok_def)
qed

lemma kfree_kmem_ok:
  assumes "kmem_ok kend s F" "v \<notin> F" "page_usable kend v"
  shows "\<exists>s'. kfree kend v s = Some s' \<and> kmem_ok kend s' (insert v F) \<and>
    (\<forall>a. pgrounddown a \<noteq> v \<longrightarrow> pmem s' a = pmem s a)"
proof -
  from assms(1) obtain fl where fl: "free_ok kend s fl" "set fl = F" by (auto simp: kmem_ok_def)
  from kfree_free_ok [OF fl(1) _ assms(3)] assms(2) fl(2)
  obtain s' where "kfree kend v s = Some s'" "free_ok kend s' (v # fl)"
    "\<forall>a. pgrounddown a \<noteq> v \<longrightarrow> pmem s' a = pmem s a" by blast
  moreover have "set (v # fl) = insert v F" using fl(2) by simp
  ultimately show ?thesis unfolding kmem_ok_def by blast
qed

lemma kmem_ok_usable: "kmem_ok kend s F \<Longrightarrow> p \<in> F \<Longrightarrow> page_usable kend p"
  by (auto simp: kmem_ok_def free_ok_def)

lemma kalloc_kmem_ok:
  assumes "kmem_ok kend s F" "F \<noteq> {}"
  shows "\<exists>p s'. kalloc s = Some (p, s') \<and> p \<in> F \<and> kmem_ok kend s' (F - {p}) \<and>
    (\<forall>a. pgrounddown a \<notin> F \<longrightarrow> pmem s' a = pmem s a)"
proof -
  from assms obtain fl0 where fl0: "free_ok kend s fl0" "set fl0 = F" by (auto simp: kmem_ok_def)
  with assms(2) obtain p fl where fl: "free_ok kend s (p # fl)" "set (p # fl) = F" by (cases fl0) auto
  from kalloc_free_ok [OF fl(1)] obtain s' where s': "kalloc s = Some (p, s')" "free_ok kend s' fl" "pmem s' = pmem s"
    by blast
  have "set fl = F - {p}" using fl by (auto simp: free_ok_def)
  with s'(2) have "kmem_ok kend s' (F - {p})" by (auto simp: kmem_ok_def)
  with s' fl(2) show ?thesis by auto
qed

lemma kalloc_b_kmem_ok:
  assumes "kmem_ok kend s F" "F \<noteq> {}"
  shows "\<exists>p s'. kalloc_b s = Some (p, s') \<and> p \<in> F \<and> kmem_ok kend s' (F - {p}) \<and>
    (\<forall>a. pgrounddown a \<notin> F \<longrightarrow> pmem s' a = pmem s a)"
proof -
  from assms obtain fl where fl: "free_ok kend s fl" "set fl = F" "fl \<noteq> []" by (auto simp: kmem_ok_def)
  obtain x s1 where r: "xv6_rand s = (x, s1)" by fastforce
  define i where "i = nat x mod length fl"
  have i: "i < length fl" using fl(3) by (simp add: i_def)
  from kalloc_b_free_ok [OF fl(1,3) r] obtain s' where s': "kalloc_b s = Some (fl ! i, s')"
    "free_ok kend s' (take i fl @ drop (Suc i) fl)" "\<forall>a. a \<notin> set fl \<longrightarrow> pmem s' a = pmem s a"
    unfolding i_def by blast
  have "distinct (take i fl @ fl ! i # drop (Suc i) fl)"
    using fl(1) id_take_nth_drop [OF i] by (simp add: free_ok_def)
  then have "set (take i fl @ drop (Suc i) fl) = set (take i fl @ fl ! i # drop (Suc i) fl) - {fl ! i}"
    by auto
  then have "set (take i fl @ drop (Suc i) fl) = F - {fl ! i}"
    using id_take_nth_drop [OF i] fl(2) by simp
  moreover have "pmem s' a = pmem s a" if "pgrounddown a \<notin> F" for a
    using that s'(3) fl(2) free_ok_page(2) [OF fl(1), of a] by metis
  moreover have "fl ! i \<in> F" using i fl(2) by auto
  ultimately show ?thesis using s'(1,2) by (auto simp: kmem_ok_def)
qed


section \<open>Both allocators fulfil the contract\<close>

lemma kmem_ok_empty:
  assumes "kmem_ok kend s {}"
  shows "kalloc s = Some (0, s)" "kalloc_b s = None"
  using assms kalloc_empty kalloc_b_empty by (auto simp: kmem_ok_def)

lemmas kmem_laws = kalloc_kmem_ok kalloc_b_kmem_ok kfree_kmem_ok kmem_ok_usable page_usable_page
  kmem_ok_write

interpretation kalloc_a: total_allocator kalloc "kfree kend" "kmem_ok kend" "page_usable kend" for kend
  by unfold_locales (simp_all add: kmem_laws kmem_ok_empty(1))

interpretation kalloc_b: page_allocator kalloc_b "kfree kend" "kmem_ok kend" "page_usable kend" for kend
  by unfold_locales (simp_all add: kmem_laws kmem_ok_empty(2))

section \<open>The state after \<open>kinit\<close>\<close>

text \<open>The pages that \<open>kinit\<close> puts on the free list.\<close>

definition page_set :: "nat \<Rightarrow> nat \<Rightarrow> u32 set" where
  "page_set stride p = {word_of_nat (p + k * stride) | k. p + k * stride + 4096 \<le> unat PHYSTOP}"

lemma page_set_step:
  "p + 4096 \<le> unat PHYSTOP \<Longrightarrow>
   page_set stride p = insert (word_of_nat p) (page_set stride (p + stride))"
proof -
  assume p: "p + 4096 \<le> unat PHYSTOP"
  have "{k. p + k * stride + 4096 \<le> unat PHYSTOP} =
    insert 0 (Suc ` {k. p + stride + k * stride + 4096 \<le> unat PHYSTOP})"
  proof (rule set_eqI)
    fix k show "k \<in> {k. p + k * stride + 4096 \<le> unat PHYSTOP} \<longleftrightarrow>
      k \<in> insert 0 (Suc ` {k. p + stride + k * stride + 4096 \<le> unat PHYSTOP})"
      using p by (cases k) (auto simp: algebra_simps)
  qed
  then have "(\<lambda>k. word_of_nat (p + k * stride) :: u32) ` {k. p + k * stride + 4096 \<le> unat PHYSTOP} =
    insert (word_of_nat p) ((\<lambda>k. word_of_nat (p + stride + k * stride)) ` {k. p + stride + k * stride + 4096 \<le> unat PHYSTOP})"
    by (simp add: image_image algebra_simps)
  then show ?thesis by (simp only: page_set_def image_def) blast
qed

lemma page_set_end: "\<not> p + 4096 \<le> unat PHYSTOP \<Longrightarrow> page_set stride p = {}"
  by (auto simp: page_set_def)

lemma unat_page: "q + 4096 \<le> unat PHYSTOP \<Longrightarrow> unat (word_of_nat q :: u32) = q"
  by (simp add: unsigned_of_nat PHYSTOP_def take_bit_nat_eq_self)

lemma page_set_above:
  assumes "a \<in> page_set stride p"
  obtains k where "unat a = p + k * stride" "unat a + 4096 \<le> unat PHYSTOP"
  using assms unat_page by (fastforce simp: page_set_def)

lemma kinit_loop_ok:
  assumes "free_ok kend s fl" "alloc_list s = []" "unat kend \<le> p" "0 < p" "4096 dvd p"
    "0 < stride" "4096 dvd stride" "\<forall>q \<in> set fl. unat q < p"
  shows "\<exists>s' fl'. kinit_loop kend stride p s = Some s' \<and> free_ok kend s' fl' \<and>
    alloc_list s' = [] \<and> set fl' = set fl \<union> page_set stride p"
  using assms
proof (induction kend stride p s arbitrary: fl rule: kinit_loop.induct)
  case (1 kend stride p s)
  show ?case
  proof (cases "p + 4096 \<le> unat PHYSTOP")
    case False
    with 1 show ?thesis by (auto simp: kinit_loop.simps [of kend stride p s] page_set_end)
  next
    case True
    let ?v = "word_of_nat p :: u32"
    have v: "unat ?v = p" using unat_page [OF True] .
    with 1 True have u: "page_usable kend ?v"
      by (auto simp: page_usable_def aligned_unat word_le_nat_alt word_less_nat_alt dvd_eq_mod_eq_0 word_unat_eq_iff)
    have "?v \<notin> set fl" using 1(9) v by auto
    from kfree_free_ok [OF 1(2) this u] obtain s' where s': "kfree kend ?v s = Some s'"
      "free_ok kend s' (?v # fl)" "alloc_list s' = []" using 1(3) by auto
    have "\<forall>q \<in> set (?v # fl). unat q < p + stride" using 1(7,9) v by auto
    with 1(1) [OF _ s'(1) s'(2,3)] 1 True obtain s'' fl' where
      "kinit_loop kend stride (p + stride) s' = Some s''" "free_ok kend s'' fl'" "alloc_list s'' = []"
      "set fl' = set (?v # fl) \<union> page_set stride (p + stride)" by fastforce
    then show ?thesis
      using True 1(7) s'(1) page_set_step [OF True, of stride] by (auto simp: kinit_loop.simps [of kend stride p s])
  qed
qed

lemma unat_pgroundup:
  assumes "kend \<le> PHYSTOP"
  shows "unat kend \<le> unat (pgroundup kend)" "4096 dvd unat (pgroundup kend)"
proof -
  have "unat kend + 4095 < 2 ^ 32" using assms by (simp add: PHYSTOP_def word_le_nat_alt)
  then have s: "unat (kend + PGSIZE - 1) = unat kend + 4095"
    by (simp add: PGSIZE_def unat_word_ariths take_bit_nat_eq_self)
  have "pgroundup kend = pgrounddown (kend + PGSIZE - 1)"
    by (simp add: pgroundup_def pgrounddown_def)
  with s have e: "unat (pgroundup kend) = unat kend + 4095 - (unat kend + 4095) mod 4096"
    by (simp add: unat_pgrounddown)
  have "(unat kend + 4095) mod 4096 \<le> 4095" by (simp add: less_Suc_eq_le [symmetric])
  with e show "unat kend \<le> unat (pgroundup kend)" by linarith
  from e show "4096 dvd unat (pgroundup kend)" by (simp add: minus_mod_eq_mult_div)
qed

lemma kinit_pages:
  assumes "0 < kend" "kend \<le> PHYSTOP" "0 < stride" "4096 dvd stride"
  shows "\<exists>s fl. kinit_loop kend stride (unat (pgroundup kend)) (kmem0 m) = Some s \<and>
    free_ok kend s fl \<and> alloc_list s = [] \<and> set fl = page_set stride (unat (pgroundup kend))"
proof -
  have "free_ok kend (kmem0 m) []" "alloc_list (kmem0 m) = []" by (simp_all add: free_ok_def kmem0_def)
  moreover have "0 < unat (pgroundup kend)"
    using unat_pgroundup(1) [OF assms(2)] assms(1) by (simp add: word_less_nat_alt)
  ultimately show ?thesis
    using kinit_loop_ok [of kend "kmem0 m" "[]" "unat (pgroundup kend)" stride] unat_pgroundup [OF assms(2)] assms
    by auto
qed


section \<open>Sequences of allocator calls\<close>

text \<open>
  The callers' side: allocate, free a page that was handed out, write inside pages that were
  handed out, and reseed the generator.
\<close>

inductive kmem_reach :: "(kmem \<Rightarrow> (u32 \<times> kmem) option) \<Rightarrow> u32 \<Rightarrow> kmem \<Rightarrow> kmem \<Rightarrow> bool"
  for alloc kend s0 where
  start: "kmem_reach alloc kend s0 s0"
| alloc: "kmem_reach alloc kend s0 s \<Longrightarrow> alloc s = Some (p, s') \<Longrightarrow> kmem_reach alloc kend s0 s'"
| free: "kmem_reach alloc kend s0 s \<Longrightarrow> p \<in> set (alloc_list s) \<Longrightarrow> kfree kend p s = Some s' \<Longrightarrow>
    kmem_reach alloc kend s0 s'"
| store: "kmem_reach alloc kend s0 s \<Longrightarrow> pgrounddown a \<in> set (alloc_list s) \<Longrightarrow>
    kmem_reach alloc kend s0 (s\<lparr>pmem := (pmem s)(a := w)\<rparr>)"
| seed: "kmem_reach alloc kend s0 s \<Longrightarrow> kmem_reach alloc kend s0 (xv6_srand x s)"

definition partition_ok :: "u32 \<Rightarrow> u32 set \<Rightarrow> kmem \<Rightarrow> u32 list \<Rightarrow> bool" where
  "partition_ok kend S s fl \<longleftrightarrow> free_ok kend s fl \<and> set (fl @ alloc_list s) = S"

lemma partition_alloc_a:
  assumes "partition_ok kend S s fl" "kalloc s = Some (p, s')"
  shows "\<exists>fl'. partition_ok kend S s' fl'"
proof (cases fl)
  case Nil
  with assms kalloc_empty [of kend s] show ?thesis by (auto simp: partition_ok_def)
next
  case (Cons q fl')
  with assms kalloc_free_ok [of kend s q fl'] show ?thesis by (auto simp: partition_ok_def)
qed

lemma partition_alloc_b:
  assumes p: "partition_ok kend S s fl" and a: "kalloc_b s = Some (p, s')"
  shows "\<exists>fl'. partition_ok kend S s' fl'"
proof -
  have ne: "fl \<noteq> []" using assms kalloc_b_empty [of kend s] by (auto simp: partition_ok_def)
  obtain x s1 where r: "xv6_rand s = (x, s1)" by fastforce
  define i where "i = nat x mod length fl"
  have i: "i < length fl" using ne by (simp add: i_def)
  from p have ok: "free_ok kend s fl" and S: "set (fl @ alloc_list s) = S"
    by (simp_all only: partition_ok_def)
  from kalloc_b_free_ok [OF ok ne r] a
  have s': "free_ok kend s' (take i fl @ drop (Suc i) fl)" "alloc_list s' = alloc_list s @ [fl ! i]"
    unfolding i_def by auto
  have "set (take i fl @ fl ! i # drop (Suc i) fl) = set fl"
    by (simp only: id_take_nth_drop [OF i, symmetric])
  then have "set ((take i fl @ drop (Suc i) fl) @ alloc_list s @ [fl ! i]) = set (fl @ alloc_list s)"
    by auto
  with s' S have "partition_ok kend S s' (take i fl @ drop (Suc i) fl)"
    by (simp only: partition_ok_def)
  then show ?thesis by blast
qed

lemma partition_free:
  assumes p: "partition_ok kend S s fl" and a: "q \<in> set (alloc_list s)"
  shows "\<exists>s'. kfree kend q s = Some s' \<and> partition_ok kend S s' (q # fl)"
proof -
  from p have ok: "free_ok kend s fl" by (simp add: partition_ok_def)
  with a have q: "q \<notin> set fl" "page_usable kend q" "distinct (alloc_list s)"
    unfolding free_ok_def by auto
  from kfree_free_ok [OF ok q(1,2)] obtain s' where "kfree kend q s = Some s'"
    "free_ok kend s' (q # fl)" "alloc_list s' = remove1 q (alloc_list s)" by blast
  moreover have "set (q # fl) \<union> set (remove1 q (alloc_list s)) = set fl \<union> set (alloc_list s)"
    using a q(3) by (auto simp: set_remove1_eq)
  moreover have "set fl \<union> set (alloc_list s) = S" using p by (simp add: partition_ok_def)
  ultimately show ?thesis by (simp add: partition_ok_def)
qed

lemma partition_store:
  assumes p: "partition_ok kend S s fl" and a: "pgrounddown a \<in> set (alloc_list s)"
  shows "partition_ok kend S (s\<lparr>pmem := (pmem s)(a := w)\<rparr>) fl"
proof -
  from p have ok: "free_ok kend s fl" by (simp add: partition_ok_def)
  have "((pmem s)(a := w)) q = pmem s q" if "q \<in> set fl" for q
  proof -
    have "pgrounddown q = q" using free_ok_page(2) [OF ok that] .
    moreover have "q \<notin> set (alloc_list s)" using that ok by (auto simp: free_ok_def)
    ultimately show ?thesis using a by auto
  qed
  with p chain_cong show ?thesis by (fastforce simp: partition_ok_def free_ok_def)
qed

lemma kmem_reach_partition:
  assumes r: "kmem_reach alloc kend s0 s" and s0: "partition_ok kend S s0 fl0"
    and alloc: "\<And>s fl p s'. partition_ok kend S s fl \<Longrightarrow> alloc s = Some (p, s') \<Longrightarrow>
      \<exists>fl'. partition_ok kend S s' fl'"
  shows "\<exists>fl. partition_ok kend S s fl"
  using r
proof (induction rule: kmem_reach.induct)
  case start
  with s0 show ?case by blast
next
  case (alloc s p s')
  with assms(3) show ?case by blast
next
  case (free s p s')
  with partition_free show ?case by (metis option.inject)
next
  case (store s a w)
  with partition_store show ?case by blast
next
  case (seed s x)
  then show ?case by (auto simp: xv6_srand_def partition_ok_def free_ok_def)
qed

lemma page_set_apart:
  assumes "p \<in> page_set 8192 b" "q \<in> page_set 8192 b"
  shows "p + PGSIZE \<noteq> q"
proof
  assume eq: "p + PGSIZE = q"
  from assms(1) obtain k where k: "unat p = b + k * 8192" "unat p + 4096 \<le> unat PHYSTOP"
    by (rule page_set_above)
  from assms(2) obtain l where l: "unat q = b + l * 8192" by (rule page_set_above)
  have "unat (p + PGSIZE) = unat p + 4096"
    using k(2) by (simp add: PGSIZE_def PHYSTOP_def unat_word_ariths take_bit_nat_eq_self)
  with eq k l have "k * 8192 + 4096 = l * 8192" by simp
  then have "2 * k + 1 = 2 * l" by simp
  then show False by presburger
qed

section \<open>The random number generator\<close>

text \<open>The three stages of the generator have inverses, so it can be run backwards.\<close>

lemma push_bit_big: "32 \<le> n \<Longrightarrow> push_bit n (x :: u32) = 0"
  by (rule bit_eqI) (simp add: bit_simps)

lemma drop_bit_big: "32 \<le> n \<Longrightarrow> drop_bit n (x :: u32) = 0"
  by (rule bit_eqI) (auto simp: bit_simps dest: bit_imp_le_length)

lemma stage13: "x XOR push_bit 13 x = y \<Longrightarrow> x = y XOR push_bit 13 y XOR push_bit 26 y" for x y :: u32
  by (drule sym, rule bit_eqI) (auto simp: bit_simps)
lemma stage17: "x XOR drop_bit 17 x = y \<Longrightarrow> x = y XOR drop_bit 17 y" for x y :: u32
  by (drule sym, rule bit_eqI) (auto simp: bit_simps dest: bit_imp_le_length)
lemma stage5: 
  fixes x y :: u32
  assumes "x XOR push_bit 5 x = y" 
  shows "x = y XOR push_bit 5 y XOR push_bit 10 y XOR push_bit 15 y XOR push_bit 20 y XOR push_bit 25 y XOR push_bit 30 y"
proof -
  have p: "push_bit 5 y = push_bit 5 x XOR push_bit 10 x" 
   "push_bit 10 y = push_bit 10 x XOR push_bit 15 x" 
   "push_bit 15 y = push_bit 15 x XOR push_bit 20 x" 
   "push_bit 20 y = push_bit 20 x XOR push_bit 25 x" 
   "push_bit 25 y = push_bit 25 x XOR push_bit 30 x" 
   "push_bit 30 y = push_bit 30 x" 
    by (simp_all add: push_bit_xor push_bit_big flip: assms)
  have e: "(x XOR a) XOR (a XOR b) XOR (b XOR c) XOR (c XOR d) XOR (d XOR e) XOR (e XOR f) XOR f = x"
    for a b c d e f :: u32
    by (rule bit_eqI) (auto simp: bit_simps)
  show ?thesis unfolding p unfolding assms [symmetric] by (rule e [symmetric])
qed

lemma xorshift_back:
  assumes "xorshift a = y"
  shows "a = (let z = y XOR push_bit 5 y XOR push_bit 10 y XOR push_bit 15 y XOR push_bit 20 y
      XOR push_bit 25 y XOR push_bit 30 y; w = z XOR drop_bit 17 z
    in w XOR push_bit 13 w XOR push_bit 26 w)"
proof -
  define b where "b = a XOR push_bit 13 a"
  define c where "c = b XOR drop_bit 17 b"
  have "c XOR push_bit 5 c = y" using assms by (simp add: xorshift_def b_def c_def Let_def)
  from stage5 [OF this] stage17 [OF c_def [symmetric]] stage13 [OF b_def [symmetric]]
  show ?thesis by (simp only: Let_def)
qed

lemma xorshift_zero: "xorshift a mod (XV6_RAND_MAX + 1) = 0 \<longleftrightarrow> a = 0 \<or> a = 0x88004000"
proof
  assume "xorshift a mod (XV6_RAND_MAX + 1) = 0"
  then have "unat (xorshift a) mod 2147483648 = 0"
    by (simp add: XV6_RAND_MAX_def word_unat_eq_iff unat_mod_distrib)
  moreover have "unat (xorshift a) < 2 * 2147483648"
    using unsigned_less [where 'b = 32, of "xorshift a"] by simp
  moreover from calculation(1) obtain k where k: "unat (xorshift a) = 2147483648 * k"
    by (auto simp: mod_eq_0_iff_dvd elim: dvdE)
  ultimately have "k < 2" by simp
  then have "k = 0 \<or> k = 1" by arith
  with k have "unat (xorshift a) = 0 \<or> unat (xorshift a) = 2147483648" by auto
  then have "xorshift a = 0 \<or> xorshift a = 2147483648" by (auto simp: word_unat_eq_iff)
  then show "a = 0 \<or> a = 0x88004000"
  proof
    assume "xorshift a = 0"
    from xorshift_back [OF this] show ?thesis by (simp add: Let_def)
  next
    assume "xorshift a = 2147483648"
    note xorshift_back [OF this]
    also have "(let z = (2147483648 :: u32) XOR push_bit 5 2147483648 XOR push_bit 10 2147483648
        XOR push_bit 15 2147483648 XOR push_bit 20 2147483648 XOR push_bit 25 2147483648
        XOR push_bit 30 2147483648; w = z XOR drop_bit 17 z
      in w XOR push_bit 13 w XOR push_bit 26 w) = 0x88004000" by (simp add: Let_def)
    finally show ?thesis by simp
  qed
next
  have "xorshift 0 mod (XV6_RAND_MAX + 1) = 0" "xorshift 0x88004000 mod (XV6_RAND_MAX + 1) = 0"
    by (simp_all add: xorshift_def XV6_RAND_MAX_def Let_def)
  then show "a = 0 \<or> a = 0x88004000 \<Longrightarrow> xorshift a mod (XV6_RAND_MAX + 1) = 0" by (elim disjE) simp_all
qed

lemma rand_range: "unat (x mod (XV6_RAND_MAX + 1)) < 2147483648"
  by (simp add: XV6_RAND_MAX_def unat_mod_distrib)

lemma sint_small: "uint a < 2 ^ 31 \<Longrightarrow> sint (a :: u32) = uint a"
proof -
  assume u: "uint a < 2 ^ 31"
  have "- (2 ^ 31) \<le> uint a" by (rule order_trans [of _ 0]) simp_all
  from signed_take_bit_int_eq_self [OF this u] show ?thesis by (simp add: sint_uint)
qed

text \<open>The values of \<open>n\<close> calls.\<close>

fun rand_values :: "nat \<Rightarrow> kmem \<Rightarrow> int list" where
  "rand_values 0 s = []"
| "rand_values (Suc n) s = (let (x, s') = xv6_rand s in x # rand_values n s')"

lemma xv6_rand_value:
  "xv6_rand s = (x, s') \<Longrightarrow> x = uint (rand_a s') \<and> rand_a s' = xorshift (rand_a s) mod (XV6_RAND_MAX + 1)"
proof -
  assume r: "xv6_rand s = (x, s')"
  then have a: "rand_a s' = xorshift (rand_a s) mod (XV6_RAND_MAX + 1)" and x: "x = sint (rand_a s')"
    by (auto simp: xv6_rand_def Let_def)
  have "nat (uint (rand_a s')) < 2 ^ 31" using rand_range a by (simp only: unat_eq_nat_uint [symmetric]) simp
  then have "uint (rand_a s') < 2 ^ 31" by (simp only: nat_less_iff [OF unsigned_greater_eq]) simp
  then have "sint (rand_a s') = uint (rand_a s')"
    by (rule sint_small)
  with a x show ?thesis by simp
qed


lemma xv6_rand_zero:
  assumes "xv6_rand s = (x, s')"
  shows "x = 0 \<longleftrightarrow> rand_a s = 0 \<or> rand_a s = 0x88004000" "rand_a s' = 0 \<longleftrightarrow> x = 0"
proof -
  note v = xv6_rand_value [OF assms]
  from v show "rand_a s' = 0 \<longleftrightarrow> x = 0" by (simp add: uint_0_iff)
  with v show "x = 0 \<longleftrightarrow> rand_a s = 0 \<or> rand_a s = 0x88004000"
    using xorshift_zero [of "rand_a s"] by (simp only:)
qed

lemma rand_values_zero:
  "rand_a s = 0 \<Longrightarrow> rand_values n s = replicate n 0"
proof (induction n arbitrary: s)
  case (Suc n)
  obtain x s' where r: "xv6_rand s = (x, s')" by fastforce
  with xv6_rand_zero [OF r] Suc.prems have "rand_a s' = 0" "x = 0" by simp_all
  with r Suc.IH show ?case by simp
qed simp

lemma rand_values_pos:
  "rand_a s \<noteq> 0 \<Longrightarrow> unat (rand_a s) < 2147483648 \<Longrightarrow>
   \<forall>x \<in> set (rand_values n s). 0 < x \<and> x \<le> 2147483647"
proof (induction n arbitrary: s)
  case (Suc n)
  obtain x s' where r: "xv6_rand s = (x, s')" by fastforce
  note v = xv6_rand_value [OF r]
  have "rand_a s \<noteq> 0x88004000" using Suc.prems(2) by (rule contrapos_pn) simp
  with xv6_rand_zero [OF r] Suc.prems(1) have nz: "x \<noteq> 0" "rand_a s' \<noteq> 0" by simp_all
  have lt: "unat (rand_a s') < 2147483648" using v rand_range by metis
  have "x = int (unat (rand_a s'))" using v by simp
  with nz(1) lt have "0 < x" "x \<le> 2147483647" by linarith+
  with r Suc.IH [OF nz(2) lt] show ?case by simp
qed simp

lemma dump_loop_rev: "n \<le> i \<Longrightarrow> i \<le> length xs \<Longrightarrow> dump_loop xs i n = take n (rev (take i xs))"
proof (induction n arbitrary: i)
  case (Suc n)
  then obtain j where i: "i = Suc j" by (cases i) auto
  with Suc show ?case by (simp add: take_Suc_conv_app_nth)
qed simp

lemma partition_facts:
  assumes "partition_ok kend S s fl"
  shows "chain (pmem s) (freelist s) fl \<and> distinct (fl @ alloc_list s) \<and>
    set (fl @ alloc_list s) = S \<and> length (alloc_list s) \<le> 4096"
  using assms usable_list_length [of "alloc_list s" kend] by (auto simp: partition_ok_def free_ok_def)

section \<open>Properties\<close>

text \<open>C35.  Part A, from \<open>kinit\<close> on and over any sequence of calls, stores into allocated pages
  included: \<open>kinit\<close> returns; the free list is a null-terminated chain without repetition; free and
  allocated pages together are exactly every second page above the kernel, none is both; the
  array \<open>alloc_list\<close> holds at most 4096 entries of its million; two allocated pages are never
  neighbours; \<open>kalloc\<close> answers 0 exactly when every page is allocated; and freeing any allocated
  page does not panic.\<close>

theorem kalloc_partition:
  assumes "0 < kend" "kend \<le> PHYSTOP"
  shows "\<exists>s0. kinit kend m = Some s0 \<and>
    (\<forall>s. kmem_reach kalloc kend s0 s \<longrightarrow>
      (\<exists>fl. chain (pmem s) (freelist s) fl \<and> distinct (fl @ alloc_list s) \<and>
        set (fl @ alloc_list s) = page_set (2 * 4096) (unat (pgroundup kend)) \<and>
        length (alloc_list s) \<le> 4096 \<and>
        (\<exists>p s'. kalloc s = Some (p, s') \<and> (p = 0 \<longleftrightarrow> fl = []))) \<and>
      (\<forall>p \<in> set (alloc_list s). \<forall>q \<in> set (alloc_list s). p + PGSIZE \<noteq> q) \<and>
      (\<forall>p \<in> set (alloc_list s). kfree kend p s \<noteq> None))"
proof -
  let ?S = "page_set (2 * 4096) (unat (pgroundup kend))"
  from kinit_pages [OF assms, where stride = "2 * 4096" and m = m] obtain s0 fl0 where
    s0: "kinit kend m = Some s0" "partition_ok kend ?S s0 fl0"
    by (auto simp: kinit_def partition_ok_def)
  have "(\<exists>fl. chain (pmem s) (freelist s) fl \<and> distinct (fl @ alloc_list s) \<and>
        set (fl @ alloc_list s) = ?S \<and> length (alloc_list s) \<le> 4096 \<and>
        (\<exists>p s'. kalloc s = Some (p, s') \<and> (p = 0 \<longleftrightarrow> fl = []))) \<and>
      (\<forall>p \<in> set (alloc_list s). \<forall>q \<in> set (alloc_list s). p + PGSIZE \<noteq> q) \<and>
      (\<forall>p \<in> set (alloc_list s). kfree kend p s \<noteq> None)"
    if r: "kmem_reach kalloc kend s0 s" for s
  proof -
    obtain fl where p: "partition_ok kend ?S s fl"
      using kmem_reach_partition [OF r s0(2)] partition_alloc_a by blast
    note f = partition_facts [OF p]
    have "\<exists>p s'. kalloc s = Some (p, s') \<and> (p = 0 \<longleftrightarrow> fl = [])"
    proof (cases fl)
      case Nil
      with p kalloc_empty show ?thesis by (auto simp: partition_ok_def)
    next
      case (Cons q fl')
      with p have ok: "free_ok kend s (q # fl')" by (simp only: partition_ok_def)
      then have "q \<noteq> 0" by (simp add: free_ok_def)
      with kalloc_free_ok [OF ok] Cons show ?thesis by auto
    qed
    moreover have "p + PGSIZE \<noteq> q" if "p \<in> set (alloc_list s)" "q \<in> set (alloc_list s)" for p q
      using page_set_apart [of p "unat (pgroundup kend)" q] f that by auto
    moreover have "kfree kend p s \<noteq> None" if "p \<in> set (alloc_list s)" for p
      using partition_free [OF p that] by auto
    ultimately show ?thesis using f by blast
  qed
  with s0(1) show ?thesis by blast
qed

theorem kalloc_partition_witness:
  "\<exists>s0. kinit 0xFFC001 (\<lambda>_. 0) = Some s0 \<and> kmem_reach kalloc 0xFFC001 s0 s0 \<and>
    (\<exists>fl. set (fl @ alloc_list s0) = page_set (2 * 4096) (unat (pgroundup 0xFFC001)))"
proof -
  have "(0 :: u32) < 0xFFC001" "(0xFFC001 :: u32) \<le> PHYSTOP" by (simp_all add: PHYSTOP_def)
  from kalloc_partition [OF this, of "\<lambda>_. 0"] kmem_reach.start show ?thesis by blast
qed

text \<open>C36.  Part B: whenever a page is free, \<open>kalloc\<close> hands out the one at the position given by the
  next random number modulo the number of free pages, takes exactly it off the free list
  (all others stay, in order) and appends it to \<open>alloc_list\<close>; memory outside the free pages is
  not touched.  When no page is free, it divides by zero and does not return.\<close>

theorem kalloc_b_random_page:
  assumes ok: "free_ok kend s fl" and r: "xv6_rand s = (x, s1)"
  shows "if fl = [] then kalloc_b s = None
    else (\<exists>i s'. i = nat x mod length fl \<and> kalloc_b s = Some (fl ! i, s') \<and>
      free_ok kend s' (take i fl @ drop (Suc i) fl) \<and> alloc_list s' = alloc_list s @ [fl ! i] \<and>
      (\<forall>a. a \<notin> set fl \<longrightarrow> pmem s' a = pmem s a))"
proof (cases "fl = []")
  case True
  with ok kalloc_b_empty show ?thesis by simp
next
  case False
  with kalloc_b_free_ok [OF ok False r] show ?thesis by auto
qed

theorem kalloc_b_random_page_witness:
  "\<exists>s fl. kinit_b 0xFF0000 (\<lambda>_. 0) = Some s \<and> free_ok 0xFF0000 s fl \<and> fl \<noteq> [] \<and> (\<exists>p s'. kalloc_b s = Some (p, s'))"
proof -
  have "(0 :: u32) < 0xFF0000" "(0xFF0000 :: u32) \<le> PHYSTOP" by (simp_all add: PHYSTOP_def)
  from kinit_pages [OF this, of 4096 "\<lambda>_. 0"] obtain s fl where s: "kinit_b 0xFF0000 (\<lambda>_. 0) = Some s"
    "free_ok 0xFF0000 s fl" "set fl = page_set 4096 (unat (pgroundup 0xFF0000))"
    unfolding kinit_b_def by auto
  have "unat (pgroundup 0xFF0000) = 16711680" by (simp add: pgroundup_def PGSIZE_def)
  then have "word_of_nat 16711680 \<in> page_set 4096 (unat (pgroundup 0xFF0000))"
    using page_set_step [of 16711680 4096] by (simp add: PHYSTOP_def)
  with s(3) have ne: "fl \<noteq> []" by auto
  obtain x s1 where "xv6_rand s = (x, s1)" by fastforce
  from kalloc_b_random_page [OF s(2) this] ne s show ?thesis by auto
qed

text \<open>C37.  Part B keeps the same partition of the pages above the kernel (all of them here) over any
  sequence of calls.\<close>

theorem kalloc_b_partition:
  assumes "0 < kend" "kend \<le> PHYSTOP"
  shows "\<exists>s0. kinit_b kend m = Some s0 \<and>
    (\<forall>s. kmem_reach kalloc_b kend s0 s \<longrightarrow>
      (\<exists>fl. chain (pmem s) (freelist s) fl \<and> distinct (fl @ alloc_list s) \<and>
        set (fl @ alloc_list s) = page_set 4096 (unat (pgroundup kend)) \<and>
        length (alloc_list s) \<le> 4096) \<and>
      (\<forall>p \<in> set (alloc_list s). kfree kend p s \<noteq> None))"
proof -
  let ?S = "page_set 4096 (unat (pgroundup kend))"
  from kinit_pages [OF assms, where stride = 4096 and m = m] obtain s0 fl0 where
    s0: "kinit_b kend m = Some s0" "partition_ok kend ?S s0 fl0"
    by (auto simp: kinit_b_def partition_ok_def)
  have "(\<exists>fl. chain (pmem s) (freelist s) fl \<and> distinct (fl @ alloc_list s) \<and>
        set (fl @ alloc_list s) = ?S \<and> length (alloc_list s) \<le> 4096) \<and>
      (\<forall>p \<in> set (alloc_list s). kfree kend p s \<noteq> None)"
    if r: "kmem_reach kalloc_b kend s0 s" for s
  proof -
    obtain fl where p: "partition_ok kend ?S s fl"
      using kmem_reach_partition [OF r s0(2)] partition_alloc_b by blast
    have "kfree kend p s \<noteq> None" if "p \<in> set (alloc_list s)" for p
      using partition_free [OF p that] by auto
    with partition_facts [OF p] show ?thesis by blast
  qed
  with s0(1) show ?thesis by blast
qed

theorem kalloc_b_partition_witness:
  "\<exists>s0. kinit_b 0xFFC001 (\<lambda>_. 0) = Some s0 \<and>
    (\<exists>fl. set (fl @ alloc_list s0) = page_set 4096 (unat (pgroundup 0xFFC001)))"
proof -
  have "(0 :: u32) < 0xFFC001" "(0xFFC001 :: u32) \<le> PHYSTOP" by (simp_all add: PHYSTOP_def)
  from kalloc_b_partition [OF this, of "\<lambda>_. 0"] kmem_reach.start show ?thesis by blast
qed

text \<open>C38.  \<open>dump_allocated\<close> reports exactly the \<open>n\<close> most recently allocated frames, latest first, for
  every \<open>n\<close> up to the number of allocated frames, and fails without output for any other \<open>n\<close>.\<close>

theorem dump_allocated_recent:
  "dump_allocated n s =
    (if 0 \<le> n \<and> n \<le> int (length (alloc_list s)) then (0, take (nat n) (rev (alloc_list s))) else (-1, []))"
  by (auto simp: dump_allocated_def dump_loop_rev)

text \<open>C39.  Seeded with a number that the generator itself can produce (or unseeded), it never returns
  0 and never leaves 1 .. \<open>XV6_RAND_MAX\<close>; for an arbitrary seed the first result is 0 for
  exactly two seeds, 0 and 0x88004000, and then every result is 0.\<close>

theorem xv6_rand_zero_seeds:
  "(\<forall>seed. 0 < seed \<and> seed < 0x80000000 \<longrightarrow>
      (\<forall>x \<in> set (rand_values n (xv6_srand seed s)). 0 < x \<and> x \<le> uint XV6_RAND_MAX)) \<and>
   (\<forall>seed. fst (xv6_rand (xv6_srand seed s)) = 0 \<longleftrightarrow> seed = 0 \<or> seed = 0x88004000) \<and>
   rand_values n (xv6_srand 0 s) = replicate n 0 \<and>
   rand_values n (xv6_srand 0x88004000 s) = replicate n 0"
proof (intro conjI allI impI)
  fix seed :: u32
  assume "0 < seed \<and> seed < 0x80000000"
  then have "rand_a (xv6_srand seed s) \<noteq> 0" "unat (rand_a (xv6_srand seed s)) < 2147483648"
    by (auto simp: xv6_srand_def word_less_nat_alt)
  from rand_values_pos [OF this] show "\<forall>x \<in> set (rand_values n (xv6_srand seed s)). 0 < x \<and> x \<le> uint XV6_RAND_MAX"
    by (simp add: XV6_RAND_MAX_def)
next
  fix seed :: u32
  obtain x s' where r: "xv6_rand (xv6_srand seed s) = (x, s')" by fastforce
  from xv6_rand_zero(1) [OF r] show "fst (xv6_rand (xv6_srand seed s)) = 0 \<longleftrightarrow> seed = 0 \<or> seed = 0x88004000"
    by (simp only: r fst_conv) (simp add: xv6_srand_def)
next
  show "rand_values n (xv6_srand 0 s) = replicate n 0"
    by (rule rand_values_zero) (simp add: xv6_srand_def)
next
  show "rand_values n (xv6_srand 0x88004000 s) = replicate n 0"
  proof (cases n)
    case (Suc k)
    obtain x s' where r: "xv6_rand (xv6_srand 0x88004000 s) = (x, s')" by fastforce
    with xv6_rand_zero [OF r] have "rand_a s' = 0" "x = 0" by (simp_all add: xv6_srand_def)
    with r Suc rand_values_zero show ?thesis by simp
  qed simp
qed

theorem xv6_rand_zero_seeds_witness:
  "fst (xv6_rand (xv6_srand 1 (kmem0 (\<lambda>_. 0)))) \<noteq> 0"
  using xv6_rand_zero_seeds [of 0 "kmem0 (\<lambda>_. 0)"] by simp

end
