(* ===== verification/Runs.thy ===== *)
theory Runs imports Prelude
begin

text \<open>
  Code that can end a process: a run yields a value, ends the program with an exit status or error
  message, leaves the defined behaviour of C (an access outside an object, an indeterminate
  value), or has used up its fuel.  Loops over a list of loop values, and the facts about them that the
  component theories share.
\<close>

section \<open>Definitions\<close>

datatype ('e, 'a) run = Ok 'a | Exit 'e | Crash | Hang

fun and_then :: "('e, 'a) run \<Rightarrow> ('a \<Rightarrow> ('e, 'b) run) \<Rightarrow> ('e, 'b) run" where
  "and_then (Ok a) f = f a"
| "and_then (Exit e) f = Exit e"
| "and_then Crash f = Crash"
| "and_then Hang f = Hang"

fun need :: "'a option \<Rightarrow> ('e, 'a) run" where
  "need None = Crash"
| "need (Some a) = Ok a"

fun for_each :: "('x \<Rightarrow> 's \<Rightarrow> ('e, 's) run) \<Rightarrow> 'x list \<Rightarrow> 's \<Rightarrow> ('e, 's) run" where
  "for_each f [] s = Ok s"
| "for_each f (x # xs) s = and_then (f x s) (for_each f xs)"

section \<open>Reasoning about runs\<close>

lemma and_then_Ok [simp]: "and_then r f = Ok b \<longleftrightarrow> (\<exists>a. r = Ok a \<and> f a = Ok b)"
  by (cases r) auto

lemma need_Ok [simp]: "need x = Ok a \<longleftrightarrow> x = Some a"
  by (cases x) auto

lemma need_not_Exit [simp]: "need x \<noteq> Exit e" "need x \<noteq> Hang"
  by (cases x; simp)+

lemma and_then_Hang: "and_then r f = Hang \<longleftrightarrow> r = Hang \<or> (\<exists>a. r = Ok a \<and> f a = Hang)"
  by (cases r) auto

lemma and_then_Exit: "and_then r f = Exit e \<longleftrightarrow> r = Exit e \<or> (\<exists>a. r = Ok a \<and> f a = Exit e)"
  by (cases r) auto

lemma for_each_append: "for_each f (xs @ ys) s = and_then (for_each f xs s) (for_each f ys)"
proof (induction xs arbitrary: s)
  case (Cons x xs)
  then show ?case by (cases "f x s") auto
qed simp

lemma for_each_inv:
  assumes "for_each f xs s = Ok t" "P s"
    and "\<And>x s s'. x \<in> set xs \<Longrightarrow> P s \<Longrightarrow> f x s = Ok s' \<Longrightarrow> P s'"
  shows "P t"
  using assms
proof (induction xs arbitrary: s)
  case (Cons x xs)
  from Cons.prems(1) obtain u where u: "f x s = Ok u" "for_each f xs u = Ok t" by auto
  show ?case
  proof (rule Cons.IH [OF u(2)])
    show "P u" by (rule Cons.prems(3) [OF _ Cons.prems(2) u(1)]) simp
    show "P s'" if "x \<in> set xs" "P s" "f x s = Ok s'" for x s s'
      by (rule Cons.prems(3) [OF _ that(2,3)]) (simp add: that(1))
  qed
qed simp

lemma for_each_all:
  assumes "for_each f xs s = Ok t" "P s"
    and "\<And>x s s'. x \<in> set xs \<Longrightarrow> P s \<Longrightarrow> f x s = Ok s' \<Longrightarrow> P s' \<and> Q x"
  shows "\<forall>x \<in> set xs. Q x"
  using assms
proof (induction xs arbitrary: s)
  case (Cons x xs)
  from Cons.prems(1) obtain u where u: "f x s = Ok u" "for_each f xs u = Ok t" by auto
  have pu: "P u \<and> Q x" by (rule Cons.prems(3) [OF _ Cons.prems(2) u(1)]) simp
  have "\<forall>x \<in> set xs. Q x"
  proof (rule Cons.IH [OF u(2)])
    show "P u" using pu by blast
    show "P s' \<and> Q x" if "x \<in> set xs" "P s" "f x s = Ok s'" for x s s'
      by (rule Cons.prems(3) [OF _ that(2,3)]) (simp add: that(1))
  qed
  with pu show ?case by simp
qed simp

text \<open>
  A loop that marks the keys of its items and refuses a key that is already marked has seen
  pairwise different keys.
\<close>

lemma for_each_keys:
  assumes "for_each f xs s = Ok t"
    and step: "\<And>x s s'. x \<in> set xs \<Longrightarrow> f x s = Ok s' \<Longrightarrow> (\<forall>a. M s a \<longrightarrow> M s' a) \<and>
      distinct (keys x) \<and> (\<forall>a \<in> set (keys x). \<not> M s a \<and> M s' a)"
  shows "(\<forall>a. M s a \<longrightarrow> M t a) \<and> distinct (concat (map keys xs)) \<and>
    (\<forall>a \<in> set (concat (map keys xs)). \<not> M s a \<and> M t a)"
  using assms
proof (induction xs arbitrary: s)
  case (Cons x xs)
  from Cons.prems(1) obtain u where u: "f x s = Ok u" "for_each f xs u = Ok t" by auto
  from Cons.prems(2) [OF _ u(1)] have x: "\<forall>a. M s a \<longrightarrow> M u a" "distinct (keys x)"
    "\<forall>a \<in> set (keys x). \<not> M s a \<and> M u a" by auto
  have "(\<forall>a. M u a \<longrightarrow> M t a) \<and> distinct (concat (map keys xs)) \<and>
    (\<forall>a \<in> set (concat (map keys xs)). \<not> M u a \<and> M t a)"
    by (rule Cons.IH [OF u(2)], rule Cons.prems(2)) auto
  with x show ?case by auto
qed simp

end
