(* ===== verification/Bytes.thy ===== *)
theory Bytes imports Prelude
begin

text \<open>
  Little-endian integers in byte sequences, as the x86 structures of the file system image are laid
  out, and images: a byte function with a length.  A read outside the image is \<open>None\<close>.
\<close>

section \<open>Definitions\<close>

definition le16 :: "(nat \<Rightarrow> u8) \<Rightarrow> nat \<Rightarrow> u16" where
  "le16 b a = ucast (b a) OR push_bit 8 (ucast (b (a + 1)))"

definition le32 :: "(nat \<Rightarrow> u8) \<Rightarrow> nat \<Rightarrow> u32" where
  "le32 b a = ucast (b a) OR push_bit 8 (ucast (b (a + 1))) OR push_bit 16 (ucast (b (a + 2)))
     OR push_bit 24 (ucast (b (a + 3)))"

definition byte_of :: "nat \<Rightarrow> 'a::len word \<Rightarrow> u8" where
  "byte_of k w = ucast (drop_bit (8 * k) w)"

definition put16 :: "(nat \<Rightarrow> u8) \<Rightarrow> nat \<Rightarrow> u16 \<Rightarrow> nat \<Rightarrow> u8" where
  "put16 b a w = b(a := byte_of 0 w, a + 1 := byte_of 1 w)"

definition put32 :: "(nat \<Rightarrow> u8) \<Rightarrow> nat \<Rightarrow> u32 \<Rightarrow> nat \<Rightarrow> u8" where
  "put32 b a w = b(a := byte_of 0 w, a + 1 := byte_of 1 w, a + 2 := byte_of 2 w, a + 3 := byte_of 3 w)"

record image =
  img_len :: nat
  img_at :: "nat \<Rightarrow> u8"

definition rd8 :: "image \<Rightarrow> nat \<Rightarrow> u8 option" where
  "rd8 im a = (if a < img_len im then Some (img_at im a) else None)"

definition rd16 :: "image \<Rightarrow> nat \<Rightarrow> u16 option" where
  "rd16 im a = (if a + 2 \<le> img_len im then Some (le16 (img_at im) a) else None)"

definition rd32 :: "image \<Rightarrow> nat \<Rightarrow> u32 option" where
  "rd32 im a = (if a + 4 \<le> img_len im then Some (le32 (img_at im) a) else None)"

section \<open>Round trips\<close>

lemma le16_put16 [simp]: "le16 (put16 b a w) a = w"
  by (rule bit_eqI)
    (auto simp: le16_def put16_def byte_of_def bit_simps dest: bit_imp_le_length intro: le_neq_trans)

lemma le32_put32 [simp]: "le32 (put32 b a w) a = w"
proof (rule bit_eqI)
  fix n assume "possible_bit TYPE(u32) n"
  then have "n < 32" by simp
  then consider "n < 8" | "8 \<le> n" "n < 16" | "16 \<le> n" "n < 24" | "24 \<le> n" "n < 32" by fastforce
  then show "bit (le32 (put32 b a w) a) n = bit w n"
    by cases (auto simp: le32_def put32_def byte_of_def bit_simps)
qed

lemma put16_other: "c \<noteq> a \<Longrightarrow> c \<noteq> a + 1 \<Longrightarrow> put16 b a w c = b c"
  by (simp add: put16_def)

lemma put32_other: "c < a \<or> a + 4 \<le> c \<Longrightarrow> put32 b a w c = b c"
  by (auto simp: put32_def)

lemma le32_cong: "(\<And>k. k < 4 \<Longrightarrow> b (a + k) = c (a + k)) \<Longrightarrow> le32 b a = le32 c a"
proof -
  assume k: "\<And>k. k < 4 \<Longrightarrow> b (a + k) = c (a + k)"
  from k [of 0] k [of 1] k [of 2] k [of 3] show ?thesis by (simp add: le32_def)
qed

lemma le32_put32_other: "c + 4 \<le> a \<or> a + 4 \<le> c \<Longrightarrow> le32 (put32 b a w) c = le32 b c"
  by (auto simp: le32_def put32_other)

lemma le16_put32_other: "c + 2 \<le> a \<or> a + 4 \<le> c \<Longrightarrow> le16 (put32 b a w) c = le16 b c"
  by (auto simp: le16_def put32_other)

lemma le16_put16_other: "c + 2 \<le> a \<or> a + 2 \<le> c \<Longrightarrow> le16 (put16 b a w) c = le16 b c"
  by (auto simp: le16_def put16_other)

lemma le32_put16_other: "c + 4 \<le> a \<or> a + 2 \<le> c \<Longrightarrow> le32 (put16 b a w) c = le32 b c"
  by (auto simp: le32_def put16_other)

end
