(* ===== verification/Fsck.thy ===== *)
theory Fsck imports Runs Bytes
begin

text \<open>
  The file system checker (\<open>File System Checker/xfsck.c\<close>): the image is a byte function with a
  length, every read outside of it ends in \<open>Crash\<close>, and so does every access outside of the
  tables the checker allocates.  The tables come from \<open>malloc\<close>, so their initial contents are a
  parameter.  The error messages are the values of \<open>fsck_error\<close>; the walk to the root
  directory may not end, so the checker takes fuel for it and \<open>Hang\<close> is "still walking".
\<close>

section \<open>Definitions\<close>

subsection \<open>On-disk structures\<close>

definition BSIZE :: nat where "BSIZE = 512"
definition NDIRECT :: nat where "NDIRECT = 12"
definition NINDIRECT :: nat where "NINDIRECT = 128"
definition BITMAPBLOCK :: nat where "BITMAPBLOCK = 28"
definition dirent_per_block :: nat where "dirent_per_block = 32"

definition T_DIR :: u16 where "T_DIR = 1"
definition T_FILE :: u16 where "T_FILE = 2"
definition T_DEV :: u16 where "T_DEV = 3"

record superblock =
  sb_size :: u32
  sb_nblocks :: u32
  sb_ninodes :: u32

definition read_sb :: "image \<Rightarrow> superblock option" where
  "read_sb im = do {
     n \<leftarrow> rd32 im BSIZE; b \<leftarrow> rd32 im (BSIZE + 4); i \<leftarrow> rd32 im (BSIZE + 8);
     Some \<lparr>sb_size = n, sb_nblocks = b, sb_ninodes = i\<rparr> }"

text \<open>Fields of inode number \<open>i\<close> (64 bytes each from block 2 on), the byte offset of a
  block (the product is 32 bits wide), directory entries of 16 bytes.\<close>

definition inode_type :: "image \<Rightarrow> nat \<Rightarrow> u16 option" where
  "inode_type im i = rd16 im (2 * BSIZE + 64 * i)"

definition inode_nlink :: "image \<Rightarrow> nat \<Rightarrow> u16 option" where
  "inode_nlink im i = rd16 im (2 * BSIZE + 64 * i + 6)"

definition inode_size :: "image \<Rightarrow> nat \<Rightarrow> u32 option" where
  "inode_size im i = rd32 im (2 * BSIZE + 64 * i + 8)"

definition inode_addr :: "image \<Rightarrow> nat \<Rightarrow> nat \<Rightarrow> u32 option" where
  "inode_addr im i j = rd32 im (2 * BSIZE + 64 * i + 12 + 4 * j)"

definition block_start :: "u32 \<Rightarrow> nat" where
  "block_start a = unat (512 * a)"

definition indirect_at :: "image \<Rightarrow> u32 \<Rightarrow> nat \<Rightarrow> u32 option" where
  "indirect_at im a k = rd32 im (block_start a + 4 * k)"

definition dirents_of :: "u32 \<Rightarrow> nat list" where
  "dirents_of a = map (\<lambda>k. block_start a + 16 * k) [0..<dirent_per_block]"

definition dirent_inum :: "image \<Rightarrow> nat \<Rightarrow> nat option" where
  "dirent_inum im p = map_option unat (rd16 im p)"

text \<open>\<open>strcmp (name, s) == 0\<close> for the name of the entry.\<close>

fun strcmp_is :: "image \<Rightarrow> nat \<Rightarrow> u8 list \<Rightarrow> bool option" where
  "strcmp_is im p [] = map_option (\<lambda>b. b = 0) (rd8 im p)"
| "strcmp_is im p (c # cs) = do { b \<leftarrow> rd8 im p; if b = c then strcmp_is im (p + 1) cs else Some False }"

definition is_dot :: "image \<Rightarrow> nat \<Rightarrow> bool option" where
  "is_dot im p = strcmp_is im (p + 2) [46]"

definition is_dotdot :: "image \<Rightarrow> nat \<Rightarrow> bool option" where
  "is_dotdot im p = strcmp_is im (p + 2) [46, 46]"

subsection \<open>State of the checker\<close>

datatype fsck_error = BadInode | BadDirect | MarkedFree | DirectTwice | BadIndirect | IndirectTwice
  | BadFormat | Inaccessible | ParentMismatch | DirTwice | RefFree | NotFound | BadRefCount
  | BadSuperblock | BitmapInUse | BadSize | ExitCode

record fsck =
  f_direct :: "int list"
  f_indirect :: "int list"
  f_count :: int
  f_badsize :: bool
  f_exit :: bool
  f_pointed :: "int list"
  f_files :: "int list"
  f_dirs :: "int list"
  f_index :: "int list"
  f_numdir :: int

type_synonym 'a checked = "(fsck_error, 'a) run"

subsection \<open>Block addresses of an inode\<close>

definition in_range :: "superblock \<Rightarrow> u32 \<Rightarrow> bool" where
  "in_range sb a \<longleftrightarrow> \<not> (a < sb_size sb - sb_nblocks sb \<or> a > sb_size sb - 1)"

text \<open>The bit of a block: the word index is taken modulo \<open>BSIZE / BIT = 16\<close>.\<close>

definition bitmap_bit :: "image \<Rightarrow> u32 \<Rightarrow> bool option" where
  "bitmap_bit im a =
     map_option (\<lambda>mask. bit mask (unat a mod 32))
       (rd32 im (BSIZE * BITMAPBLOCK + 4 * (unat a div 32 mod 16)))"

definition direct_addr :: "image \<Rightarrow> superblock \<Rightarrow> u32 \<Rightarrow> int \<times> fsck \<Rightarrow> (int \<times> fsck) checked" where
  "direct_addr im sb a us =
     (case us of (used, st) \<Rightarrow>
      if a = 0 then Ok (used, st)
      else if \<not> in_range sb a then Exit BadDirect
      else and_then (need (bitmap_bit im a)) (\<lambda>b.
        if \<not> b then Exit MarkedFree
        else and_then (need (c_index (f_direct st) (uint a))) (\<lambda>v.
          if v \<noteq> 0 then Exit DirectTwice
          else Ok (used + 1, st\<lparr>f_count := f_count st + 1,
                 f_direct := (f_direct st)[unat a := 1]\<rparr>))))"

definition indirect_addr :: "image \<Rightarrow> superblock \<Rightarrow> u32 \<Rightarrow> int \<times> fsck \<Rightarrow> (int \<times> fsck) checked" where
  "indirect_addr im sb a us =
     (case us of (used, st) \<Rightarrow>
      if a = 0 then Ok (used, st)
      else if \<not> in_range sb a then Exit BadIndirect
      else and_then (need (bitmap_bit im a)) (\<lambda>b.
        if \<not> b then Exit MarkedFree
        else and_then (need (c_index (f_indirect st) (uint a))) (\<lambda>v.
          if v \<noteq> 0 then Exit IndirectTwice
          else Ok (used + 1, st\<lparr>f_count := f_count st + 1,
                 f_indirect := (f_indirect st)[unat a := 1]\<rparr>))))"

text \<open>The indirect block: its own address is only entered in the table; the entries are read even
  when the address is 0, from the first block of the image.\<close>

definition indirect_self :: "u32 \<Rightarrow> fsck \<Rightarrow> fsck checked" where
  "indirect_self a st =
     (if a = 0 then Ok st
      else and_then (need (c_index (f_indirect st) (uint a))) (\<lambda>v.
        if v \<noteq> 0 then Exit IndirectTwice
        else Ok (st\<lparr>f_count := f_count st + 1, f_indirect := (f_indirect st)[unat a := 1]\<rparr>)))"

definition indirect_block :: "image \<Rightarrow> superblock \<Rightarrow> u32 \<Rightarrow> int \<times> fsck \<Rightarrow> (int \<times> fsck) checked" where
  "indirect_block im sb a us =
     (case us of (used, st) \<Rightarrow>
      and_then (indirect_self a st) (\<lambda>st.
        for_each (\<lambda>k us. and_then (need (indirect_at im a k)) (\<lambda>v. indirect_addr im sb v us))
          [0..<NINDIRECT] (used, st)))"

definition bad_size :: "u32 \<Rightarrow> int \<Rightarrow> bool" where
  "bad_size sz used \<longleftrightarrow> sz \<noteq> 0 \<and>
     (sz \<le> word_of_int ((used - 1) * 512) \<or> sz > word_of_int (used * 512))"

definition inode_blocks :: "image \<Rightarrow> superblock \<Rightarrow> nat \<Rightarrow> fsck \<Rightarrow> fsck checked" where
  "inode_blocks im sb i st =
     and_then (for_each (\<lambda>j us. and_then (need (inode_addr im i j)) (\<lambda>a. direct_addr im sb a us))
         [0..<NDIRECT] (0, st)) (\<lambda>us.
     and_then (need (inode_addr im i NDIRECT)) (\<lambda>ia.
     and_then (indirect_block im sb ia us) (\<lambda>(used, st).
     and_then (need (inode_type im i)) (\<lambda>t.
       if t = T_FILE
       then and_then (need (inode_size im i)) (\<lambda>sz.
              Ok (if bad_size sz used then st\<lparr>f_badsize := True\<rparr> else st))
       else Ok st))))"

subsection \<open>Directories\<close>

text \<open>One pass of the walk to the root: it follows every \<open>..\<close> entry it meets, starting from the blocks
  of inode \<open>c\<close>; \<open>inode_bits\<close> holds 200 entries of which only that of \<open>inum\<close> is set.  A \<open>break\<close>
  leaves the loop over the entries of one block only.\<close>

fun root_entries :: "image \<Rightarrow> nat \<Rightarrow> nat list \<Rightarrow> nat \<times> bool \<Rightarrow> (nat \<times> bool) checked" where
  "root_entries im inum [] cf = Ok cf"
| "root_entries im inum (p # ps) (c, f) =
     and_then (need (is_dotdot im p)) (\<lambda>dd.
       if \<not> dd then root_entries im inum ps (c, f)
       else and_then (need (dirent_inum im p)) (\<lambda>i.
         if i = 1 then Ok (c, True)
         else if i \<ge> 200 then Crash
         else if i = inum then Exit Inaccessible
         else root_entries im inum ps (i, f)))"

definition root_pass :: "image \<Rightarrow> nat \<Rightarrow> nat \<Rightarrow> (nat \<times> bool) checked" where
  "root_pass im inum c =
     and_then (for_each (\<lambda>n (c, f). and_then (need (inode_addr im c n)) (\<lambda>a.
         root_entries im inum (dirents_of a) (c, f))) [0..<NDIRECT] (c, False)) (\<lambda>(c, f).
     and_then (need (inode_addr im c NDIRECT)) (\<lambda>ia.
       for_each (\<lambda>k cf. and_then (need (indirect_at im ia k)) (\<lambda>a.
         root_entries im inum (dirents_of a) cf)) [0..<NINDIRECT] (c, f)))"

fun root_search :: "nat \<Rightarrow> image \<Rightarrow> nat \<Rightarrow> nat \<Rightarrow> unit checked" where
  "root_search 0 im inum c = Hang"
| "root_search (Suc fuel) im inum c =
     and_then (root_pass im inum c) (\<lambda>(c', found). if found then Ok () else root_search fuel im inum c')"

text \<open>The search for an entry of the parent directory that points back to \<open>inum\<close>.\<close>

definition back_entries :: "image \<Rightarrow> nat \<Rightarrow> u32 \<Rightarrow> bool \<Rightarrow> bool checked" where
  "back_entries im inum a found =
     for_each (\<lambda>p found. and_then (need (dirent_inum im p)) (\<lambda>i. Ok (found \<or> i = inum)))
       (dirents_of a) found"

definition find_back :: "image \<Rightarrow> nat \<Rightarrow> nat \<Rightarrow> bool checked" where
  "find_back im inum parent =
     and_then (for_each (\<lambda>n found. and_then (need (inode_addr im parent n)) (\<lambda>a.
         back_entries im inum a found)) [0..<NDIRECT] False) (\<lambda>found.
     and_then (need (inode_addr im parent NDIRECT)) (\<lambda>ia.
       for_each (\<lambda>k found. and_then (need (indirect_at im ia k)) (\<lambda>a.
         back_entries im inum a found)) [0..<NINDIRECT] found))"

definition bump :: "int list \<Rightarrow> nat \<Rightarrow> (int list) checked" where
  "bump xs i = and_then (need (c_index xs (int i))) (\<lambda>v. Ok (xs[i := v + 1]))"

text \<open>A directory entry whose inode is a directory.\<close>

definition subdir_entry :: "nat \<Rightarrow> image \<Rightarrow> nat \<Rightarrow> nat \<Rightarrow> bool \<Rightarrow> bool \<Rightarrow> fsck \<Rightarrow> fsck checked" where
  "subdir_entry fuel im inum ino dot dotdot st =
     and_then (if dot \<and> ino \<noteq> inum then Exit BadFormat else Ok ()) (\<lambda>_.
     and_then (if dotdot \<and> ino \<noteq> 1
               then (if inum \<ge> 200 then Crash else root_search fuel im inum ino) else Ok ()) (\<lambda>_.
     and_then (if dotdot
               then and_then (find_back im inum ino) (\<lambda>found. if found then Ok () else Exit ParentMismatch)
               else Ok ()) (\<lambda>_.
     and_then (need (c_index (f_dirs st) (int ino))) (\<lambda>v.
       if v \<ge> 1 \<and> \<not> dotdot \<and> \<not> dot then Exit DirTwice
       else if \<not> dotdot \<and> \<not> dot then Ok (st\<lparr>f_dirs := (f_dirs st)[ino := v + 1]\<rparr>)
       else Ok st))))"

definition count_entry :: "nat \<Rightarrow> image \<Rightarrow> nat \<Rightarrow> nat \<Rightarrow> bool \<Rightarrow> bool \<Rightarrow> u16 \<Rightarrow> fsck \<Rightarrow> fsck checked" where
  "count_entry fuel im inum ino dot dotdot t st =
     (if t = T_FILE then and_then (bump (f_files st) ino) (\<lambda>fs. Ok (st\<lparr>f_files := fs\<rparr>))
      else if t = T_DIR then subdir_entry fuel im inum ino dot dotdot st
      else Ok st)"

definition used_entry :: "nat \<Rightarrow> image \<Rightarrow> nat \<Rightarrow> nat \<Rightarrow> bool \<Rightarrow> bool \<Rightarrow> fsck \<Rightarrow> fsck checked" where
  "used_entry fuel im inum ino dot dotdot st =
     and_then (need (inode_type im ino)) (\<lambda>t.
     and_then (count_entry fuel im inum ino dot dotdot t st) (\<lambda>st.
       if t = 0 then Exit RefFree
       else
         and_then (if \<not> dot \<and> \<not> dotdot
                   then and_then (bump (f_pointed st) ino) (\<lambda>ps. Ok (st\<lparr>f_pointed := ps\<rparr>))
                   else Ok st) (\<lambda>st.
         and_then (need (c_update (f_index st) (int ino) (f_numdir st))) (\<lambda>ix.
           Ok (st\<lparr>f_index := ix, f_numdir := f_numdir st + 1\<rparr>)))))"

definition dir_entry :: "nat \<Rightarrow> image \<Rightarrow> nat \<Rightarrow> nat \<Rightarrow> int \<times> fsck \<Rightarrow> (int \<times> fsck) checked" where
  "dir_entry fuel im inum p cst =
     (case cst of (cnt, st) \<Rightarrow>
      and_then (need (dirent_inum im p)) (\<lambda>ino.
      and_then (need (is_dot im p)) (\<lambda>dot.
      and_then (need (is_dotdot im p)) (\<lambda>dotdot.
      and_then (if ino = 0 then Ok st else used_entry fuel im inum ino dot dotdot st) (\<lambda>st.
        if dot \<or> dotdot
        then Ok (cnt + 1, if dot \<and> ino \<noteq> inum then st\<lparr>f_exit := True\<rparr> else st)
        else Ok (cnt, st))))))"

text \<open>An entry in an indirect block of a directory: for an entry in use the code goes on with a
  pointer that was never set.\<close>

definition dir_indirect_entry :: "image \<Rightarrow> nat \<Rightarrow> nat \<Rightarrow> int \<times> fsck \<Rightarrow> (int \<times> fsck) checked" where
  "dir_indirect_entry im inum p cst =
     (case cst of (cnt, st) \<Rightarrow>
      and_then (need (dirent_inum im p)) (\<lambda>ino.
      and_then (need (is_dot im p)) (\<lambda>dot.
      and_then (need (is_dotdot im p)) (\<lambda>dotdot.
        if dot \<and> ino \<noteq> inum then Exit BadFormat
        else if ino \<noteq> 0 then Crash
        else Ok (if dot \<or> dotdot then cnt + 1 else cnt, st)))))"

definition directory :: "nat \<Rightarrow> image \<Rightarrow> nat \<Rightarrow> fsck \<Rightarrow> fsck checked" where
  "directory fuel im inum st =
     and_then (for_each (\<lambda>j cst. and_then (need (inode_addr im inum j)) (\<lambda>a.
         if a = 0 then Ok cst else for_each (dir_entry fuel im inum) (dirents_of a) cst))
       [0..<NDIRECT] (0, st)) (\<lambda>cst.
     and_then (need (inode_addr im inum NDIRECT)) (\<lambda>ia.
     and_then (if ia = 0 then Ok cst
       else for_each (\<lambda>k cst. and_then (need (indirect_at im ia k)) (\<lambda>a.
         for_each (dir_indirect_entry im inum) (dirents_of a) cst)) [0..<NINDIRECT] cst)
     (\<lambda>(cnt, st). if cnt \<noteq> 2 then Exit BadFormat else Ok st)))"

subsection \<open>The program\<close>

definition check_inode :: "nat \<Rightarrow> image \<Rightarrow> superblock \<Rightarrow> nat \<Rightarrow> fsck \<Rightarrow> fsck checked" where
  "check_inode fuel im sb i st =
     and_then (need (inode_type im i)) (\<lambda>t.
       if t \<noteq> 0 \<and> t \<noteq> T_FILE \<and> t \<noteq> T_DIR \<and> t \<noteq> T_DEV then Exit BadInode
       else
         and_then (if t \<noteq> 0 then inode_blocks im sb i st else Ok st) (\<lambda>st.
           if t = T_DIR then directory fuel im i st else Ok st))"

definition bitmap_in_use :: "image \<Rightarrow> superblock \<Rightarrow> int checked" where
  "bitmap_in_use im sb =
     for_each (\<lambda>i n.
       and_then (need (rd32 im (BSIZE * BITMAPBLOCK + 4 * (i div 32)))) (\<lambda>target.
         if int i \<ge> sint (sb_size sb) - sint (sb_nblocks sb) \<and> int i < sint (sb_size sb) \<and>
            bit target (i mod 32)
         then Ok (n + 1) else Ok n)) [0..<8 * BSIZE] 0"

definition check_refs :: "image \<Rightarrow> nat \<Rightarrow> fsck \<Rightarrow> fsck checked" where
  "check_refs im i st =
     and_then (need (inode_type im i)) (\<lambda>t.
     and_then (if i \<noteq> 0 \<and> i \<noteq> 1
               then and_then (need (c_index (f_pointed st) (int i))) (\<lambda>n.
                      if n < 1 \<and> t \<noteq> 0 then Exit NotFound else Ok ())
               else Ok ()) (\<lambda>_.
       if t = T_FILE
       then and_then (need (c_index (f_files st) (int i))) (\<lambda>n.
            and_then (need (inode_nlink im i)) (\<lambda>nlink.
              if n \<noteq> sint nlink then Exit BadRefCount else Ok st))
       else if t = T_DIR
       then and_then (need (inode_nlink im i)) (\<lambda>nlink.
              if nlink \<noteq> 1 then Exit DirTwice else Ok st)
       else Ok st))"

text \<open>\<open>fsck0 sb junk\<close>: the tables before the first inode; the four tables indexed by inode number are not
  cleared.\<close>

definition fsck0 :: "superblock \<Rightarrow> (nat \<Rightarrow> int) \<Rightarrow> fsck" where
  "fsck0 sb junk =
     (let n = nat (sint (sb_size sb)); arr = map junk [0..<nat (sint (sb_ninodes sb))] in
      \<lparr>f_direct = replicate n 0, f_indirect = replicate n 0, f_count = 0, f_badsize = False,
       f_exit = False, f_pointed = arr, f_files = arr, f_dirs = arr, f_index = arr, f_numdir = 0\<rparr>)"

definition fsck_main :: "nat \<Rightarrow> (nat \<Rightarrow> int) \<Rightarrow> image \<Rightarrow> fsck checked" where
  "fsck_main fuel junk im =
     and_then (need (read_sb im)) (\<lambda>sb.
     let inodes = [0..<nat (sint (sb_ninodes sb))] in
     and_then (for_each (check_inode fuel im sb) inodes (fsck0 sb junk)) (\<lambda>st.
     and_then (bitmap_in_use im sb) (\<lambda>in_use.
     and_then (for_each (check_refs im) inodes st) (\<lambda>st.
       if sb_size sb < 1022 then Exit BadSuperblock
       else if f_count st < in_use then Exit BitmapInUse
       else if f_badsize st then Exit BadSize
       else if f_exit st then Exit ExitCode
       else Ok st))))"

end
