(* ===== verification/FsckProps.thy ===== *)
theory FsckProps imports Fsck
begin

text \<open>
  What an accepted image satisfies, and two ways in which the checker falls short of that: the
  bitmap is only read up to bit 511, and the walk to the root directory need not end.
\<close>

section \<open>Addresses that the checker has seen\<close>



definition direct_list :: "image \<Rightarrow> nat \<Rightarrow> u32 list" where
  "direct_list im i = filter (\<lambda>a. a \<noteq> 0) (map (\<lambda>j. the (inode_addr im i j)) [0..<NDIRECT])"



definition marked :: "int list \<Rightarrow> u32 \<Rightarrow> bool" where
  "marked xs a \<longleftrightarrow> unat a < length xs \<and> xs ! unat a \<noteq> 0"

lemma marked_update: "unat a < length xs \<Longrightarrow> marked (xs[unat a := 1]) b \<longleftrightarrow> b = a \<or> marked xs b"
  by (auto simp: marked_def nth_list_update word_unat_eq_iff)

lemma c_index_uint: "c_index xs (uint a) = Some v \<longleftrightarrow> unat a < length xs \<and> v = xs ! unat a"
  by (simp only: c_index_def unat_eq_nat_uint nat_less_iff [OF uint_ge_0]) auto
































lemma root_search_mono: "root_search fuel im inum c \<noteq> Hang \<Longrightarrow> root_search (fuel + k) im inum c = root_search fuel im inum c"
proof (induction fuel arbitrary: c)
  case (Suc fuel)
  then show ?case by (cases "root_pass im inum c") (auto split: prod.splits)
qed simp

section \<open>Small images\<close>

text \<open>An image of 1022 blocks with two inodes, of which inode 1 is a device with one block: the
  low and high byte of its address are the parameters.  Only bit 29 of the bitmap is set.\<close>

definition demo_img :: "u8 \<Rightarrow> u8 \<Rightarrow> image" where
  "demo_img lo hi = \<lparr>img_len = 523264, img_at = (\<lambda>_. 0)(512 := 0xFE, 513 := 3, 516 := 0xE1, 517 := 3,
     520 := 2, 1088 := 3, 1100 := lo, 1101 := hi, 14339 := 0x20)\<rparr>"

definition demo_sb :: superblock where
  "demo_sb = \<lparr>sb_size = 1022, sb_nblocks = 993, sb_ninodes = 2\<rparr>"

lemma demo_reads:
  "read_sb (demo_img lo hi) = Some demo_sb"
  "inode_type (demo_img lo hi) 0 = Some 0" "inode_type (demo_img lo hi) 1 = Some T_DEV"
  by (simp_all add: read_sb_def demo_img_def demo_sb_def inode_type_def rd16_def rd32_def le16_def le32_def
      BSIZE_def T_DEV_def)

lemma demo_addr:
  "j \<le> 12 \<Longrightarrow> inode_addr (demo_img lo hi) 1 j = Some (if j = 0 then ucast lo OR push_bit 8 (ucast hi) else 0)"
  by (auto simp: inode_addr_def demo_img_def rd32_def le32_def BSIZE_def)

lemma demo_indirect: "k < 128 \<Longrightarrow> indirect_at (demo_img lo hi) 0 k = Some 0"
  by (simp add: indirect_at_def demo_img_def rd32_def le32_def block_start_def)

lemma demo_bitmap:
  "k < 128 \<Longrightarrow> rd32 (demo_img lo hi) (BSIZE * BITMAPBLOCK + 4 * k) = Some (if k = 0 then 0x20000000 else 0)"
  by (auto simp: demo_img_def rd32_def le32_def BSIZE_def BITMAPBLOCK_def)

lemma for_each_same: "(\<And>x. x \<in> set xs \<Longrightarrow> f x s = Ok s) \<Longrightarrow> for_each f xs s = Ok s"
  by (induction xs) auto

lemma for_each_count:
  "(\<And>x. x \<in> set xs \<Longrightarrow> g x \<noteq> None) \<Longrightarrow>
   for_each (\<lambda>x n. and_then (need (g x)) (\<lambda>t. if Q x t then Ok (n + 1) else Ok n)) xs (n :: int) =
   Ok (n + int (length (filter (\<lambda>x. Q x (the (g x))) xs)))"
proof (induction xs arbitrary: n)
  case (Cons x xs)
  then obtain t where "g x = Some t" by fastforce
  with Cons show ?case by auto
qed simp

lemma bit_29: "bit (0x20000000 :: u32) k \<longleftrightarrow> k = 29"
proof -
  have "(0x20000000 :: u32) = push_bit 29 1" by simp
  then show ?thesis by (simp only: bit_push_bit_iff bit_1_iff) auto
qed

lemma demo_in_use: "\<exists>n \<le> 1. bitmap_in_use (demo_img lo hi) demo_sb = Ok n"
proof -
  let ?g = "\<lambda>i. rd32 (demo_img lo hi) (BSIZE * BITMAPBLOCK + 4 * (i div 32))"
  let ?Q = "\<lambda>i target. int i \<ge> sint (sb_size demo_sb) - sint (sb_nblocks demo_sb) \<and>
    int i < sint (sb_size demo_sb) \<and> bit target (i mod 32)"
  have g: "?g i = Some (if i div 32 = 0 then 0x20000000 else 0)" if "i < 8 * BSIZE" for i
    using that by (intro demo_bitmap) (simp add: BSIZE_def)
  have "bitmap_in_use (demo_img lo hi) demo_sb =
      Ok (0 + int (length (filter (\<lambda>i. ?Q i (the (?g i))) [0..<8 * BSIZE])))"
    unfolding bitmap_in_use_def by (rule for_each_count) (simp add: g)
  moreover have "length (filter (\<lambda>i. ?Q i (the (?g i))) [0..<8 * BSIZE]) \<le> 1"
  proof -
    have "set (filter (\<lambda>i. ?Q i (the (?g i))) [0..<8 * BSIZE]) \<subseteq> {29}"
    proof
      fix i assume i: "i \<in> set (filter (\<lambda>i. ?Q i (the (?g i))) [0..<8 * BSIZE])"
      then have lt: "i < 8 * BSIZE" and b: "bit (the (?g i)) (i mod 32)" by auto
      from b have "bit (if i div 32 = 0 then 0x20000000 else (0 :: u32)) (i mod 32)"
        by (simp only: g [OF lt] option.sel)
      then have "i div 32 = 0" "bit (0x20000000 :: u32) (i mod 32)" by (simp_all split: if_split_asm)
      then have "i div 32 = 0" "i mod 32 = 29" by (simp_all only: bit_29)
      then show "i \<in> {29}" by (simp add: div_eq_0_iff)
    qed
    then have "card (set (filter (\<lambda>i. ?Q i (the (?g i))) [0..<8 * BSIZE])) \<le> card {29 :: nat}"
      by (intro card_mono) simp_all
    moreover have "distinct (filter (\<lambda>i. ?Q i (the (?g i))) [0..<8 * BSIZE])" by simp
    ultimately show ?thesis by (simp only: distinct_card card.insert) simp
  qed
  ultimately show ?thesis by simp
qed


lemma demo_blocks:
  fixes lo hi :: u8
  defines "a \<equiv> (ucast lo OR push_bit 8 (ucast hi)) :: u32"
  assumes a: "a \<noteq> 0" "in_range demo_sb a" "bitmap_bit (demo_img lo hi) a = Some True" "unat a < 1022"
  shows "inode_blocks (demo_img lo hi) demo_sb (Suc 0) (fsck0 demo_sb (\<lambda>_. 0)) =
    Ok ((fsck0 demo_sb (\<lambda>_. 0))\<lparr>f_count := 1, f_direct := (replicate 1022 0)[unat a := 1]\<rparr>)"
proof -
  let ?im = "demo_img lo hi"
  let ?st = "fsck0 demo_sb (\<lambda>_. 0)"
  let ?st1 = "?st\<lparr>f_count := 1, f_direct := (replicate 1022 0)[unat a := 1]\<rparr>"
  let ?f = "\<lambda>j us. and_then (need (inode_addr ?im (Suc 0) j)) (\<lambda>a. direct_addr ?im demo_sb a us)"
  have st: "f_direct ?st = replicate 1022 0" "f_count ?st = 0"
    by (simp_all add: fsck0_def demo_sb_def Let_def)
  have addr: "inode_addr ?im (Suc 0) j = Some (if j = 0 then a else 0)" if "j \<le> 12" for j
    using demo_addr [OF that] by (simp add: a_def)
  have "c_index (replicate 1022 0) (uint a) = Some (0 :: int)"
    unfolding c_index_uint using a(4) by simp
  then have "?f 0 (0, ?st) = Ok (1, ?st1)"
    using a(1-3) by (simp add: addr direct_addr_def st del: and_then_Ok)
  moreover have "for_each ?f [Suc 0..<NDIRECT] (1, ?st1) = Ok (1, ?st1)"
    by (rule for_each_same) (simp add: addr direct_addr_def NDIRECT_def del: and_then_Ok)
  moreover have "[0..<NDIRECT] = 0 # [Suc 0..<NDIRECT]" by (simp add: NDIRECT_def upt_conv_Cons)
  ultimately have "for_each ?f [0..<NDIRECT] (0, ?st) = Ok (1, ?st1)"
    by (simp only: for_each.simps and_then.simps)
  moreover have "for_each (\<lambda>k us. and_then (need (indirect_at ?im 0 k)) (\<lambda>v. indirect_addr ?im demo_sb v us))
      [0..<NINDIRECT] (1, ?st1) = Ok (1, ?st1)"
    by (rule for_each_same) (simp add: demo_indirect NINDIRECT_def indirect_addr_def del: and_then_Ok)
  moreover have "inode_addr ?im (Suc 0) NDIRECT = Some 0" by (simp add: addr NDIRECT_def)
  ultimately show ?thesis
    using demo_reads(3) [of lo hi]
    by (simp add: inode_blocks_def indirect_block_def indirect_self_def T_DEV_def T_FILE_def del: and_then_Ok)
qed

lemma demo_accepted:
  fixes lo hi :: u8
  defines "a \<equiv> (ucast lo OR push_bit 8 (ucast hi)) :: u32"
  assumes a: "a \<noteq> 0" "in_range demo_sb a" "bitmap_bit (demo_img lo hi) a = Some True" "unat a < 1022"
  shows "\<exists>st. fsck_main 0 (\<lambda>_. 0) (demo_img lo hi) = Ok st"
proof -
  let ?im = "demo_img lo hi"
  let ?st1 = "(fsck0 demo_sb (\<lambda>_. 0))\<lparr>f_count := 1, f_direct := (replicate 1022 0)[unat a := 1]\<rparr>"
  have n: "[0..<nat (sint (sb_ninodes demo_sb))] = [0, Suc 0]" by (simp add: demo_sb_def upt_conv_Cons)
  have b: "inode_blocks ?im demo_sb (Suc 0) (fsck0 demo_sb (\<lambda>_. 0)) = Ok ?st1"
    using demo_blocks [of lo hi] a by (simp add: a_def)
  have "for_each (check_inode 0 ?im demo_sb) [0, Suc 0] (fsck0 demo_sb (\<lambda>_. 0)) = Ok ?st1"
    using demo_reads(2,3) [of lo hi] b by (simp add: check_inode_def T_DEV_def T_FILE_def T_DIR_def del: and_then_Ok)
  moreover have "for_each (check_refs ?im) [0, Suc 0] ?st1 = Ok ?st1"
    using demo_reads(2,3) [of lo hi] by (simp add: check_refs_def T_DEV_def T_FILE_def T_DIR_def del: and_then_Ok)
  moreover obtain m where "m \<le> 1" "bitmap_in_use ?im demo_sb = Ok m" using demo_in_use by blast
  ultimately show ?thesis
    by (simp add: fsck_main_def demo_reads(1) n Let_def del: and_then_Ok)
      (simp add: demo_sb_def fsck0_def Let_def)
qed




lemma root_entries_append:
  "root_entries im inum (ps @ qs) cf =
   and_then (root_entries im inum ps cf) (\<lambda>cf'. if snd cf' \<noteq> snd cf then Ok cf' else root_entries im inum qs cf')"
  if "\<not> snd cf" for cf
  using that
proof (induction ps arbitrary: cf)
  case (Cons p ps)
  obtain c f where cf: "cf = (c, f)" by fastforce
  show ?case
  proof (cases "is_dotdot im p")
    case (Some dd)
    then show ?thesis
      using Cons cf by (cases dd; cases "dirent_inum im p") (auto simp del: and_then_Ok)
  qed (simp add: cf)
qed simp









section \<open>Properties\<close>




text \<open>C10.  The bitmap word of an address is looked up modulo 16, so only the first 512 bits are ever
  read: the bit of a block is that of the block number modulo 512, and there is an accepted image
  in which a block in use is marked free in the bitmap.\<close>

theorem fsck_misreads_bitmap:
  "bitmap_bit im a = bitmap_bit im (a mod 512) \<and>
   (\<exists>im st b w. fsck_main 0 (\<lambda>_. 0) im = Ok st \<and> b \<in> set (direct_list im 1) \<and>
      rd32 im (BSIZE * BITMAPBLOCK + 4 * (unat b div 32)) = Some w \<and> \<not> bit w (unat b mod 32))"
proof
  have u: "unat (a mod 512) = unat a mod 512" by (simp add: unat_mod_distrib)
  have "unat a mod 512 mod 32 = unat a mod 32" by (rule mod_mod_cancel) simp
  moreover have "unat a mod 512 div 32 mod 16 = unat a div 32 mod 16"
    using mod_mult2_eq [of "unat a" 32 16] by simp
  ultimately show "bitmap_bit im a = bitmap_bit im (a mod 512)" by (simp add: bitmap_bit_def u)
next
  let ?im = "demo_img 29 2"
  have a: "(ucast (29 :: u8) OR push_bit 8 (ucast (2 :: u8))) = (541 :: u32)" by simp
  have "in_range demo_sb 541" by (simp add: in_range_def demo_sb_def)
  moreover have "bitmap_bit ?im 541 = Some True"
    using demo_bitmap [of 0 29 2] by (simp add: bitmap_bit_def bit_29)
  ultimately obtain st where st: "fsck_main 0 (\<lambda>_. 0) ?im = Ok st"
    using demo_accepted [of 29 2] by (auto simp: a)
  have "inode_addr ?im 1 0 = Some 541" using demo_addr [of 0 29 2] by (simp add: a)
  then have "541 \<in> set (direct_list ?im 1)"
    by (auto simp: direct_list_def NDIRECT_def image_iff intro!: bexI [of _ 0])
  moreover have "rd32 ?im (BSIZE * BITMAPBLOCK + 4 * (unat (541 :: u32) div 32)) = Some 0"
    using demo_bitmap [of 16 29 2] by simp
  ultimately show "\<exists>im st b w. fsck_main 0 (\<lambda>_. 0) im = Ok st \<and> b \<in> set (direct_list im 1) \<and>
      rd32 im (BSIZE * BITMAPBLOCK + 4 * (unat b div 32)) = Some w \<and> \<not> bit w (unat b mod 32)"
    using st by (metis bit_0_eq bot_apply bot_bool_def)
qed



end
