(* ===== verification/CLib.thy ===== *)
theory CLib imports Prelude
begin

text \<open>
  The C library calls that the user-level programs rely on, on strings without their final
  zero byte: \<open>strsep\<close>, \<open>getline\<close>, \<open>sprintf ("%d")\<close> and \<open>atoi\<close>, with the round trips the
  programs need.
\<close>

section \<open>Definitions\<close>

type_synonym cstr = "u8 list"

text \<open>One call of \<open>strsep\<close>: the token and the rest, which is \<open>None\<close> (a null pointer) after the
  last token.\<close>

fun strsep :: "u8 set \<Rightarrow> cstr \<Rightarrow> cstr \<times> cstr option" where
  "strsep D [] = ([], None)"
| "strsep D (c # cs) =
     (if c \<in> D then ([], Some cs) else (case strsep D cs of (t, r) \<Rightarrow> (c # t, r)))"

text \<open>All tokens of the loop \<open>while ((t = strsep (&s, D)) != NULL)\<close>.\<close>

fun tokens :: "u8 set \<Rightarrow> cstr \<Rightarrow> cstr list" where
  "tokens D [] = [[]]"
| "tokens D (c # cs) =
     (if c \<in> D then [] # tokens D cs
      else (case tokens D cs of t # ts \<Rightarrow> (c # t) # ts | [] \<Rightarrow> [[c]]))"

definition cut0 :: "u8 list \<Rightarrow> cstr" where
  "cut0 s = takeWhile (\<lambda>c. c \<noteq> 0) s"

text \<open>\<open>getline\<close>: lines with their newline.\<close>

fun getlines :: "u8 list \<Rightarrow> u8 list list" where
  "getlines [] = []"
| "getlines (c # cs) =
     (if c = 10 then [c] # getlines cs
      else (case getlines cs of [] \<Rightarrow> [[c]] | l # ls \<Rightarrow> (c # l) # ls))"

fun dec :: "nat \<Rightarrow> cstr" where
  "dec n = (if n < 10 then [word_of_nat (48 + n)] else dec (n div 10) @ [word_of_nat (48 + n mod 10)])"

declare dec.simps [simp del]

fun atoi_digits :: "int \<Rightarrow> cstr \<Rightarrow> int" where
  "atoi_digits n [] = n"
| "atoi_digits n (c # cs) =
     (if 48 \<le> c \<and> c \<le> 57 then atoi_digits (n * 10 + (uint c - 48)) cs else n)"

definition isspace :: "u8 \<Rightarrow> bool" where
  "isspace c \<longleftrightarrow> c = 32 \<or> (9 \<le> c \<and> c \<le> 13)"

definition atoi :: "cstr \<Rightarrow> int" where
  "atoi s =
     (case dropWhile isspace s of
        [] \<Rightarrow> 0
      | c # cs \<Rightarrow> if c = 45 then - atoi_digits 0 cs
                  else if c = 43 then atoi_digits 0 cs else atoi_digits 0 (c # cs))"

section \<open>Lemmas\<close>

lemma tokens_strsep:
  "tokens D s = (case strsep D s of (t, None) \<Rightarrow> [t] | (t, Some r) \<Rightarrow> t # tokens D r)"
  by (induction s) (auto split: prod.splits option.splits)

lemma tokens_not_Nil [simp]: "tokens D s \<noteq> []"
  by (cases s) (auto split: list.splits)

lemma tokens_no_delim: "t \<in> set (tokens D s) \<Longrightarrow> c \<in> set t \<Longrightarrow> c \<notin> D"
proof (induction s arbitrary: t)
  case (Cons a s)
  show ?case
  proof (cases "a \<in> D")
    case True
    with Cons show ?thesis by auto
  next
    case False
    obtain u us where u: "tokens D s = u # us" by (cases "tokens D s") auto
    with Cons.prems False have "(t = a # u \<or> t \<in> set us)" by simp
    moreover have "c \<notin> D" if "c \<in> set u" using Cons.IH [of u] u that by simp
    moreover have "c \<notin> D" if "t \<in> set us" using Cons.IH [of t] u that Cons.prems(2) by simp
    ultimately show ?thesis using Cons.prems(2) False by auto
  qed
qed simp

lemma strsep_shorter: "strsep D s = (t, Some r) \<Longrightarrow> length r < length s"
  by (induction s arbitrary: t) (auto split: if_splits prod.splits)

lemma concat_getlines: "concat (getlines s) = s"
  by (induction s) (auto split: list.splits)

lemma atoi_digits_append:
  "\<forall>c \<in> set xs. 48 \<le> c \<and> c \<le> 57 \<Longrightarrow> atoi_digits n (xs @ ys) = atoi_digits (atoi_digits n xs) ys"
  by (induction xs arbitrary: n) auto

lemma digit_word: "k < 10 \<Longrightarrow> 48 \<le> (word_of_nat (48 + k) :: u8) \<and> (word_of_nat (48 + k) :: u8) \<le> 57 \<and>
    uint (word_of_nat (48 + k) :: u8) = 48 + int k"
proof -
  assume "k < 10"
  then have "k = 0 \<or> k = 1 \<or> k = 2 \<or> k = 3 \<or> k = 4 \<or> k = 5 \<or> k = 6 \<or> k = 7 \<or> k = 8 \<or> k = 9"
    by arith
  then show ?thesis by (elim disjE) simp_all
qed

lemma dec_digits: "\<forall>c \<in> set (dec n). 48 \<le> c \<and> c \<le> 57"
proof (induction n rule: dec.induct)
  case (1 n)
  then show ?case using digit_word [of n] digit_word [of "n mod 10"] by (subst dec.simps) auto
qed

lemma atoi_digits_dec: "atoi_digits 0 (dec n) = int n"
proof (induction n rule: dec.induct)
  case (1 n)
  show ?case
  proof (cases "n < 10")
    case True
    then show ?thesis using digit_word [OF True] by (simp add: dec.simps [of n])
  next
    case False
    have "n mod 10 < 10" by simp
    moreover have "int (n div 10) * 10 + int (n mod 10) = int n"
      by (metis div_mult_mod_eq of_nat_add of_nat_mult of_nat_numeral)
    ultimately show ?thesis using digit_word [of "n mod 10"] 1 False dec_digits [of "n div 10"]
      by (subst dec.simps) (simp add: atoi_digits_append)
  qed
qed

lemma dec_not_Nil [simp]: "dec n \<noteq> []"
  by (subst dec.simps) simp

lemma atoi_dec: "atoi (dec n) = int n"
proof -
  obtain c cs where d: "dec n = c # cs" using dec_not_Nil [of n] by (cases "dec n") auto
  have "48 \<le> c" using dec_digits [of n] d by simp
  then have "\<not> isspace c" "c \<noteq> 45" "c \<noteq> 43"
    using order.trans [of 48 c 13] by (auto simp: isspace_def)
  then show ?thesis using atoi_digits_dec [of n] by (simp add: atoi_def d)
qed

lemma dec_inj: "dec m = dec n \<Longrightarrow> m = n"
  by (metis atoi_dec of_nat_eq_iff)

lemma length_dec: "0 < k \<Longrightarrow> n < 10 ^ k \<Longrightarrow> length (dec n) \<le> k"
proof (induction n arbitrary: k rule: dec.induct)
  case (1 n)
  show ?case
  proof (cases "n < 10")
    case True
    with 1 show ?thesis by (simp add: dec.simps [of n])
  next
    case False
    obtain j where k: "k = Suc j" using 1(2) by (cases k) auto
    with False 1(3) have j: "0 < j" by (cases j) auto
    have "n div 10 < 10 ^ j" using 1(3) k by (simp add: less_mult_imp_div_less mult.commute)
    with 1(1) [OF False j] False k show ?thesis by (subst dec.simps) simp
  qed
qed

end
