(* ===== verification/MapReduce.thy ===== *)
theory MapReduce imports CLib Runs "HOL-Library.Multiset"
begin

text \<open>
  The MapReduce library (\<open>MapReduce/mapreduce.c\<close>).  A chain of \<open>Node\<close>s behind a header is the list of
  its keys with their value lists, front first.  A mapper thread works on a chain of its own;
  the only state that the threads share while they run are the reducers' chains, which
  \<open>MR_EmitToReducer\<close> changes under a semaphore.  So a mapper thread is the list of its emits to the
  reducers, and a run of the map phase is any order of all emits in which each of them is
  executed as a whole.  User code is a parameter.  \<open>None\<close> is an access outside an array, a
  division by zero, or user code that crashes.  Memory reclamation is left out.
\<close>

section \<open>Definitions\<close>

type_synonym chain_t = "(cstr \<times> cstr list) list"
type_synonym emit = "cstr \<times> cstr"

text \<open>The insertion of \<open>ll_insert\<close>: in front of the values of the first node with the key, or as a new
  first node.\<close>

fun add_value :: "cstr \<Rightarrow> cstr \<Rightarrow> chain_t \<Rightarrow> chain_t" where
  "add_value key v [] = []"
| "add_value key v ((k, vs) # t) = (if k = key then (k, v # vs) # t else (k, vs) # add_value key v t)"

definition ll_insert :: "cstr \<Rightarrow> cstr \<Rightarrow> chain_t \<Rightarrow> chain_t" where
  "ll_insert key v t =
     (case first_index (\<lambda>n. fst n = key) t of
        None \<Rightarrow> (key, [v]) # t
      | Some _ \<Rightarrow> add_value key v t)"

text \<open>The getters: the next value of the key; the node goes away with its last value.\<close>

definition get_next :: "cstr \<Rightarrow> chain_t \<Rightarrow> cstr option \<times> chain_t" where
  "get_next key t =
     (case first_index (\<lambda>n. fst n = key) t of
        None \<Rightarrow> (None, t)
      | Some j \<Rightarrow>
          (case snd (t ! j) of
             [] \<Rightarrow> (None, t)
           | v # vs \<Rightarrow> (Some v, if vs = [] then take j t @ drop (Suc j) t else t[j := (fst (t ! j), vs)])))"

subsection \<open>Threads\<close>

text \<open>\<open>map_thread_id\<close>: \<open>tids\<close> is the array \<open>cur_map_tid\<close>, \<open>n\<close> the number of mappers.\<close>

function tid_scan :: "u64 list \<Rightarrow> nat \<Rightarrow> u64 \<Rightarrow> nat \<Rightarrow> nat option" where
  "tid_scan tids n pid i =
     (if i \<ge> length tids then None
      else if tids ! i \<noteq> pid \<and> i \<le> n then tid_scan tids n pid (Suc i) else Some i)"
  by pat_completeness auto
termination by (relation "measure (\<lambda>(tids, n, pid, i). length tids - i)") auto

declare tid_scan.simps [simp del]

definition map_thread_id :: "u64 list \<Rightarrow> nat \<Rightarrow> u64 \<Rightarrow> int option" where
  "map_thread_id tids n pid = do {
     i \<leftarrow> tid_scan tids n pid 0;
     Some (if i > n then -1 else int i) }"

definition MR_EmitToCombiner :: "u64 list \<Rightarrow> nat \<Rightarrow> u64 \<Rightarrow> cstr \<Rightarrow> cstr \<Rightarrow> chain_t list \<Rightarrow> chain_t list option" where
  "MR_EmitToCombiner tids n pid key v mappers =
     (if n = 0 then None
      else do {
        i \<leftarrow> map_thread_id tids n pid;
        t \<leftarrow> c_index mappers i;
        c_update mappers i (ll_insert key v t) })"

definition get_next_for_combine :: "u64 list \<Rightarrow> nat \<Rightarrow> u64 \<Rightarrow> cstr \<Rightarrow> chain_t list \<Rightarrow> (cstr option \<times> chain_t list) option" where
  "get_next_for_combine tids n pid key mappers =
     (if n = 0 then None
      else do {
        i \<leftarrow> map_thread_id tids n pid;
        t \<leftarrow> c_index mappers i;
        let (v, t') = get_next key t;
        ms \<leftarrow> c_update mappers i t';
        Some (v, ms) })"

definition get_next_for_reducer :: "cstr \<Rightarrow> nat \<Rightarrow> chain_t list \<Rightarrow> (cstr option \<times> chain_t list) option" where
  "get_next_for_reducer key p reducers = do {
     t \<leftarrow> c_index reducers (int p);
     let (v, t') = get_next key t;
     rs \<leftarrow> c_update reducers (int p) t';
     Some (v, rs) }"

definition MR_EmitToReducer :: "(cstr \<Rightarrow> nat \<Rightarrow> u64) \<Rightarrow> nat \<Rightarrow> emit \<Rightarrow> chain_t list \<Rightarrow> chain_t list option" where
  "MR_EmitToReducer part nred e reducers =
     (let i = sint (ucast (part (fst e) nred) :: u32) in
      do { t \<leftarrow> c_index reducers i;
           c_update reducers i (ll_insert (fst e) (snd e) t) })"

text \<open>The characters are signed.\<close>

fun hash_loop :: "u64 \<Rightarrow> cstr \<Rightarrow> u64" where
  "hash_loop h [] = h"
| "hash_loop h (c # cs) = hash_loop (h * 33 + scast c) cs"

definition MR_DefaultHashPartition :: "cstr \<Rightarrow> nat \<Rightarrow> u64" where
  "MR_DefaultHashPartition key num = hash_loop 5381 key mod word_of_nat num"

fun emit_all :: "(cstr \<Rightarrow> nat \<Rightarrow> u64) \<Rightarrow> nat \<Rightarrow> emit list \<Rightarrow> chain_t list \<Rightarrow> chain_t list option" where
  "emit_all part nred [] rs = Some rs"
| "emit_all part nred (e # es) rs = do { rs \<leftarrow> MR_EmitToReducer part nred e rs; emit_all part nred es rs }"

text \<open>The arguments that mapper thread \<open>loca\<close> of \<open>n\<close> works on.\<close>

function file_indices :: "nat \<Rightarrow> nat \<Rightarrow> nat \<Rightarrow> nat list" where
  "file_indices n argc loca = (if loca < argc \<and> 0 < n then loca # file_indices n argc (loca + n) else [])"
  by pat_completeness auto
termination by (relation "measure (\<lambda>(n, argc, loca). argc - loca)") auto

declare file_indices.simps [simp del]

text \<open>User code: a mapper works on one argument and the thread's own chain, a combiner on a key of
  the chain; both may emit to the reducers.  The loop over the nodes follows the \<open>next\<close> pointers,
  which stay valid when a node is taken out.\<close>

type_synonym mapper = "nat \<Rightarrow> chain_t \<Rightarrow> (chain_t \<times> emit list) option"
type_synonym combiner = "cstr \<Rightarrow> chain_t \<Rightarrow> (chain_t \<times> emit list) option"
type_synonym 'o reducer = "cstr \<Rightarrow> chain_t \<Rightarrow> (chain_t \<times> 'o list) option"

fun thread_loop :: "('x \<Rightarrow> chain_t \<Rightarrow> (chain_t \<times> 'o list) option) \<Rightarrow> 'x list \<Rightarrow> chain_t \<Rightarrow> (chain_t \<times> 'o list) option" where
  "thread_loop f [] t = Some (t, [])"
| "thread_loop f (x # xs) t = do { (t, es) \<leftarrow> f x t; (t, es') \<leftarrow> thread_loop f xs t; Some (t, es @ es') }"

definition mapper_wrapper :: "nat \<Rightarrow> nat \<Rightarrow> mapper \<Rightarrow> combiner option \<Rightarrow> nat \<Rightarrow> (chain_t \<times> emit list) option" where
  "mapper_wrapper n argc mapf comb i = do {
     (t, es) \<leftarrow> thread_loop mapf (file_indices n argc i) [];
     (case comb of
        None \<Rightarrow> Some (t, es)
      | Some c \<Rightarrow>
          if i < argc
          then do { (t, es') \<leftarrow> thread_loop c (map fst t) t; Some (t, es @ es') }
          else Some (t, es)) }"

definition reduce_wrapper :: "'o reducer \<Rightarrow> nat \<Rightarrow> chain_t list \<Rightarrow> 'o list option" where
  "reduce_wrapper red p reducers = do {
     t \<leftarrow> c_index reducers (int p);
     (_, os) \<leftarrow> thread_loop red (map fst t) t;
     Some os }"

fun collect :: "'a option list \<Rightarrow> 'a list option" where
  "collect [] = Some []"
| "collect (x # xs) = do { y \<leftarrow> x; ys \<leftarrow> collect xs; Some (y # ys) }"

text \<open>\<open>MR_Run\<close>: the emits of the mapper threads 1 to \<open>n\<close>, and the outputs of the reducer threads after
  the emits have been executed in the order \<open>es\<close>.\<close>

definition mr_traces :: "nat \<Rightarrow> nat \<Rightarrow> mapper \<Rightarrow> combiner option \<Rightarrow> emit list list option" where
  "mr_traces n argc mapf comb =
     collect (map (\<lambda>i. map_option snd (mapper_wrapper n argc mapf comb i)) [1..<n + 1])"

definition mr_reduce :: "(cstr \<Rightarrow> nat \<Rightarrow> u64) \<Rightarrow> nat \<Rightarrow> 'o reducer \<Rightarrow> emit list \<Rightarrow> 'o list list option" where
  "mr_reduce part nred red es = do {
     rs \<leftarrow> emit_all part nred es (replicate nred []);
     collect (map (\<lambda>p. reduce_wrapper red p rs) [0..<nred]) }"

text \<open>\<open>task_division\<close>.\<close>

definition task_division :: "nat \<Rightarrow> nat \<Rightarrow> nat list" where
  "task_division num_wrapper file_num =
     map (\<lambda>i. file_num div num_wrapper + (if i < file_num mod num_wrapper then 1 else 0)) [0..<num_wrapper]"

section \<open>Chains as maps from keys to values\<close>

definition chain_ok :: "chain_t \<Rightarrow> bool" where
  "chain_ok t \<longleftrightarrow> distinct (map fst t) \<and> (\<forall>n \<in> set t. snd n \<noteq> [])"

fun vals :: "chain_t \<Rightarrow> cstr \<Rightarrow> cstr list" where
  "vals [] k = []"
| "vals ((k', vs) # t) k = (if k' = k then vs else vals t k)"

lemma first_index_key_None: "first_index (\<lambda>n. fst n = k) t = None \<longleftrightarrow> k \<notin> fst ` set t"
  by (auto simp: first_index_None_iff)

lemma vals_absent: "k \<notin> fst ` set t \<Longrightarrow> vals t k = []"
  by (induction t k rule: vals.induct) auto

lemma keys_add_value: "map fst (add_value key v t) = map fst t"
  by (induction key v t rule: add_value.induct) auto

lemma vals_add_value:
  "key \<in> set (map fst t) \<Longrightarrow> vals (add_value key v t) k = (if k = key then v # vals t k else vals t k)"
proof (induction key v t rule: add_value.induct)
  case (2 key v k' vs t)
  show ?case
  proof (cases "k' = key")
    case False
    with 2 have "vals (add_value key v t) k = (if k = key then v # vals t k else vals t k)" by auto
    with False show ?thesis by auto
  qed auto
qed simp

lemma add_value_full: "\<forall>n \<in> set t. snd n \<noteq> [] \<Longrightarrow> n \<in> set (add_value key v t) \<Longrightarrow> snd n \<noteq> []"
  by (induction key v t rule: add_value.induct) (auto split: if_splits)

lemma ll_insert_if:
  "ll_insert key v t = (if key \<in> set (map fst t) then add_value key v t else (key, [v]) # t)"
proof (cases "first_index (\<lambda>n. fst n = key) t")
  case None
  then have "key \<notin> set (map fst t)" using first_index_key_None [of key t] by simp
  with None show ?thesis by (simp add: ll_insert_def)
next
  case (Some j)
  then have "key \<in> set (map fst t)" using first_index_key_None [of key t] by auto
  with Some show ?thesis by (simp add: ll_insert_def)
qed

lemma ll_insert_vals: "vals (ll_insert key v t) k = (if k = key then v # vals t k else vals t k)"
proof (cases "key \<in> set (map fst t)")
  case True
  then show ?thesis unfolding ll_insert_if by (simp only: if_True vals_add_value)
next
  case False
  then show ?thesis unfolding ll_insert_if by (simp add: vals_absent)
qed

lemma ll_insert_keys: "set (map fst (ll_insert key v t)) = insert key (set (map fst t))"
proof (cases "key \<in> set (map fst t)")
  case True
  then show ?thesis unfolding ll_insert_if by (simp only: if_True keys_add_value insert_absorb)
next
  case False
  then show ?thesis unfolding ll_insert_if by simp
qed

lemma ll_insert_ok: "chain_ok t \<Longrightarrow> chain_ok (ll_insert key v t)"
proof (cases "key \<in> set (map fst t)")
  case True
  assume "chain_ok t"
  with True show ?thesis unfolding ll_insert_if chain_ok_def
    using add_value_full [of t _ key v] by (simp only: if_True keys_add_value) blast
next
  case False
  assume "chain_ok t"
  with False show ?thesis unfolding ll_insert_if chain_ok_def by simp
qed

text \<open>The getter on a well-formed chain.\<close>

lemma vals_nth: "distinct (map fst t) \<Longrightarrow> j < length t \<Longrightarrow> vals t (fst (t ! j)) = snd (t ! j)"
proof (induction t arbitrary: j)
  case (Cons n t)
  obtain k vs where n: "n = (k, vs)" by fastforce
  show ?case
  proof (cases j)
    case 0
    with n show ?thesis by simp
  next
    case (Suc i)
    with Cons n have "fst (t ! i) \<in> set (map fst t)" by simp
    with Cons.prems(1) n have "fst (t ! i) \<noteq> k" by auto
    with Cons Suc n show ?thesis by auto
  qed
qed simp

lemma vals_update:
  "distinct (map fst t) \<Longrightarrow> j < length t \<Longrightarrow>
   vals (t[j := (fst (t ! j), ws)]) k = (if k = fst (t ! j) then ws else vals t k)"
proof (induction t arbitrary: j)
  case (Cons n t)
  obtain k' vs where n: "n = (k', vs)" by fastforce
  show ?case
  proof (cases j)
    case 0
    with n show ?thesis by simp
  next
    case (Suc i)
    with Cons n have "fst (t ! i) \<in> set (map fst t)" by simp
    with Cons.prems(1) n have "fst (t ! i) \<noteq> k'" by auto
    with Cons Suc n show ?thesis by auto
  qed
qed simp

lemma vals_remove:
  "distinct (map fst t) \<Longrightarrow> j < length t \<Longrightarrow>
   vals (take j t @ drop (Suc j) t) k = (if k = fst (t ! j) then [] else vals t k)"
proof (induction t arbitrary: j)
  case (Cons n t)
  obtain k' vs where n: "n = (k', vs)" by fastforce
  show ?case
  proof (cases j)
    case 0
    with n Cons.prems show ?thesis by (auto simp: vals_absent)
  next
    case (Suc i)
    with Cons n have "fst (t ! i) \<in> set (map fst t)" by simp
    with Cons.prems(1) n have "fst (t ! i) \<noteq> k'" by auto
    with Cons Suc n show ?thesis by auto
  qed
qed simp

lemma keys_vals: "chain_ok t \<Longrightarrow> k \<in> set (map fst t) \<longleftrightarrow> vals t k \<noteq> []"
proof (induction t)
  case (Cons n t)
  then show ?case by (cases n) (auto simp: chain_ok_def)
qed simp


section \<open>The contract of the getters\<close>

text \<open>The loop \<open>while ((value = get_next (key)) != NULL) a = f (a, value)\<close>.\<close>

partial_function (option) drain ::
    "('k \<Rightarrow> 's \<Rightarrow> 'v option \<times> 's) \<Rightarrow> ('a \<Rightarrow> 'v \<Rightarrow> 'a) \<Rightarrow> 'k \<Rightarrow> 'a \<Rightarrow> 's \<Rightarrow> ('a \<times> 's) option" where
  "drain nxt f k a s =
     (case nxt k s of (None, s') \<Rightarrow> Some (a, s') | (Some v, s') \<Rightarrow> drain nxt f k (f a v) s')"

text \<open>A source of values per key: each call takes the first one, and leaves the other keys alone.\<close>

locale value_source =
  fixes nxt :: "'k \<Rightarrow> 's \<Rightarrow> 'v option \<times> 's"
    and held :: "'s \<Rightarrow> 'k \<Rightarrow> 'v list"
    and ok :: "'s \<Rightarrow> bool"
  assumes nxt_None: "ok s \<Longrightarrow> held s k = [] \<Longrightarrow> nxt k s = (None, s)"
    and nxt_Some: "ok s \<Longrightarrow> held s k = v # vs \<Longrightarrow>
      \<exists>s'. nxt k s = (Some v, s') \<and> ok s' \<and> held s' k = vs \<and> (\<forall>k'. k' \<noteq> k \<longrightarrow> held s' k' = held s k')"
begin

lemma drain_values:
  assumes "ok s"
  shows "\<exists>s'. drain nxt f k a s = Some (foldl f a (held s k), s') \<and> ok s' \<and> held s' k = [] \<and>
    (\<forall>k'. k' \<noteq> k \<longrightarrow> held s' k' = held s k')"
  using assms
proof (induction "held s k" arbitrary: s a)
  case Nil
  then show ?case using nxt_None [of s k] by (subst drain.simps) auto
next
  case (Cons v vs)
  from nxt_Some [OF Cons.prems Cons.hyps(2) [symmetric]] obtain s' where
    s': "nxt k s = (Some v, s')" "ok s'" "held s' k = vs" "\<forall>k'. k' \<noteq> k \<longrightarrow> held s' k' = held s k'" by blast
  from Cons.hyps(1) [OF s'(3) [symmetric] s'(2), of "f a v"] s' Cons.hyps(2) [symmetric]
  show ?case by (subst drain.simps) auto
qed

end

lemma get_next_None: "chain_ok t \<Longrightarrow> vals t k = [] \<Longrightarrow> get_next k t = (None, t)"
  using keys_vals [of t k] first_index_key_None [of k t] by (auto simp: get_next_def)

lemma get_next_Some:
  assumes ok: "chain_ok t" and v: "vals t k = v # vs"
  shows "\<exists>t'. get_next k t = (Some v, t') \<and> chain_ok t' \<and> vals t' k = vs \<and> (\<forall>k'. k' \<noteq> k \<longrightarrow> vals t' k' = vals t k')"
proof -
  have d: "distinct (map fst t)" using ok by (simp add: chain_ok_def)
  have "k \<in> set (map fst t)" using keys_vals [OF ok, of k] v by simp
  then obtain j where j: "first_index (\<lambda>n. fst n = k) t = Some j"
    using first_index_key_None [of k t] by (cases "first_index (\<lambda>n. fst n = k) t") auto
  then have lt: "j < length t" and k: "fst (t ! j) = k" by (auto simp: first_index_Some_iff)
  have s: "snd (t ! j) = v # vs" using vals_nth [OF d lt] k v by simp
  show ?thesis
  proof (cases "vs = []")
    case True
    have "map fst t = map fst (take j t) @ fst (t ! j) # map fst (drop (Suc j) t)"
      using arg_cong [OF id_take_nth_drop [OF lt], of "map fst"] by simp
    with d have "distinct (map fst (take j t) @ fst (t ! j) # map fst (drop (Suc j) t))" by simp
    then have "distinct (map fst (take j t @ drop (Suc j) t))" by simp
    moreover have "\<forall>n \<in> set (take j t @ drop (Suc j) t). snd n \<noteq> []"
      using ok by (auto simp: chain_ok_def dest: in_set_takeD in_set_dropD)
    ultimately show ?thesis
      using j s True vals_remove [OF d lt] k by (simp add: get_next_def chain_ok_def)
  next
    case False
    have "map fst (t[j := (k, vs)]) = map fst t"
      using lt k by (simp add: map_update list_update_same_conv)
    moreover have "\<forall>n \<in> set (t[j := (k, vs)]). snd n \<noteq> []"
      using ok False set_update_subset_insert [of t j "(k, vs)"] by (auto simp: chain_ok_def)
    ultimately show ?thesis
      using j s False vals_update [OF d lt, of vs] k d by (auto simp: get_next_def chain_ok_def)
  qed
qed

interpretation getter: value_source get_next vals chain_ok
  by unfold_locales (simp_all add: get_next_None get_next_Some)

section \<open>Emits\<close>

lemma foldl_insert:
  "chain_ok t \<Longrightarrow> chain_ok (foldl (\<lambda>t e. ll_insert (fst e) (snd e) t) t es) \<and>
   vals (foldl (\<lambda>t e. ll_insert (fst e) (snd e) t) t es) k = rev (map snd (filter (\<lambda>e. fst e = k) es)) @ vals t k"
proof (induction es arbitrary: t)
  case (Cons e es)
  from Cons.IH [OF ll_insert_ok [OF Cons.prems]] show ?case by (auto simp: ll_insert_vals)
qed simp

text \<open>The sum of a function over the values of a key does not depend on the order of the emits.\<close>

lemma mset_filter_sum:
  "mset es = mset es' \<Longrightarrow> sum_list (map f (filter P es)) = (sum_list (map f (filter P es')) :: int)"
  by (metis mset_filter mset_map sum_mset_sum_list)

lemma set_file_indices:
  "0 < n \<Longrightarrow> set (file_indices n argc i) = {j. i \<le> j \<and> j < argc \<and> (j - i) mod n = 0} \<and> distinct (file_indices n argc i)"
proof (induction n argc i rule: file_indices.induct)
  case (1 n argc i)
  show ?case
  proof (cases "i < argc")
    case False
    then show ?thesis by (simp add: file_indices.simps [of n argc i])
  next
    case True
    with 1 have IH: "set (file_indices n argc (i + n)) = {j. i + n \<le> j \<and> j < argc \<and> (j - (i + n)) mod n = 0}"
      "distinct (file_indices n argc (i + n))" by auto
    have iff: "(j - i) mod n = 0 \<longleftrightarrow> j = i \<or> (i + n \<le> j \<and> (j - (i + n)) mod n = 0)" if "i \<le> j" for j
    proof (cases "i + n \<le> j")
      case True
      then have "j - i = (j - (i + n)) + n" by simp
      then have "(j - i) mod n = (j - (i + n)) mod n" by simp
      with True 1(2) show ?thesis by auto
    next
      case False
      with that show ?thesis by auto
    qed
    have "{j. i \<le> j \<and> j < argc \<and> (j - i) mod n = 0} =
      insert i {j. i + n \<le> j \<and> j < argc \<and> (j - (i + n)) mod n = 0}"
    proof (rule set_eqI)
      fix j
      have "i + n \<le> j \<Longrightarrow> i \<le> j" "j = i \<Longrightarrow> i \<le> j" by simp_all
      with iff [of j] True show "j \<in> {j. i \<le> j \<and> j < argc \<and> (j - i) mod n = 0} \<longleftrightarrow>
        j \<in> insert i {j. i + n \<le> j \<and> j < argc \<and> (j - (i + n)) mod n = 0}"
        unfolding mem_Collect_eq insert_iff by (cases "j = i"; cases "i + n \<le> j"; simp)
    qed
    then show ?thesis using True 1(2) IH by (auto simp: file_indices.simps [of n argc i])
  qed
qed


text \<open>The arguments of all threads together are the arguments from 1 on, each once.\<close>

lemma file_indices_split:
  assumes "0 < n"
  shows "mset (concat (map (file_indices n argc) [1..<n + 1])) = mset [1..<argc]"
proof -
  note s = set_file_indices [OF assms, THEN conjunct1] and d = set_file_indices [OF assms, THEN conjunct2]
  have gen: "distinct (concat (map (file_indices n argc) xs))" if "distinct xs" "set xs \<subseteq> {1..n}" for xs
    using that
  proof (induction xs)
    case (Cons x xs)
    have "set (file_indices n argc x) \<inter> set (file_indices n argc y) = {}" if y: "y \<in> set xs" for y
    proof (rule equals0I)
      fix j assume "j \<in> set (file_indices n argc x) \<inter> set (file_indices n argc y)"
      then have j: "x \<le> j" "y \<le> j" "(j - x) mod n = 0" "(j - y) mod n = 0" by (auto simp: s)
      have b: "1 \<le> x" "x \<le> n" "1 \<le> y" "y \<le> n" "x \<noteq> y" using Cons.prems y by auto
      have "n dvd j - x" "n dvd j - y" using j(3,4) by (simp_all only: mod_eq_0_iff_dvd)
      then have "int n dvd int (j - x)" "int n dvd int (j - y)" by (simp_all only: of_nat_dvd_iff)
      then have "int n dvd int j - int x" "int n dvd int j - int y" using j(1,2) by (simp_all only: of_nat_diff)
      then have "int n dvd (int j - int x) - (int j - int y)" by (rule dvd_diff)
      then have "int n dvd int y - int x" by simp
      moreover have "\<bar>int y - int x\<bar> < int n" "int y - int x \<noteq> 0" using b by auto
      ultimately show False using dvd_imp_le_int [of "int y - int x" "int n"] by linarith
    qed
    then have "set (file_indices n argc x) \<inter> set (concat (map (file_indices n argc) xs)) = {}"
      by (simp add: Int_UN_distrib)
    moreover have "distinct (concat (map (file_indices n argc) xs))"
      by (rule Cons.IH) (use Cons.prems in simp_all)
    ultimately show ?case using d by simp
  qed simp
  have dist: "distinct (concat (map (file_indices n argc) [1..<n + 1]))" by (rule gen) (simp_all only: distinct_upt set_upt atLeastLessThanSuc_atLeastAtMost Suc_eq_plus1 [symmetric] order_refl)
  have "set (concat (map (file_indices n argc) [1..<n + 1])) = set [1..<argc]"
  proof (intro subset_antisym subsetI)
    fix j assume "j \<in> set (concat (map (file_indices n argc) [1..<n + 1]))"
    then obtain i where "i \<in> set [1..<n + 1]" "j \<in> set (file_indices n argc i)" by auto
    then have "1 \<le> i" "i \<le> j" "j < argc" unfolding s set_upt atLeastLessThan_iff by simp_all
    then show "j \<in> set [1..<argc]" by simp
  next
    fix j assume "j \<in> set [1..<argc]"
    then have j: "1 \<le> j" "j < argc" by simp_all
    let ?i = "(j - 1) mod n + 1"
    have i: "?i < n + 1" using assms by simp
    have "?i \<le> j" using j mod_less_eq_dividend [of "j - 1" n] by linarith
    moreover have "j - ?i = (j - 1) - (j - 1) mod n" by simp
    then have "(j - ?i) mod n = 0" by (simp add: minus_mod_eq_mult_div)
    ultimately have "j \<in> set (file_indices n argc ?i)" unfolding s using j by blast
    moreover have "?i \<in> set [1..<n + 1]" using i unfolding set_upt atLeastLessThan_iff by linarith
    ultimately show "j \<in> set (concat (map (file_indices n argc) [1..<n + 1]))"
      unfolding set_concat list.set_map by blast
  qed
  with dist show ?thesis by (metis distinct_upt set_eq_iff_mset_eq_distinct)
qed

text \<open>A partition number that fits in an \<open>int\<close> survives the conversion.\<close>

lemma sint_ucast_small:
  fixes w :: u64
  assumes "unat w < 2 ^ 31"
  shows "sint (ucast w :: u32) = int (unat w)"
proof -
  have "nat (uint w) < 2 ^ 31" using assms by (simp only: unat_eq_nat_uint)
  then have u: "uint w < 2 ^ 31" by (simp only: nat_less_iff [OF uint_ge_0]) simp
  then have "uint (ucast w :: u32) = uint w" by (simp add: unsigned_ucast_eq take_bit_int_eq_self)
  moreover have "- (2 ^ 31) \<le> uint w" by (rule order_trans [of _ 0]) simp_all
  note signed_take_bit_int_eq_self [OF this u]
  ultimately show ?thesis by (simp add: sint_uint)
qed

lemma hash_in_bounds:
  assumes "0 < num" "num < 2 ^ 31"
  shows "unat (MR_DefaultHashPartition key num) < num"
proof -
  have n: "unat (word_of_nat num :: u64) = num"
    using assms by (simp add: unsigned_of_nat take_bit_nat_eq_self)
  then show lt: "unat (MR_DefaultHashPartition key num) < num"
    using assms by (simp add: MR_DefaultHashPartition_def unat_mod_distrib)
qed

lemma emit_to_reducer:
  assumes p: "unat (part (fst e) nred) < nred" "nred < 2 ^ 31" "length rs = nred"
  shows "MR_EmitToReducer part nred e rs =
    Some (rs[unat (part (fst e) nred) := ll_insert (fst e) (snd e) (rs ! unat (part (fst e) nred))])"
proof -
  define n where "n = unat (part (fst e) nred)"
  have "sint (ucast (part (fst e) nred) :: u32) = int n"
    unfolding n_def using p by (intro sint_ucast_small) simp
  moreover have "n < length rs" using p by (simp add: n_def)
  ultimately show ?thesis by (simp add: MR_EmitToReducer_def flip: n_def)
qed

text \<open>What a sequence of emits leaves in the reducers' chains.\<close>

lemma emit_all_chains:
  assumes "nred < 2 ^ 31" "\<And>k. unat (part k nred) < nred" "length rs = nred" "\<forall>t \<in> set rs. chain_ok t"
  shows "\<exists>rs'. emit_all part nred es rs = Some rs' \<and> length rs' = nred \<and> (\<forall>t \<in> set rs'. chain_ok t) \<and>
    (\<forall>p < nred. \<forall>k. vals (rs' ! p) k =
      (if unat (part k nred) = p then rev (map snd (filter (\<lambda>e. fst e = k) es)) else []) @ vals (rs ! p) k)"
  using assms(3,4)
proof (induction es arbitrary: rs)
  case (Cons e es)
  let ?p = "unat (part (fst e) nred)"
  let ?rs = "rs[?p := ll_insert (fst e) (snd e) (rs ! ?p)]"
  have lt: "?p < length rs" using assms(2) Cons.prems by simp
  have step: "MR_EmitToReducer part nred e rs = Some ?rs"
    using assms(1,2) Cons.prems by (intro emit_to_reducer) auto
  have "\<forall>t \<in> set ?rs. chain_ok t"
  proof
    fix t assume "t \<in> set ?rs"
    then have "t = ll_insert (fst e) (snd e) (rs ! ?p) \<or> t \<in> set rs"
      using set_update_subset_insert [of rs ?p "ll_insert (fst e) (snd e) (rs ! ?p)"] by blast
    moreover have "chain_ok (rs ! ?p)" using Cons.prems(2) lt by simp
    ultimately show "chain_ok t" using Cons.prems(2) ll_insert_ok by blast
  qed
  with Cons.IH [of ?rs] Cons.prems(1) obtain rs' where
    rs': "emit_all part nred es ?rs = Some rs'" "length rs' = nred" "\<forall>t \<in> set rs'. chain_ok t"
    "\<forall>p < nred. \<forall>k. vals (rs' ! p) k =
      (if unat (part k nred) = p then rev (map snd (filter (\<lambda>e. fst e = k) es)) else []) @ vals (?rs ! p) k"
    by auto
  have "vals (?rs ! p) k = (if unat (part k nred) = p \<and> fst e = k then [snd e] else []) @ vals (rs ! p) k" for p k
    using lt by (cases "p = ?p") (auto simp: ll_insert_vals)
  with rs' step show ?case by auto
qed simp

end
