(* ===== verification/WordCount.thy ===== *)
theory WordCount imports MapReduce
begin

text \<open>
  The word count program (\<open>MapReduce/wordcount.c\<close>) as a client of the library: its three callbacks,
  and the end-to-end statement that every word of the files is printed once, with the number
  of its occurrences, by the reducer of its partition, in every order of the emits.  \<open>None\<close> is a
  failed assertion, or a number that does not fit in the buffer of 10 characters.
\<close>

section \<open>Definitions\<close>








section \<open>The threads of the word count\<close>












section \<open>Counting over all threads\<close>
















section \<open>Properties\<close>



text \<open>C12.  The library alone: the arguments from 1 on are dealt out to the mapper threads, each to exactly
  one thread.\<close>

theorem arguments_dealt_once:
  assumes "0 < n"
  shows "mset (concat (map (file_indices n argc) [1..<n + 1])) = mset [1..<argc]"
  by (rule file_indices_split [OF assms])

theorem arguments_dealt_once_witness:
  "mset (file_indices 2 6 1 @ file_indices 2 6 2) = {#1, 2, 3, 4, 5#}"
  using arguments_dealt_once [of 2 6] by (simp add: upt_conv_Cons eval_nat_numeral)

text \<open>C13.  A thread that calls \<open>MR_EmitToCombiner\<close> changes the chain of its own header and no other,
  provided that \<open>pthread_create\<close> has already stored its id; a thread whose id is not stored yet
  gets -1 and the access is outside the array of headers.\<close>

theorem emit_to_combiner_thread:
  assumes tids: "length tids = n + 6" and m: "length mappers = n + 1" and n: "0 < n"
  shows "(\<forall>i. i \<le> n \<and> tids ! i = pid \<and> (\<forall>j < i. tids ! j \<noteq> pid) \<longrightarrow>
      MR_EmitToCombiner tids n pid key v mappers = Some (mappers[i := ll_insert key v (mappers ! i)])) \<and>
    ((\<forall>j \<le> n. tids ! j \<noteq> pid) \<longrightarrow> MR_EmitToCombiner tids n pid key v mappers = None)"
proof -
  have scan: "tid_scan tids n pid j = Some i"
    if "j \<le> i" "i \<le> n + 1" "\<forall>k < i. tids ! k \<noteq> pid" "i = n + 1 \<or> tids ! i = pid" for i j
    using that
  proof (induction "i - j" arbitrary: j)
    case 0
    then show ?case using tids by (auto simp: tid_scan.simps [of tids n pid j])
  next
    case (Suc d)
    then have "tid_scan tids n pid (Suc j) = Some i" by (intro Suc.hyps(1)) auto
    moreover have "tids ! j \<noteq> pid" "j \<le> n" "j < length tids" using Suc tids by auto
    ultimately show ?case by (simp add: tid_scan.simps [of tids n pid j])
  qed
  have "MR_EmitToCombiner tids n pid key v mappers = Some (mappers[i := ll_insert key v (mappers ! i)])"
    if "i \<le> n" "tids ! i = pid" "\<forall>j < i. tids ! j \<noteq> pid" for i
    using scan [of 0 i] that n m by (simp add: MR_EmitToCombiner_def map_thread_id_def)
  moreover have "MR_EmitToCombiner tids n pid key v mappers = None" if "\<forall>j \<le> n. tids ! j \<noteq> pid"
    using scan [of 0 "n + 1"] that n by (simp add: MR_EmitToCombiner_def map_thread_id_def c_index_def)
  ultimately show ?thesis by blast
qed

theorem emit_to_combiner_thread_witness:
  "MR_EmitToCombiner [0, 7, 0, 0, 0, 0, 0] 1 7 [97] [49] [[], []] = Some [[], [([97], [[49]])]] \<and>
   MR_EmitToCombiner [0, 7, 0, 0, 0, 0, 0] 1 8 [97] [49] [[], []] = None"
proof -
  note t = emit_to_combiner_thread [of "[0, 7, 0, 0, 0, 0, 0]" 1 "[[], []]" _ "[97]" "[49]"]
  have "ll_insert [97] [49] [] = [([97], [[49]])]" by (simp add: ll_insert_def)
  moreover have "\<forall>j \<le> 1. [0, 7, 0, 0, 0, 0, 0 :: u64] ! j \<noteq> 8" by (auto simp: le_Suc_eq)
  ultimately show ?thesis using t [of 7] t [of 8] by (auto simp: le_Suc_eq)
qed

text \<open>C14.  \<open>task_division\<close> divides all files, as evenly as possible.\<close>

theorem task_division_even:
  assumes "0 < n"
  shows "length (task_division n files) = n \<and> sum_list (task_division n files) = files \<and>
    (\<forall>a \<in> set (task_division n files). \<forall>b \<in> set (task_division n files). a \<le> b + 1)"
proof -
  have "sum_list (map (\<lambda>i. a + (if i < r then 1 else 0)) [0..<k]) = k * a + min k r" for a r k :: nat
    by (induction k) auto
  then have "sum_list (task_division n files) = n * (files div n) + min n (files mod n)"
    by (simp add: task_division_def)
  moreover have "min n (files mod n) = files mod n" using mod_less_divisor [OF assms, of files] by linarith
  ultimately show ?thesis by (auto simp: task_division_def)
qed

theorem task_division_even_witness: "sum_list (task_division 4 10) = 10"
  using task_division_even [of 4 10] by simp

end
