(* ===== verification/Utils.thy ===== *)
theory Utils imports CLib Runs "HOL-Library.Sublist"
begin

text \<open>
  The command line tools of \<open>UnixFunctions\<close>: \<open>wis-tar\<close>, \<open>wis-untar\<close> and \<open>wis-grep\<close>.  Files are byte
  lists, a file system maps names to files, and \<open>openable\<close> says which names can be created.
  \<open>Exit\<close> is the end of the program with status 1, with the files as they are then; \<open>Crash\<close> is a
  read past the name buffer or of an unset size.
\<close>

section \<open>Definitions\<close>

type_synonym files = "cstr \<Rightarrow> u8 list option"

definition le_bytes :: "nat \<Rightarrow> nat \<Rightarrow> u8 list" where
  "le_bytes w n = map (\<lambda>k. word_of_nat (n div 256 ^ k)) [0..<w]"

fun le_value :: "u8 list \<Rightarrow> nat" where
  "le_value [] = 0"
| "le_value (b # bs) = unat b + 256 * le_value bs"

text \<open>\<open>wis-tar\<close>: the name field, the size as a \<open>long\<close>, and the bytes up to the first one that equals
  \<open>EOF\<close> when it is stored in a \<open>char\<close>.\<close>

definition name_field :: "cstr \<Rightarrow> u8 list" where
  "name_field name =
     (if length name \<ge> 100 then take 100 name else name @ replicate (101 - (length name + 1)) 0)"

fun copy_chars :: "u8 list \<Rightarrow> u8 list" where
  "copy_chars [] = []"
| "copy_chars (c # cs) = (if (scast c :: u32) = -1 then [] else c # copy_chars cs)"

definition tar_entry :: "cstr \<Rightarrow> u8 list \<Rightarrow> u8 list" where
  "tar_entry name content = name_field name @ le_bytes 8 (length content) @ copy_chars content"

fun tar_loop :: "files \<Rightarrow> cstr list \<Rightarrow> u8 list \<Rightarrow> (u8 list, u8 list) run" where
  "tar_loop fs [] out = Ok out"
| "tar_loop fs (name # names) out =
     (case fs name of
        None \<Rightarrow> Exit out
      | Some content \<Rightarrow> tar_loop fs names (out @ tar_entry name content))"

definition tar_main :: "(cstr \<Rightarrow> bool) \<Rightarrow> cstr list \<Rightarrow> files \<Rightarrow> (files, files) run" where
  "tar_main openable argv fs =
     (case argv of
        tarname # name # names \<Rightarrow>
          if \<not> openable tarname then Exit fs
          else (case tar_loop (fs(tarname \<mapsto> [])) (name # names) [] of
                  Ok out \<Rightarrow> Ok (fs(tarname \<mapsto> out))
                | Exit out \<Rightarrow> Exit (fs(tarname \<mapsto> out))
                | _ \<Rightarrow> Crash)
      | _ \<Rightarrow> Exit fs)"

text \<open>\<open>wis-untar\<close>: a short read of the name leaves the rest of the buffer as it was; a byte that is
  missing in the archive is read as \<open>EOF\<close> and written as 255.\<close>

definition read_chars :: "nat \<Rightarrow> u8 list \<Rightarrow> u8 list" where
  "read_chars n bs = take n bs @ replicate (n - length bs) 255"

function untar_loop :: "(cstr \<Rightarrow> bool) \<Rightarrow> u8 list \<Rightarrow> u8 list \<Rightarrow> files \<Rightarrow> (files, files) run" where
  "untar_loop openable buf tar fs =
     (if tar = [] then Ok fs
      else
        (let buf = take 100 tar @ drop (length (take 100 tar)) buf; rest = drop 100 tar in
         if 0 \<notin> set buf then Crash
         else if \<not> openable (cut0 buf) then Exit fs
         else if length rest < 8 then Crash
         else
           (let n = sint (word_of_nat (le_value (take 8 rest)) :: u64); bytes = drop 8 rest in
            if n \<ge> 2 ^ 31 then Crash
            else untar_loop openable buf (drop (nat n) bytes) (fs(cut0 buf \<mapsto> read_chars (nat n) bytes)))))"
  by pat_completeness auto
termination by (relation "measure (\<lambda>(op, buf, tar, fs). length tar)") (auto simp: Let_def)

declare untar_loop.simps [simp del]

definition untar_main :: "(cstr \<Rightarrow> bool) \<Rightarrow> u8 list \<Rightarrow> cstr list \<Rightarrow> files \<Rightarrow> (files, files) run" where
  "untar_main openable junk argv fs =
     (case argv of
        [] \<Rightarrow> Exit fs
      | tarname # _ \<Rightarrow>
          (case fs tarname of None \<Rightarrow> Exit fs | Some tar \<Rightarrow> untar_loop openable junk tar fs))"

text \<open>\<open>wis-grep\<close>: the inner loop over \<open>j\<close>, the loop over \<open>i\<close> up to the first match, the loop over the
  lines, the loop over the files; \<open>printf ("%s")\<close> stops at a zero byte.\<close>

fun match_loop :: "cstr \<Rightarrow> u8 list \<Rightarrow> nat \<Rightarrow> nat \<Rightarrow> bool \<Rightarrow> bool" where
  "match_loop term line i 0 found = found"
| "match_loop term line i (Suc k) found =
     (let index = length term - Suc k in
      match_loop term line i k (if term ! index \<noteq> line ! (i + index) then False else found))"

fun line_loop :: "cstr \<Rightarrow> u8 list \<Rightarrow> nat list \<Rightarrow> bool" where
  "line_loop term line [] = False"
| "line_loop term line (i # is) =
     (if match_loop term line i (length term) True then True else line_loop term line is)"

definition line_matches :: "cstr \<Rightarrow> u8 list \<Rightarrow> bool" where
  "line_matches term line =
     (if length term \<le> length line then line_loop term line [0..<length line - length term + 1] else False)"

fun grep_lines :: "cstr \<Rightarrow> u8 list list \<Rightarrow> u8 list" where
  "grep_lines term [] = []"
| "grep_lines term (l # ls) = (if line_matches term l then cut0 l else []) @ grep_lines term ls"

fun grep_files :: "cstr \<Rightarrow> files \<Rightarrow> cstr list \<Rightarrow> u8 list \<Rightarrow> (u8 list, u8 list) run" where
  "grep_files term fs [] out = Ok out"
| "grep_files term fs (name # names) out =
     (case fs name of
        None \<Rightarrow> Exit out
      | Some c \<Rightarrow> grep_files term fs names (out @ grep_lines term (getlines c)))"

definition grep_main :: "files \<Rightarrow> u8 list \<Rightarrow> cstr list \<Rightarrow> (u8 list, u8 list) run" where
  "grep_main fs stdin argv =
     (case argv of
        [] \<Rightarrow> Exit []
      | [term] \<Rightarrow> Ok (grep_lines term (getlines stdin))
      | term # names \<Rightarrow> grep_files term fs names [])"

section \<open>Archives\<close>

lemma length_le_bytes [simp]: "length (le_bytes w n) = w"
  by (simp add: le_bytes_def)

lemma le_bytes_Suc: "le_bytes (Suc w) n = word_of_nat n # le_bytes w (n div 256)"
  unfolding le_bytes_def upt_conv_Cons [OF zero_less_Suc] map_Suc_upt [symmetric]
  by (simp add: comp_def div_mult2_eq)

lemma le_value_bytes: "n < 256 ^ w \<Longrightarrow> le_value (le_bytes w n) = n"
proof (induction w arbitrary: n)
  case 0
  then show ?case by (simp add: le_bytes_def)
next
  case (Suc w)
  then have "n div 256 < 256 ^ w" by (simp add: less_mult_imp_div_less mult.commute)
  with Suc.IH show ?case by (simp add: le_bytes_Suc unsigned_of_nat take_bit_eq_mod)
qed

lemma scast_EOF: "(scast (c :: u8) :: u32) = -1 \<longleftrightarrow> c = 255"
proof
  assume "(scast c :: u32) = -1"
  then have "sint (scast c :: u32) = -1" by simp
  moreover have "sint (scast c :: u32) = sint c" by (simp add: sint_up_scast is_up)
  ultimately have "sint c = -1" by simp
  then have "word_of_int (sint c) = (word_of_int (-1) :: u8)" by simp
  then show "c = 255" by simp
qed simp

lemma copy_chars_takeWhile: "copy_chars cs = takeWhile (\<lambda>c. c \<noteq> 255) cs"
  by (induction cs) (auto simp: scast_EOF)

lemma name_field_short: "length name < 100 \<Longrightarrow> name_field name = name @ replicate (100 - length name) 0"
  by (simp add: name_field_def)

lemma length_name_field [simp]: "length (name_field name) = 100"
  by (auto simp: name_field_def)

lemma cut0_append: "0 \<notin> set xs \<Longrightarrow> cut0 (xs @ 0 # ys) = xs"
  by (induction xs) (auto simp: cut0_def)

lemma size_roundtrip:
  assumes "n < 2 ^ 31"
  shows "sint (word_of_nat (le_value (le_bytes 8 n)) :: u64) = int n"
proof -
  have "n < 256 ^ 8" using assms by simp
  then have "le_value (le_bytes 8 n) = n" by (rule le_value_bytes)
  moreover have "sint (word_of_nat n :: u64) = int n"
  proof -
    have u: "uint (word_of_nat n :: u64) = int n"
      using assms by (simp add: unsigned_of_nat take_bit_nat_eq_self)
    have "- (2 ^ 63) \<le> int n" by (rule order_trans [of _ 0]) simp_all
    moreover have "int n < 2 ^ 63" using assms by simp
    ultimately have "signed_take_bit 63 (int n) = int n" by (rule signed_take_bit_int_eq_self)
    then show ?thesis by (simp add: sint_uint u)
  qed
  ultimately show ?thesis by simp
qed

lemma untar_step:
  assumes t: "tar = nf @ sz @ body" "length nf = 100" "length sz = 8" "length buf = 100"
    and z: "0 \<in> set nf" "openable (cut0 nf)"
    and n: "sint (word_of_nat (le_value sz) :: u64) = int n" "n < 2 ^ 31"
  shows "untar_loop openable buf tar fs =
    untar_loop openable nf (drop n body) (fs(cut0 nf \<mapsto> read_chars n body))"
proof -
  have e: "tar \<noteq> []" "take 100 tar = nf" "drop 100 tar = sz @ body" using t by auto
  have b: "take 100 tar @ drop (length (take 100 tar)) buf = nf" using e(2) t(2,4) by simp
  have s: "take 8 (sz @ body) = sz" "drop 8 (sz @ body) = body" "\<not> length (sz @ body) < 8" using t(3) by auto
  have m: "\<not> int n \<ge> 2 ^ 31" using n(2) by simp
  show ?thesis
    unfolding untar_loop.simps [of openable buf tar fs] Let_def b e(3) s n(1) nat_int
    using e(1) z m s(3) by (simp only: if_False if_True not_not not_True_eq_False)
qed

text \<open>One entry read back: the bytes of the file, cut at the first 255 and filled up from what follows.\<close>

lemma untar_entry:
  assumes n: "length name < 100" "0 \<notin> set name" "openable name" and l: "length buf = 100" "length content < 2 ^ 31"
  shows "untar_loop openable buf (tar_entry name content @ more) fs =
    (let body = copy_chars content @ more in
     untar_loop openable (name_field name) (drop (length content) body)
       (fs(name \<mapsto> read_chars (length content) body)))"
proof -
  define nf sz where "nf = name_field name" and "sz = le_bytes 8 (length content)"
  have len: "length nf = 100" "length sz = 8" by (simp_all add: nf_def sz_def)
  have t: "tar_entry name content @ more = nf @ sz @ copy_chars content @ more"
    by (simp add: tar_entry_def nf_def sz_def)
  have nf: "nf = name @ 0 # replicate (99 - length name) 0"
  proof -
    have "100 - length name = Suc (99 - length name)" using n(1) by simp
    then show ?thesis by (simp only: nf_def name_field_short [OF n(1)] replicate_Suc)
  qed
  have z: "0 \<in> set nf" "cut0 nf = name" using cut0_append [OF n(2)] unfolding nf by simp_all
  have size: "sint (word_of_nat (le_value sz) :: u64) = int (length content)"
    unfolding sz_def by (rule size_roundtrip [OF l(2)])
  have "openable (cut0 nf)" using n(3) z(2) by simp
  from untar_step [where openable = openable, OF t len l(1) z(1) this size l(2)] z(2)
  show ?thesis by (simp add: Let_def nf_def)
qed


text \<open>What the entries of a list of files leave in the file system.\<close>

fun unpack :: "(cstr \<times> u8 list) list \<Rightarrow> files \<Rightarrow> files" where
  "unpack [] fs = fs"
| "unpack ((name, content) # fl) fs = unpack fl (fs(name \<mapsto> content))"

definition archivable :: "(cstr \<Rightarrow> bool) \<Rightarrow> cstr \<times> u8 list \<Rightarrow> bool" where
  "archivable openable f \<longleftrightarrow> length (fst f) < 100 \<and> 0 \<notin> set (fst f) \<and> openable (fst f) \<and>
     length (snd f) < 2 ^ 31 \<and> 255 \<notin> set (snd f)"

lemma copy_chars_clean: "255 \<notin> set cs \<Longrightarrow> copy_chars cs = cs"
  by (auto simp: copy_chars_takeWhile takeWhile_eq_all_conv)

lemma untar_files:
  "\<forall>f \<in> set fl. archivable openable f \<Longrightarrow> length buf = 100 \<Longrightarrow>
   untar_loop openable buf (concat (map (\<lambda>f. tar_entry (fst f) (snd f)) fl)) fs = Ok (unpack fl fs)"
proof (induction fl arbitrary: buf fs)
  case Nil
  then show ?case by (simp add: untar_loop.simps)
next
  case (Cons f fl)
  obtain name content where f: "f = (name, content)" by fastforce
  with Cons.prems have a: "length name < 100" "0 \<notin> set name" "openable name" "length content < 2 ^ 31"
    "255 \<notin> set content" by (auto simp: archivable_def)
  have "copy_chars content = content" by (rule copy_chars_clean [OF a(5)])
  moreover have "length (name_field name) = 100" by simp
  ultimately show ?case
    using untar_entry [where openable = openable, OF a(1-3) Cons.prems(2) a(4)] Cons.IH [of "name_field name"] Cons.prems(1)
    by (simp add: f Let_def read_chars_def)
qed

lemma tar_loop_all:
  "\<forall>f \<in> set fl. fs (fst f) = Some (snd f) \<Longrightarrow>
   tar_loop fs (map fst fl) out = Ok (out @ concat (map (\<lambda>f. tar_entry (fst f) (snd f)) fl))"
  by (induction fl arbitrary: out) auto

lemma unpack_other: "name \<notin> fst ` set fl \<Longrightarrow> unpack fl fs name = fs name"
  by (induction fl fs rule: unpack.induct) auto

lemma unpack_in: "distinct (map fst fl) \<Longrightarrow> (name, content) \<in> set fl \<Longrightarrow> unpack fl fs name = Some content"
  by (induction fl fs rule: unpack.induct) (auto simp: unpack_other)

section \<open>Searching\<close>

lemma match_loop_spec:
  "k \<le> length term \<Longrightarrow> match_loop term line i k found \<longleftrightarrow>
   found \<and> (\<forall>j. length term - k \<le> j \<and> j < length term \<longrightarrow> term ! j = line ! (i + j))"
proof (induction k arbitrary: found)
  case 0
  then show ?case by auto
next
  case (Suc k)
  let ?d = "length term - Suc k"
  have "j = ?d \<or> length term - k \<le> j \<longleftrightarrow> ?d \<le> j" for j using Suc.prems by auto
  moreover have "?d < length term" using Suc.prems by simp
  ultimately have "(\<forall>j. ?d \<le> j \<and> j < length term \<longrightarrow> term ! j = line ! (i + j)) \<longleftrightarrow>
    term ! ?d = line ! (i + ?d) \<and> (\<forall>j. length term - k \<le> j \<and> j < length term \<longrightarrow> term ! j = line ! (i + j))"
    by metis
  with Suc show ?case by (simp add: Let_def)
qed

lemma line_loop_spec: "line_loop term line is \<longleftrightarrow> (\<exists>i \<in> set is. match_loop term line i (length term) True)"
  by (induction "is") auto

lemma line_matches_sublist: "line_matches term line \<longleftrightarrow> sublist term line"
proof
  assume m: "line_matches term line"
  then have le: "length term \<le> length line"
    and "line_loop term line [0..<length line - length term + 1]"
    by (simp_all add: line_matches_def split: if_splits del: upt_Suc)
  then obtain i where "i \<in> set [0..<length line - length term + 1]" and m: "match_loop term line i (length term) True"
    unfolding line_loop_spec by blast
  then have "i < length line - length term + 1" unfolding set_upt by simp
  then have i: "i + length term \<le> length line" "\<forall>j < length term. term ! j = line ! (i + j)"
    using le m by (simp_all add: match_loop_spec)
  have "term = take (length term) (drop i line)"
    using i by (intro nth_equalityI) auto
  then have "line = take i line @ term @ drop (length term) (drop i line)"
    by (metis append_take_drop_id)
  then show "sublist term line" unfolding sublist_def by blast
next
  assume "sublist term line"
  then obtain xs ys where "line = xs @ term @ ys" by (auto simp: sublist_def)
  then show "line_matches term line"
    by (auto simp: line_matches_def line_loop_spec match_loop_spec nth_append intro!: bexI [of _ "length xs"])
qed

lemma grep_lines_spec: "grep_lines term ls = concat (map cut0 (filter (sublist term) ls))"
  by (induction ls) (auto simp: line_matches_sublist)

section \<open>Properties\<close>

text \<open>C15.  Round trip: an archive of files with distinct names of fewer than 100 characters, without a byte
  255 in their contents and smaller than 2 GB, is extracted to exactly these files; no other file changes.\<close>

theorem tar_untar_roundtrip:
  assumes files: "\<forall>f \<in> set fl. fs (fst f) = Some (snd f) \<and> archivable openable f" "fl \<noteq> []" "distinct (map fst fl)"
    and tar: "tarname \<notin> fst ` set fl" "openable tarname" and junk: "length junk = 100"
  shows "\<exists>fs1 fs2. tar_main openable (tarname # map fst fl) fs = Ok fs1 \<and>
    (\<forall>name. name \<noteq> tarname \<longrightarrow> fs1 name = fs name) \<and>
    untar_main openable junk [tarname] (other(tarname := fs1 tarname)) = Ok fs2 \<and>
    (\<forall>(name, content) \<in> set fl. fs2 name = Some content) \<and>
    (\<forall>name. name \<notin> fst ` set fl \<and> name \<noteq> tarname \<longrightarrow> fs2 name = other name)"
proof -
  let ?out = "concat (map (\<lambda>f. tar_entry (fst f) (snd f)) fl)"
  let ?fs2 = "unpack fl (other(tarname \<mapsto> ?out))"
  have "\<forall>f \<in> set fl. (fs(tarname \<mapsto> [])) (fst f) = Some (snd f)" using files tar by auto
  from tar_loop_all [OF this, of "[]"] have l: "tar_loop (fs(tarname \<mapsto> [])) (map fst fl) [] = Ok ?out"
    by (simp only: append_Nil)
  obtain name names where n: "map fst fl = name # names" using files(2) by (cases fl) auto
  have t: "tar_main openable (tarname # map fst fl) fs = Ok (fs(tarname \<mapsto> ?out))"
    using l tar(2) unfolding n by (simp add: tar_main_def del: tar_loop.simps)
  have u: "untar_main openable junk [tarname] (other(tarname \<mapsto> ?out)) = Ok ?fs2"
    using untar_files [OF _ junk, of fl openable] files(1) by (simp add: untar_main_def)
  have "\<forall>(name, content) \<in> set fl. ?fs2 name = Some content" using unpack_in [OF files(3)] by auto
  moreover have "?fs2 name = other name" if "name \<notin> fst ` set fl" "name \<noteq> tarname" for name
    using unpack_other [OF that(1)] that(2) by simp
  ultimately show ?thesis using t u by (intro exI [of _ "fs(tarname \<mapsto> ?out)"] exI [of _ ?fs2]) auto
qed

theorem tar_untar_roundtrip_witness:
  "\<exists>fs1 fs2. tar_main (\<lambda>_. True) [[116], [97], [98]] [[97] \<mapsto> [1, 2], [98] \<mapsto> []] = Ok fs1 \<and>
     untar_main (\<lambda>_. True) (replicate 100 0) [[116]] (Map.empty([116] := fs1 [116])) = Ok fs2 \<and>
     fs2 [97] = Some [1, 2] \<and> fs2 [98] = Some []"
  using tar_untar_roundtrip [where fl = "[([97], [1, 2]), ([98], [])]" and openable = "\<lambda>_. True"
      and fs = "[[97] \<mapsto> [1, 2], [98] \<mapsto> []]" and tarname = "[116]" and junk = "replicate 100 0" and other = Map.empty]
  by (auto simp: archivable_def)

text \<open>C16.  A file with a byte 255 is not restored: the archive records its full size but holds only the bytes
  in front of the first 255, and extracting the archive of one file fills the rest up with 255.\<close>

theorem tar_stops_at_255:
  assumes "length name < 100" "0 \<notin> set name" "openable name" "length content < 2 ^ 31" "length junk = 100"
  shows "\<exists>fs2. untar_loop openable junk (tar_entry name content) fs = Ok fs2 \<and>
    fs2 name = Some (takeWhile (\<lambda>c. c \<noteq> 255) content @
      replicate (length content - length (takeWhile (\<lambda>c. c \<noteq> 255) content)) 255)"
proof -
  have l: "length (takeWhile (\<lambda>c. c \<noteq> 255) content) \<le> length content" by (rule length_takeWhile_le)
  then have "drop (length content) (copy_chars content) = []" by (simp add: copy_chars_takeWhile)
  then show ?thesis
    using untar_entry [where openable = openable, OF assms(1-3) assms(5,4), of "[]" fs] l
    by (simp add: Let_def untar_loop.simps [of _ _ "[]"] read_chars_def copy_chars_takeWhile)
qed

theorem tar_stops_at_255_witness:
  "\<exists>fs2. untar_loop (\<lambda>_. True) (replicate 100 0) (tar_entry [97] [1, 255, 2]) Map.empty = Ok fs2 \<and>
     fs2 [97] = Some [1, 255, 255]"
proof -
  have "takeWhile (\<lambda>c. c \<noteq> 255) [1, 255, 2 :: u8] = [1]" "length [1, 255, 2 :: u8] - length [1 :: u8] = Suc (Suc 0)"
    by simp_all
  with tar_stops_at_255 [of "[97]" "\<lambda>_. True" "[1, 255, 2]" "replicate 100 0" Map.empty]
  show ?thesis by simp
qed

text \<open>C17.  \<open>wis-grep\<close> prints the lines that contain the search term as a contiguous part, in order, of all
  files if each can be opened, and otherwise of the files in front of the first that cannot.\<close>

theorem grep_main_lines:
  assumes "names \<noteq> []"
  shows "grep_main fs stdin (term # names) =
    (let good = takeWhile (\<lambda>n. fs n \<noteq> None) names;
         out = concat (map (\<lambda>n. concat (map cut0 (filter (sublist term) (getlines (the (fs n)))))) good)
     in if good = names then Ok out else Exit out)"
proof -
  have "grep_files term fs ns out =
    (let good = takeWhile (\<lambda>n. fs n \<noteq> None) ns;
         res = out @ concat (map (\<lambda>n. concat (map cut0 (filter (sublist term) (getlines (the (fs n)))))) good)
     in if good = ns then Ok res else Exit res)" for ns out
    by (induction ns arbitrary: out)
      (auto simp: grep_lines_spec Let_def takeWhile_eq_all_conv [THEN iffD2] split: option.splits)
  from this [of names "[]"] assms show ?thesis by (cases names) (simp_all add: grep_main_def)
qed

theorem grep_main_lines_witness:
  "grep_main [[102] \<mapsto> [97, 98, 10, 99, 10]] [] [[98], [102]] = Ok [97, 98, 10]"
  using grep_main_lines [of "[[102]]" "[[102] \<mapsto> [97, 98, 10, 99, 10]]" "[]" "[98]"]
  by (simp add: sublist_Cons_right cut0_def Let_def)

end
