(* ===== verification/Shell.thy ===== *)
theory Shell imports CLib Runs
begin

text \<open>
  The shell \<open>Unix shell/smash.c\<close>: the list of search directories, the syntax check of a line, and
  what a line then does.  Strings are C strings; a string that \<open>strsep\<close> cut out of a larger one
  has a zero byte in front, one at the start of its buffer has nothing (the parameter \<open>first\<close> of
  \<open>trim\<close>).  \<open>access\<close> says which files are executable.  \<open>None\<close> is an access outside a buffer or
  through a null pointer.
\<close>

section \<open>Definitions\<close>

record shell =
  path_list :: "cstr list"
  path_length :: nat

subsection \<open>The search path\<close>

definition push :: "cstr \<Rightarrow> cstr list \<Rightarrow> cstr list" where
  "push d p = d # p"

text \<open>The loop of \<open>delete_node\<close> behind the head: the result is \<open>None\<close> at the end of the list.\<close>

fun delete_after :: "cstr list \<Rightarrow> cstr \<Rightarrow> cstr list option" where
  "delete_after [] key = None"
| "delete_after (d # ds) key = (if d = key then Some ds else map_option ((#) d) (delete_after ds key))"

definition delete_node :: "cstr list \<Rightarrow> cstr \<Rightarrow> int \<times> cstr list" where
  "delete_node p key =
     (case p of
        d # ds \<Rightarrow>
          if d = key then (1, ds)
          else (case delete_after p key of None \<Rightarrow> (0, p) | Some p' \<Rightarrow> (1, p'))
      | [] \<Rightarrow> (0, []))"

definition clear_path :: "cstr list \<Rightarrow> cstr list" where
  "clear_path p = []"

fun remove_space :: "cstr \<Rightarrow> cstr" where
  "remove_space [] = []"
| "remove_space (c # cs) = (if c \<noteq> 32 then c # remove_space cs else remove_space cs)"

definition strip_right :: "cstr \<Rightarrow> cstr" where
  "strip_right s = rev (dropWhile isspace (rev s))"

definition trim :: "bool \<Rightarrow> cstr \<Rightarrow> cstr option" where
  "trim first s =
     (let t = dropWhile isspace s in
      if t = [] \<and> first then None else Some (strip_right t))"

text \<open>\<open>checkpath\<close>: the buffer has 1024 bytes; the empty string is "not found".\<close>

fun checkpath_loop :: "(cstr \<Rightarrow> bool) \<Rightarrow> cstr \<Rightarrow> nat \<Rightarrow> cstr list \<Rightarrow> cstr option" where
  "checkpath_loop access str 0 cur = Some []"
| "checkpath_loop access str (Suc n) [] = None"
| "checkpath_loop access str (Suc n) (d # cur) =
     (let path = d @ [47] @ str in
      if length path \<ge> 1024 then None
      else if access path then Some path
      else checkpath_loop access str n cur)"

definition checkpath :: "(cstr \<Rightarrow> bool) \<Rightarrow> shell \<Rightarrow> cstr \<Rightarrow> cstr option" where
  "checkpath access sh str = checkpath_loop access str (path_length sh) (path_list sh)"

subsection \<open>The syntax check\<close>

fun count_args :: "cstr list \<Rightarrow> nat" where
  "count_args [] = 0"
| "count_args (p # ps) = (if length p > 0 then 1 + count_args ps else count_args ps)"

fun any_arg :: "cstr list \<Rightarrow> bool" where
  "any_arg [] = False"
| "any_arg (p # ps) = (if length p > 0 then True else any_arg ps)"

fun skip_empty :: "cstr list \<Rightarrow> cstr list" where
  "skip_empty [] = []"
| "skip_empty (p # ps) = (if length p \<le> 0 then skip_empty ps else p # ps)"

text \<open>The names and separators of the source.\<close>

definition s_exit :: cstr where "s_exit = [101, 120, 105, 116]"
definition s_cd :: cstr where "s_cd = [99, 100]"
definition s_path :: cstr where "s_path = [112, 97, 116, 104]"
definition s_add :: cstr where "s_add = [97, 100, 100]"
definition s_remove :: cstr where "s_remove = [114, 101, 109, 111, 118, 101]"
definition s_clear :: cstr where "s_clear = [99, 108, 101, 97, 114]"

text \<open>The check of the \<open>path\<close> command behind its name: \<open>True\<close> is an error.\<close>

definition path_error :: "cstr list \<Rightarrow> bool" where
  "path_error args =
     (case skip_empty args of
        [] \<Rightarrow> True
      | p3 # rest \<Rightarrow>
          if p3 = s_add then count_args rest \<noteq> 1
          else if p3 = s_remove then count_args rest \<noteq> 1
          else if p3 = s_clear then any_arg rest
          else True)"

definition plain_error :: "(cstr \<Rightarrow> bool) \<Rightarrow> shell \<Rightarrow> cstr \<Rightarrow> bool option" where
  "plain_error access sh p2 =
     (let words = tokens {32} p2; p3 = hd words; rest = tl words in
      if p3 = s_exit then Some (any_arg rest)
      else if p3 = s_cd then Some (count_args rest \<noteq> 1)
      else if p3 = s_path then Some (path_error rest)
      else do { command \<leftarrow> checkpath access sh p3; Some (length command = 0) })"

definition redirect_error :: "(cstr \<Rightarrow> bool) \<Rightarrow> shell \<Rightarrow> cstr \<Rightarrow> bool option" where
  "redirect_error access sh p2 =
     (let parts = tokens {62} p2 in
      do { p4 \<leftarrow> trim True (hd (tokens {32} (hd parts)));
           command \<leftarrow> checkpath access sh p4;
           if length command = 0 then Some True
           else do {
             p5 \<leftarrow> trim False (hd (tl parts));
             if length p5 = 0 then Some True
             else Some (length (filter (\<lambda>c. c = 62) p2) > 1) } })"

definition command_error :: "(cstr \<Rightarrow> bool) \<Rightarrow> shell \<Rightarrow> bool \<Rightarrow> cstr \<Rightarrow> bool option" where
  "command_error access sh first p2 = do {
     p2 \<leftarrow> trim first p2;
     if length p2 > 0
     then (if 62 \<notin> set p2 then plain_error access sh p2 else redirect_error access sh p2)
     else Some False }"

text \<open>The loop over the tokens with the early returns; the first token is at the start of its buffer.\<close>

fun error_loop :: "(bool \<Rightarrow> cstr \<Rightarrow> bool option) \<Rightarrow> bool \<Rightarrow> cstr list \<Rightarrow> bool option" where
  "error_loop f first [] = Some False"
| "error_loop f first (p # ps) = do { e \<leftarrow> f first p; if e then Some True else error_loop f False ps }"

definition sequence_error :: "(cstr \<Rightarrow> bool) \<Rightarrow> shell \<Rightarrow> bool \<Rightarrow> cstr \<Rightarrow> bool option" where
  "sequence_error access sh first p1 = do {
     p1 \<leftarrow> trim first p1;
     if length p1 > 0 then error_loop (command_error access sh) True (tokens {38} p1) else Some False }"

definition checksyntax :: "(cstr \<Rightarrow> bool) \<Rightarrow> shell \<Rightarrow> cstr \<Rightarrow> int option" where
  "checksyntax access sh line = do {
     str \<leftarrow> trim True line;
     e \<leftarrow> error_loop (sequence_error access sh) True (tokens {59} str);
     Some (if e then 1 else 0) }"

subsection \<open>Running a line\<close>

datatype action = AError | AChdir cstr | ARun cstr cstr "cstr list" "cstr option" | AQuit

text \<open>The search of an external command: it is run from every directory that has it.\<close>

fun run_loop :: "(cstr \<Rightarrow> bool) \<Rightarrow> cstr \<Rightarrow> cstr list \<Rightarrow> cstr option \<Rightarrow> nat \<Rightarrow> cstr list \<Rightarrow> action list option" where
  "run_loop access cmd args out 0 cur = Some []"
| "run_loop access cmd args out (Suc n) [] = None"
| "run_loop access cmd args out (Suc n) (d # cur) = do {
     let path = d @ [47] @ cmd;
     rest \<leftarrow> run_loop access cmd args out n cur;
     Some (if access path then ARun path cmd args out # rest else rest) }"

text \<open>One command between \<open>&\<close>; the copy of its name is allocated with the size of a pointer.  \<open>success\<close>
  is carried on from command to command.\<close>

definition external :: "(cstr \<Rightarrow> bool) \<Rightarrow> shell \<Rightarrow> cstr \<Rightarrow> bool \<Rightarrow> (action list \<times> bool) option" where
  "external access sh cmd success =
     (let (real_cmd, r) = strsep {62} cmd;
          out = (case r of None \<Rightarrow> None
                 | Some r \<Rightarrow> (case skip_empty (tokens {32} (fst (strsep {62} r))) of [] \<Rightarrow> None | a # _ \<Rightarrow> Some a))
      in case skip_empty (tokens {32} real_cmd) of
           [] \<Rightarrow> Some ([], success)
         | final_cmd # rest \<Rightarrow>
             let args = filter (\<lambda>a. length a > 0) rest in
             if length final_cmd \<ge> 8 \<or> length args > 1024 then None
             else do {
               runs \<leftarrow> run_loop access final_cmd args out (path_length sh) (path_list sh);
               let success' = (success \<or> runs \<noteq> []);
               Some (runs @ (if success' then [] else [AError]), success') })"

fun external_loop :: "(cstr \<Rightarrow> bool) \<Rightarrow> shell \<Rightarrow> cstr list \<Rightarrow> bool \<Rightarrow> action list option" where
  "external_loop access sh [] success = Some []"
| "external_loop access sh (cmd # cmds) success =
     (if length cmd > 0
      then do {
        (acts, success) \<leftarrow> external access sh cmd success;
        rest \<leftarrow> external_loop access sh cmds success;
        Some (acts @ rest) }
      else external_loop access sh cmds success)"

text \<open>The \<open>path\<close> command: \<open>buffer_args\<close> has three entries.\<close>

definition run_path :: "cstr list \<Rightarrow> shell \<Rightarrow> (action list \<times> shell) option" where
  "run_path args sh =
     (if length args > 3 \<or> length args < 2 then None
      else if args ! 1 = s_add
      then (if length args < 3 then None
            else Some ([], sh\<lparr>path_list := push (args ! 2) (path_list sh), path_length := path_length sh + 1\<rparr>))
      else if args ! 1 = s_remove
      then (if length args < 3 then None
            else (case delete_node (path_list sh) (args ! 2) of
                    (r, p) \<Rightarrow> if r = 0 then Some ([AError], sh)
                              else Some ([], sh\<lparr>path_list := p, path_length := path_length sh - 1\<rparr>)))
      else if args ! 1 = s_clear
      then Some ([], sh\<lparr>path_list := clear_path (path_list sh), path_length := 0\<rparr>)
      else Some ([AError], sh))"

text \<open>The loop over the commands between \<open>;\<close>; \<open>chdir\<close> says which directories can be entered.  An error of
  \<open>cd\<close> ends the loop.\<close>

fun run_commands :: "(cstr \<Rightarrow> bool) \<Rightarrow> (cstr \<Rightarrow> bool) \<Rightarrow> cstr list \<Rightarrow> shell \<Rightarrow> (action list \<times> shell) option" where
  "run_commands access chdir [] sh = Some ([], sh)"
| "run_commands access chdir (c # cs) sh =
     (case skip_empty (tokens {32} c) of
        [] \<Rightarrow> run_commands access chdir cs sh
      | cmd # rest \<Rightarrow>
          let args = cmd # filter (\<lambda>a. length a > 0) rest in
          if cmd = s_exit then Some ([AQuit], sh)
          else if cmd = s_cd
          then (if length args = 2 \<and> chdir (args ! 1)
                then do { (acts, sh) \<leftarrow> run_commands access chdir cs sh; Some (AChdir (args ! 1) # acts, sh) }
                else if length args > 2 then Some ([AError, AError], sh)
                else Some ([AError], sh))
          else if cmd = s_path
          then do {
            (acts, sh) \<leftarrow> run_path args sh;
            (acts', sh) \<leftarrow> run_commands access chdir cs sh;
            Some (acts @ acts', sh) }
          else do {
            acts \<leftarrow> external_loop access sh (tokens {38} c) False;
            (acts', sh) \<leftarrow> run_commands access chdir cs sh;
            Some (acts @ acts', sh) })"

text \<open>One line of the main loop: the check cuts white space off the end of the line itself; a line that
  fails it has no effect.\<close>

definition run_line :: "(cstr \<Rightarrow> bool) \<Rightarrow> (cstr \<Rightarrow> bool) \<Rightarrow> cstr \<Rightarrow> shell \<Rightarrow> (action list \<times> shell) option" where
  "run_line access chdir line sh = do {
     e \<leftarrow> checksyntax access sh line;
     if e = 1 then Some ([AError], sh)
     else run_commands access chdir (tokens {59} (strip_right line)) sh }"

definition shell0 :: shell where
  "shell0 = \<lparr>path_list = push [47, 98, 105, 110] [], path_length = 1\<rparr>"


text \<open>The line \<open>path add x & ls\<close>.\<close>

definition bad_line :: cstr where
  "bad_line = s_path @ [32] @ s_add @ [32, 120, 32, 38, 32, 108, 115]"

section \<open>The search path\<close>

definition shell_ok :: "shell \<Rightarrow> bool" where
  "shell_ok sh \<longleftrightarrow> path_length sh = length (path_list sh)"

lemma delete_after_remove1: "delete_after p key = (if key \<in> set p then Some (remove1 key p) else None)"
  by (induction p) auto

lemma delete_node_spec: "delete_node p key = (if key \<in> set p then (1, remove1 key p) else (0, p))"
  by (cases p) (auto simp: delete_node_def delete_after_remove1)

lemma run_path_ok: "shell_ok sh \<Longrightarrow> run_path args sh = Some (acts, sh') \<Longrightarrow> shell_ok sh'"
  by (auto simp: run_path_def shell_ok_def push_def clear_path_def delete_node_spec length_remove1
      split: if_split_asm dest: length_pos_if_in_set)

lemma run_commands_ok: "shell_ok sh \<Longrightarrow> run_commands access chdir cs sh = Some (acts, sh') \<Longrightarrow> shell_ok sh'"
proof (induction cs arbitrary: sh acts)
  case (Cons c cs)
  show ?case
  proof (cases "skip_empty (tokens {32} c)")
    case Nil
    with Cons show ?thesis by simp
  next
    case (Cons cmd rest)
    with Cons.IH Cons.prems show ?thesis
      by (auto simp: Let_def bind_eq_Some_conv split: if_split_asm dest: run_path_ok [OF Cons.prems(1)])
  qed
qed simp

lemma checkpath_first:
  assumes "\<forall>d \<in> set ds. length d + length str + 1 < 1024"
  shows "checkpath_loop access str (length ds) ds =
    Some (case filter (\<lambda>d. access (d @ [47] @ str)) ds of [] \<Rightarrow> [] | d # _ \<Rightarrow> d @ [47] @ str)"
  using assms by (induction ds) (auto simp: Let_def)

lemma run_loop_filter:
  "run_loop access cmd args out (length ds) ds =
   Some (map (\<lambda>d. ARun (d @ [47] @ cmd) cmd args out) (filter (\<lambda>d. access (d @ [47] @ cmd)) ds))"
  by (induction ds) (auto simp: Let_def)

section \<open>Properties\<close>

text \<open>C18.  The counter of the search path is the length of the list after any line, so the loops over
  the list never run off its end; \<open>path add\<close>, \<open>path remove\<close> and \<open>path clear\<close> are insertion at the
  front, deletion of the first occurrence, with an error exactly when there is none, and emptying.\<close>

theorem path_commands:
  assumes ok: "shell_ok sh"
  shows "(\<forall>line acts sh'. run_line access chdir line sh = Some (acts, sh') \<longrightarrow> shell_ok sh') \<and>
    run_path [s_path, s_add, d] sh = Some ([], sh\<lparr>path_list := d # path_list sh, path_length := length (path_list sh) + 1\<rparr>) \<and>
    run_path [s_path, s_remove, d] sh =
      (if d \<in> set (path_list sh)
       then Some ([], sh\<lparr>path_list := remove1 d (path_list sh), path_length := length (path_list sh) - 1\<rparr>)
       else Some ([AError], sh)) \<and>
    run_path [s_path, s_clear] sh = Some ([], sh\<lparr>path_list := [], path_length := 0\<rparr>)"
proof (intro conjI allI impI)
  fix line acts sh' assume "run_line access chdir line sh = Some (acts, sh')"
  then show "shell_ok sh'"
    using ok run_commands_ok by (auto simp: run_line_def bind_eq_Some_conv split: if_split_asm)
qed (use ok in \<open>simp_all add: run_path_def push_def clear_path_def delete_node_spec shell_ok_def
      s_add_def s_remove_def s_clear_def\<close>)

theorem path_commands_witness:
  "run_path [s_path, s_add, [120]] shell0 = Some ([], \<lparr>path_list = [[120], [47, 98, 105, 110]], path_length = 2\<rparr>)"
  using path_commands [of shell0 "\<lambda>_. True" "\<lambda>_. True" "[120]"]
  by (simp add: shell_ok_def shell0_def push_def)

text \<open>C19.  An external command is looked for in the directories of the path in order, and is run from every
  directory that has it, not only from the first; it is an error exactly when none has it and
  no command before it in the same line was found.\<close>

theorem external_runs_in_every_directory:
  assumes ok: "shell_ok sh" and cmd: "strsep {62} cmd = (real_cmd, None)"
    "skip_empty (tokens {32} real_cmd) = name # rest" "length name < 8" "length rest \<le> 1024"
  shows "external access sh cmd success =
    (let dirs = filter (\<lambda>d. access (d @ [47] @ name)) (path_list sh);
         args = filter (\<lambda>a. a \<noteq> []) rest;
         found = (success \<or> dirs \<noteq> [])
     in Some (map (\<lambda>d. ARun (d @ [47] @ name) name args None) dirs @ (if found then [] else [AError]), found))"
proof -
  have "length (filter (\<lambda>a. length a > 0) rest) \<le> 1024"
    using length_filter_le le_trans cmd(4) by blast
  then show ?thesis
    using ok cmd run_loop_filter [of access name _ None "path_list sh"]
    by (simp add: external_def shell_ok_def Let_def)
qed

theorem external_runs_in_every_directory_witness:
  "external (\<lambda>_. True) \<lparr>path_list = [[97], [98]], path_length = 2\<rparr> [108, 115] False =
   Some ([ARun [97, 47, 108, 115] [108, 115] [] None, ARun [98, 47, 108, 115] [108, 115] [] None], True)"
  using external_runs_in_every_directory [of "\<lparr>path_list = [[97], [98]], path_length = 2\<rparr>" "[108, 115]" "[108, 115]" "[108, 115]" "[]"]
  by (simp add: shell_ok_def Let_def)

text \<open>C20.  The syntax check looks at the commands between \<open>&\<close> one by one, the execution does not: the line
  \<open>path add x & ls\<close> passes the check when \<open>ls\<close> is in the path, and then writes past the end of the
  array of arguments.  A line of white space only reads in front of its buffer.\<close>

theorem accepted_line_overflows:
  assumes "access [47, 98, 105, 110, 47, 108, 115]"
  shows "checksyntax access shell0 bad_line = Some 0 \<and> run_line access chdir bad_line shell0 = None \<and>
    run_line access chdir [32, 32] shell0 = None"
proof (intro conjI)
  show c: "checksyntax access shell0 bad_line = Some 0"
    using assms
    by (simp add: checksyntax_def bad_line_def trim_def strip_right_def isspace_def sequence_error_def
        command_error_def plain_error_def path_error_def checkpath_def shell0_def push_def Let_def
        s_path_def s_add_def s_remove_def s_clear_def s_exit_def s_cd_def)
  have t: "tokens {59} (strip_right bad_line) = [bad_line]"
    "skip_empty (tokens {32} bad_line) = [s_path, s_add, [120], [38], [108, 115]]"
    by (simp_all add: bad_line_def strip_right_def isspace_def s_path_def s_add_def)
  show "run_line access chdir bad_line shell0 = None"
    using c by (simp add: run_line_def t run_path_def s_path_def s_exit_def s_cd_def s_add_def)
  show "run_line access chdir [32, 32] shell0 = None"
    by (simp add: run_line_def checksyntax_def trim_def isspace_def)
qed

theorem accepted_line_overflows_witness: "checksyntax (\<lambda>_. True) shell0 bad_line = Some 0"
  using accepted_line_overflows [of "\<lambda>_. True"] by simp

end
