(* ===== verification/VirtMem.thy ===== *)
theory VirtMem imports Kalloc
begin

text \<open>
  Page tables (\<open>part_a/kernel/vm.c\<close>): a page directory of 1024 entries at \<open>d\<close>, each present
  entry pointing to a page table of 1024 entries, in the memory of \<open>Pages\<close> where the kernel sees
  every frame at its physical address (\<open>PADDR\<close> is the identity).  The functions \<open>alloc\<close> and
  \<open>free\<close> that the definitions take are the \<open>kalloc\<close> and \<open>kfree\<close> they are linked with.
  \<open>None\<close>: a panic, a null dereference, a loop that does not end, or a signed overflow.
\<close>

section \<open>Definitions\<close>

definition PTE_P :: u32 where "PTE_P = 1"
definition PTE_W :: u32 where "PTE_W = 2"
definition PTE_U :: u32 where "PTE_U = 4"

definition pdx :: "u32 \<Rightarrow> u32" where "pdx la = drop_bit 22 la AND 0x3FF"
definition ptx :: "u32 \<Rightarrow> u32" where "ptx la = drop_bit 12 la AND 0x3FF"

definition present :: "u32 \<Rightarrow> bool" where "present e \<longleftrightarrow> e AND PTE_P \<noteq> 0"

type_synonym allocator = "kmem \<Rightarrow> (u32 \<times> kmem) option"
type_synonym releaser = "u32 \<Rightarrow> kmem \<Rightarrow> kmem option"

text \<open>The address of the entry for \<open>va\<close>, 0 when there is none.\<close>

definition walkpgdir :: "allocator \<Rightarrow> u32 \<Rightarrow> u32 \<Rightarrow> bool \<Rightarrow> kmem \<Rightarrow> (u32 \<times> kmem) option" where
  "walkpgdir alloc pgdir va create s =
     (let pde = pgdir + 4 * pdx va in
      if present (pmem s pde) then Some (pgrounddown (pmem s pde) + 4 * ptx va, s)
      else if \<not> create then Some (0, s)
      else do {
        (pgtab, s) \<leftarrow> alloc s;
        if pgtab = 0 then Some (0, s)
        else Some (pgtab + 4 * ptx va,
          s\<lparr>pmem := (fill_page pgtab 0 (pmem s))(pde := pgtab OR PTE_P OR PTE_W OR PTE_U)\<rparr>) })"

partial_function (option) map_loop ::
  "allocator \<Rightarrow> u32 \<Rightarrow> u32 \<Rightarrow> u32 \<Rightarrow> u32 \<Rightarrow> u32 \<Rightarrow> kmem \<Rightarrow> (int \<times> kmem) option" where
  "map_loop alloc pgdir a lst pa perm s =
     do { (pte, s) \<leftarrow> walkpgdir alloc pgdir a True s;
          if pte = 0 then Some (-1, s)
          else if present (pmem s pte) then None
          else (let s = s\<lparr>pmem := (pmem s)(pte := pa OR perm OR PTE_P)\<rparr> in
            if a = lst then Some (0, s)
            else map_loop alloc pgdir (a + PGSIZE) lst (pa + PGSIZE) perm s) }"

definition mappages :: "allocator \<Rightarrow> u32 \<Rightarrow> u32 \<Rightarrow> u32 \<Rightarrow> u32 \<Rightarrow> u32 \<Rightarrow> kmem \<Rightarrow> (int \<times> kmem) option" where
  "mappages alloc pgdir la sz pa perm s =
     map_loop alloc pgdir (pgrounddown la) (pgrounddown (la + sz - 1)) pa perm s"

text \<open>\<open>kmap\<close> has the rows \<open>p\<close>, \<open>e\<close>, \<open>perm\<close>; \<open>data\<close> is the linker symbol.\<close>

definition kmap :: "u32 \<Rightarrow> (u32 \<times> u32 \<times> u32) list" where
  "kmap data = [(USERTOP, 0x100000, PTE_W), (0x100000, data, 0), (data, PHYSTOP, PTE_W),
     (0xFE000000, 0, PTE_W)]"

fun map_rows :: "allocator \<Rightarrow> u32 \<Rightarrow> (u32 \<times> u32 \<times> u32) list \<Rightarrow> kmem \<Rightarrow> (u32 \<times> kmem) option" where
  "map_rows alloc pgdir [] s = Some (pgdir, s)"
| "map_rows alloc pgdir ((p, e, perm) # ks) s =
     do { (r, s) \<leftarrow> mappages alloc pgdir p (e - p) p perm s;
          if r < 0 then Some (0, s) else map_rows alloc pgdir ks s }"

definition setupkvm :: "allocator \<Rightarrow> u32 \<Rightarrow> kmem \<Rightarrow> (u32 \<times> kmem) option" where
  "setupkvm alloc data s =
     do { (pgdir, s) \<leftarrow> alloc s;
          if pgdir = 0 then Some (0, s)
          else map_rows alloc pgdir (kmap data) (s\<lparr>pmem := fill_page pgdir 0 (pmem s)\<rparr>) }"

subsection \<open>Growing and shrinking a process\<close>

partial_function (option) dealloc_loop ::
  "allocator \<Rightarrow> releaser \<Rightarrow> u32 \<Rightarrow> u32 \<Rightarrow> u32 \<Rightarrow> kmem \<Rightarrow> kmem option" where
  "dealloc_loop alloc free pgdir a oldsz s =
     (if a < oldsz then do {
        (pte, s) \<leftarrow> walkpgdir alloc pgdir a False s;
        s \<leftarrow> (if pte \<noteq> 0 \<and> present (pmem s pte)
             then (let pa = pgrounddown (pmem s pte) in
               if pa = 0 then None
               else do { s \<leftarrow> free pa s; Some (s\<lparr>pmem := (pmem s)(pte := 0)\<rparr>) })
             else Some s);
        dealloc_loop alloc free pgdir (a + PGSIZE) oldsz s }
      else Some s)"

definition deallocuvm :: "allocator \<Rightarrow> releaser \<Rightarrow> u32 \<Rightarrow> u32 \<Rightarrow> u32 \<Rightarrow> kmem \<Rightarrow> (u32 \<times> kmem) option" where
  "deallocuvm alloc free pgdir oldsz newsz s =
     (if newsz \<ge> oldsz then Some (oldsz, s)
      else do { s \<leftarrow> dealloc_loop alloc free pgdir (pgroundup newsz) oldsz s; Some (newsz, s) })"

partial_function (option) alloc_loop ::
  "allocator \<Rightarrow> releaser \<Rightarrow> u32 \<Rightarrow> u32 \<Rightarrow> u32 \<Rightarrow> u32 \<Rightarrow> kmem \<Rightarrow> (u32 \<times> kmem) option" where
  "alloc_loop alloc free pgdir a oldsz newsz s =
     (if a < newsz then do {
        (mem, s) \<leftarrow> alloc s;
        if mem = 0 then do { (_, s) \<leftarrow> deallocuvm alloc free pgdir newsz oldsz s; Some (0, s) }
        else do {
          (_, s) \<leftarrow> mappages alloc pgdir a PGSIZE mem (PTE_W OR PTE_U) (s\<lparr>pmem := fill_page mem 0 (pmem s)\<rparr>);
          alloc_loop alloc free pgdir (a + PGSIZE) oldsz newsz s } }
      else Some (newsz, s))"

definition allocuvm :: "allocator \<Rightarrow> releaser \<Rightarrow> u32 \<Rightarrow> u32 \<Rightarrow> u32 \<Rightarrow> kmem \<Rightarrow> (u32 \<times> kmem) option" where
  "allocuvm alloc free pgdir oldsz newsz s =
     (if newsz > USERTOP then Some (0, s)
      else if newsz < oldsz then Some (oldsz, s)
      else alloc_loop alloc free pgdir (pgroundup oldsz) oldsz newsz s)"

text \<open>The loop over the directory, from entry \<open>i\<close> on.\<close>

fun free_tables :: "releaser \<Rightarrow> u32 \<Rightarrow> nat \<Rightarrow> nat \<Rightarrow> kmem \<Rightarrow> kmem option" where
  "free_tables free pgdir i 0 s = Some s"
| "free_tables free pgdir i (Suc n) s =
     do { s \<leftarrow> (let pde = pmem s (pgdir + 4 * word_of_nat i) in
               if present pde then free (pgrounddown pde) s else Some s);
          free_tables free pgdir (Suc i) n s }"

definition freevm :: "allocator \<Rightarrow> releaser \<Rightarrow> u32 \<Rightarrow> kmem \<Rightarrow> kmem option" where
  "freevm alloc free pgdir s =
     (if pgdir = 0 then None
      else do { (_, s) \<leftarrow> deallocuvm alloc free pgdir USERTOP 0 s;
                s \<leftarrow> free_tables free pgdir 0 1024 s;
                free pgdir s })"

subsection \<open>Copying a process\<close>

partial_function (option) copy_loop ::
  "allocator \<Rightarrow> releaser \<Rightarrow> u32 \<Rightarrow> u32 \<Rightarrow> u32 \<Rightarrow> u32 \<Rightarrow> kmem \<Rightarrow> (u32 \<times> kmem) option" where
  "copy_loop alloc free pgdir d i sz s =
     (if i < sz then do {
        (pte, s) \<leftarrow> walkpgdir alloc pgdir i False s;
        if pte = 0 then None
        else if \<not> present (pmem s pte) then None
        else (let writable = pmem s pte AND PTE_W; pa = pgrounddown (pmem s pte) in do {
          (mem, s) \<leftarrow> alloc s;
          if mem = 0 then do { s \<leftarrow> freevm alloc free d s; Some (0, s) }
          else do {
            (r, s) \<leftarrow> mappages alloc d i PGSIZE mem (writable OR PTE_U) (s\<lparr>pmem := copy_page mem pa (pmem s)\<rparr>);
            if r < 0 then do { s \<leftarrow> freevm alloc free d s; Some (0, s) }
            else copy_loop alloc free pgdir d (i + PGSIZE) sz s } }) }
      else Some (d, s))"

definition copyuvm :: "allocator \<Rightarrow> releaser \<Rightarrow> u32 \<Rightarrow> u32 \<Rightarrow> u32 \<Rightarrow> kmem \<Rightarrow> (u32 \<times> kmem) option" where
  "copyuvm alloc free data pgdir sz s =
     do { (d, s) \<leftarrow> setupkvm alloc data s;
          if d = 0 then Some (0, s) else copy_loop alloc free pgdir d 0 sz s }"

subsection \<open>Access to user memory\<close>

definition uva2ka :: "allocator \<Rightarrow> u32 \<Rightarrow> u32 \<Rightarrow> kmem \<Rightarrow> u32 option" where
  "uva2ka alloc pgdir uva s =
     do { (pte, s) \<leftarrow> walkpgdir alloc pgdir uva False s;
          if pte = 0 then None
          else if \<not> present (pmem s pte) then Some 0
          else if pmem s pte AND PTE_U = 0 then Some 0
          else Some (pgrounddown (pmem s pte)) }"

text \<open>Little-endian bytes of the 32-bit cells, and \<open>memmove\<close> of bytes into memory.\<close>

definition store8 :: "u32 \<Rightarrow> u8 \<Rightarrow> memory \<Rightarrow> memory" where
  "store8 a b m =
     (let c = a AND NOT 3; k = 8 * unat (a AND 3) in
      m(c := (m c AND NOT (push_bit k 0xFF)) OR push_bit k (ucast b)))"

fun store_bytes :: "u32 \<Rightarrow> u8 list \<Rightarrow> memory \<Rightarrow> memory" where
  "store_bytes a [] m = m"
| "store_bytes a (b # bs) m = store_bytes (a + 1) bs (store8 a b m)"

partial_function (option) copyout :: "allocator \<Rightarrow> u32 \<Rightarrow> u32 \<Rightarrow> u8 list \<Rightarrow> kmem \<Rightarrow> (int \<times> kmem) option" where
  "copyout alloc pgdir va buf s =
     (if buf \<noteq> [] then do {
        let va0 = pgrounddown va;
        pa0 \<leftarrow> uva2ka alloc pgdir va0 s;
        if pa0 = 0 then Some (-1, s)
        else (let n = min (unat (PGSIZE - (va - va0))) (length buf) in
          copyout alloc pgdir (va0 + PGSIZE) (drop n buf)
            (s\<lparr>pmem := store_bytes (pa0 + (va - va0)) (take n buf) (pmem s)\<rparr>)) }
      else Some (0, s))"

definition inituvm :: "allocator \<Rightarrow> u32 \<Rightarrow> u8 list \<Rightarrow> kmem \<Rightarrow> kmem option" where
  "inituvm alloc pgdir init s =
     (if length init \<ge> unat PGSIZE then None
      else do {
        (mem, s) \<leftarrow> alloc s;
        (_, s) \<leftarrow> mappages alloc pgdir 0 PGSIZE mem (PTE_W OR PTE_U) (s\<lparr>pmem := fill_page mem 0 (pmem s)\<rparr>);
        Some (s\<lparr>pmem := store_bytes mem init (pmem s)\<rparr>) })"

subsection \<open>Protecting pages\<close>

text \<open>The loop of \<open>mprotect\<close> and \<open>munprotect\<close>, which differ in the new entry only.\<close>

partial_function (option) protect_loop ::
  "allocator \<Rightarrow> (u32 \<Rightarrow> u32) \<Rightarrow> u32 \<Rightarrow> u32 \<Rightarrow> u32 \<Rightarrow> kmem \<Rightarrow> (int \<times> kmem) option" where
  "protect_loop alloc f pgdir i e s =
     (if i < e then do {
        (pte, s) \<leftarrow> walkpgdir alloc pgdir i False s;
        if pte \<noteq> 0 then protect_loop alloc f pgdir (i + PGSIZE) e (s\<lparr>pmem := (pmem s)(pte := f (pmem s pte))\<rparr>)
        else Some (-1, s) }
      else Some (0, s))"

definition protect :: "allocator \<Rightarrow> (u32 \<Rightarrow> u32) \<Rightarrow> u32 \<Rightarrow> u32 \<Rightarrow> 32 word \<Rightarrow> kmem \<Rightarrow> (int \<times> kmem) option" where
  "protect alloc f pgdir addr len s =
     (if addr mod PGSIZE \<noteq> 0 then Some (-1, s)
      else if sint len * 4096 < - (2 ^ 31) \<or> 2 ^ 31 \<le> sint len * 4096 then None
      else if addr + len * PGSIZE > USERTOP \<or> sint len \<le> 0 then Some (-1, s)
      else protect_loop alloc f pgdir addr (addr + len * PGSIZE) s)"

definition mprotect :: "allocator \<Rightarrow> u32 \<Rightarrow> u32 \<Rightarrow> u32 \<Rightarrow> kmem \<Rightarrow> (int \<times> kmem) option" where
  "mprotect alloc = protect alloc (\<lambda>e. e AND NOT PTE_W)"

definition munprotect :: "allocator \<Rightarrow> u32 \<Rightarrow> u32 \<Rightarrow> u32 \<Rightarrow> kmem \<Rightarrow> (int \<times> kmem) option" where
  "munprotect alloc = protect alloc (\<lambda>e. e OR PTE_W)"

section \<open>Indexing the tables\<close>

lemma and_3FF: "x AND 0x3FF = (x :: u32) mod 1024"
proof -
  have "x AND mask 10 = x mod 2 ^ 10" by (simp only: flip: take_bit_eq_mask take_bit_eq_mod)
  then show ?thesis by (simp add: mask_eq_exp_minus_1)
qed

lemma pdx_bound: "unat (va :: u32) div 4194304 < 1024"
  by (rule less_mult_imp_div_less) (use unsigned_less [where 'b = 32, of va] in simp)

lemma unat_pdx: "unat (pdx va) = unat va div 4194304"
  using pdx_bound [of va] by (simp add: pdx_def and_3FF unat_mod_distrib unat_div_distrib drop_bit_eq_div)

lemma unat_ptx: "unat (ptx va) = unat va div 4096 mod 1024"
  by (simp add: ptx_def and_3FF unat_mod_distrib unat_div_distrib drop_bit_eq_div)

definition slot :: "u32 \<Rightarrow> bool" where "slot i \<longleftrightarrow> unat i < 1024"

lemma slot_pdx [simp]: "slot (pdx va)"
  using pdx_bound [of va] by (simp add: slot_def unat_pdx)

lemma slot_ptx [simp]: "slot (ptx va)"
  by (simp add: slot_def unat_ptx)

lemma unat_slot: "slot i \<Longrightarrow> unat (4 * i) = 4 * unat i"
  by (simp add: slot_def unat_word_ariths take_bit_nat_eq_self)

lemma slot_in_page: "slot i \<Longrightarrow> 4 * i < PGSIZE"
  by (simp add: word_less_nat_alt unat_slot PGSIZE_def) (simp add: slot_def)

lemma slot_page [simp]: "aligned d \<Longrightarrow> slot i \<Longrightarrow> pgrounddown (d + 4 * i) = d"
  by (rule pgrounddown_add [OF _ slot_in_page])

lemma slot_eq_iff: "slot i \<Longrightarrow> slot j \<Longrightarrow> 4 * i = 4 * j \<longleftrightarrow> i = j"
  by (metis unat_slot mult_cancel1 word_unat_eq_iff zero_neq_numeral)

lemma slot_addr_iff:
  "aligned d \<Longrightarrow> aligned e \<Longrightarrow> slot i \<Longrightarrow> slot j \<Longrightarrow> d + 4 * i = e + 4 * j \<longleftrightarrow> d = e \<and> i = j"
  by (metis slot_page slot_eq_iff add_left_cancel)

lemma same_page_iff: "pdx a = pdx b \<and> ptx a = ptx b \<longleftrightarrow> pgrounddown a = pgrounddown b"
proof -
  have pg: "unat (pgrounddown x) = 4096 * (unat x div 4096)" for x
    by (simp add: unat_pgrounddown minus_mod_eq_mult_div)
  have dv: "unat x div 4096 div 1024 = unat x div 4194304" for x :: u32
    by (simp add: div_mult2_eq [symmetric])
  have "pdx a = pdx b \<and> ptx a = ptx b \<longleftrightarrow> unat a div 4096 = unat b div 4096"
    (is "?l \<longleftrightarrow> ?r")
  proof
    assume ?l
    then have "unat a div 4096 div 1024 = unat b div 4096 div 1024"
      "unat a div 4096 mod 1024 = unat b div 4096 mod 1024"
      by (simp_all add: dv flip: unat_pdx unat_ptx)
    then show ?r by (metis div_mult_mod_eq)
  next
    assume ?r
    then show ?l by (simp add: word_unat_eq_iff unat_pdx unat_ptx flip: dv)
  qed
  also have "\<dots> \<longleftrightarrow> pgrounddown a = pgrounddown b" by (simp add: word_unat_eq_iff pg)
  finally show ?thesis .
qed

lemma pgrounddown_bits: "aligned p \<Longrightarrow> x < PGSIZE \<Longrightarrow> pgrounddown (p OR x) = p"
proof -
  assume p: "aligned p" and x: "x < PGSIZE"
  have "x AND NOT (PGSIZE - 1) = x - x mod PGSIZE" using pgrounddown_eq [of x] by (simp add: pgrounddown_def)
  also have "x mod PGSIZE = x" using x by (simp add: word_mod_def word_less_def)
  finally have "x AND NOT (PGSIZE - 1) = 0" by simp
  moreover have "p AND NOT (PGSIZE - 1) = p" using pgrounddown_aligned [OF p] by (simp add: pgrounddown_def)
  ultimately show ?thesis by (simp add: pgrounddown_def bit.conj_disj_distrib2)
qed

section \<open>What a page directory says\<close>

definition pde :: "memory \<Rightarrow> u32 \<Rightarrow> u32 \<Rightarrow> u32" where
  "pde m d i = m (d + 4 * i)"

definition table :: "memory \<Rightarrow> u32 \<Rightarrow> u32 \<Rightarrow> u32" where
  "table m d va = pgrounddown (pde m d (pdx va))"

text \<open>The entry of a page, 0 where there is no table.\<close>

definition entry :: "memory \<Rightarrow> u32 \<Rightarrow> u32 \<Rightarrow> u32" where
  "entry m d va = (if present (pde m d (pdx va)) then m (table m d va + 4 * ptx va) else 0)"

definition frame :: "memory \<Rightarrow> u32 \<Rightarrow> u32 \<Rightarrow> u32" where
  "frame m d va = pgrounddown (entry m d va)"

text \<open>The entries of the directory in use, the pages of the directory and its tables.\<close>

definition used :: "memory \<Rightarrow> u32 \<Rightarrow> u32 set" where
  "used m d = {i. slot i \<and> present (pde m d i)}"

definition tables :: "memory \<Rightarrow> u32 \<Rightarrow> u32 set" where
  "tables m d = insert d ((\<lambda>i. pgrounddown (pde m d i)) ` used m d)"

text \<open>Directory and tables are different pages in use, none of them in \<open>F\<close>.\<close>

definition pt_ok :: "(u32 \<Rightarrow> bool) \<Rightarrow> u32 set \<Rightarrow> memory \<Rightarrow> u32 \<Rightarrow> bool" where
  "pt_ok U F m d \<longleftrightarrow> (\<forall>p \<in> tables m d. U p \<and> p \<notin> F) \<and>
     d \<notin> (\<lambda>i. pgrounddown (pde m d i)) ` used m d \<and>
     inj_on (\<lambda>i. pgrounddown (pde m d i)) (used m d)"

lemma present_0 [simp]: "\<not> present 0"
  by (simp add: present_def)

lemma present_odd: "present e \<longleftrightarrow> odd e"
  by (simp add: present_def PTE_P_def and_one_eq odd_iff_mod_2_eq_one)

lemma present_OR [simp]: "present (x OR y) \<longleftrightarrow> present x \<or> present y" and present_P [simp]: "present PTE_P"
  by (simp_all add: present_odd even_or_iff PTE_P_def)

lemma tables_dir [simp]: "d \<in> tables m d"
  by (simp add: tables_def)

lemma table_in: "present (pde m d (pdx va)) \<Longrightarrow> table m d va \<in> tables m d"
  by (auto simp: tables_def table_def used_def)

lemma walk_lookup:
  "walkpgdir alloc d va False s =
     Some (if present (pde (pmem s) d (pdx va)) then table (pmem s) d va + 4 * ptx va else 0, s)"
  by (simp add: walkpgdir_def pde_def table_def Let_def)

section \<open>Writing an entry\<close>

lemma pde_cong:
  assumes "\<And>i. slot i \<Longrightarrow> pde m' d i = pde m d i"
  shows "used m' d = used m d" "table m' d va = table m d va" "tables m' d = tables m d"
    "pt_ok U F m' d = pt_ok U F m d"
proof -
  show u: "used m' d = used m d" using assms by (auto simp: used_def)
  have i: "pgrounddown (pde m' d i) = pgrounddown (pde m d i)" if "i \<in> used m d" for i
    using that assms by (simp add: used_def)
  show "table m' d va = table m d va" by (simp add: table_def assms)
  have im: "(\<lambda>i. pgrounddown (pde m' d i)) ` used m d = (\<lambda>i. pgrounddown (pde m d i)) ` used m d"
    by (rule image_cong [OF refl i])
  have inj: "inj_on (\<lambda>i. pgrounddown (pde m' d i)) (used m d) \<longleftrightarrow> inj_on (\<lambda>i. pgrounddown (pde m d i)) (used m d)"
    by (rule inj_on_cong [OF i])
  show t: "tables m' d = tables m d" by (simp only: tables_def u im)
  show "pt_ok U F m' d = pt_ok U F m d" by (simp only: pt_ok_def t u im inj)
qed

lemma dir_cong:
  assumes "aligned d" "\<And>a. pgrounddown a = d \<Longrightarrow> m' a = m a" "slot i"
  shows "pde m' d i = pde m d i"
  using assms by (simp add: pde_def)

lemma entry_cong:
  assumes al: "aligned d" and eq: "\<And>a. pgrounddown a \<in> tables m d \<Longrightarrow> m' a = m a"
  shows "entry m' d va = entry m d va" "tables m' d = tables m d" "slot i \<Longrightarrow> pde m' d i = pde m d i"
    "pt_ok U F m' d = pt_ok U F m d"
proof -
  have d: "pde m' d i = pde m d i" if "slot i" for i
    using dir_cong [OF al _ that] eq tables_dir by metis
  note c = pde_cong [OF d]
  show "tables m' d = tables m d" by (rule c(3)) simp
  show "slot i \<Longrightarrow> pde m' d i = pde m d i" by (rule d)
  show "pt_ok U F m' d = pt_ok U F m d" by (rule c(4)) simp
  have t: "table m' d va = table m d va" by (rule c(2)) simp
  have "m' (table m d va + 4 * ptx va) = m (table m d va + 4 * ptx va)"
    if "present (pde m d (pdx va))"
    by (rule eq) (use table_in [OF that] in \<open>simp add: table_def\<close>)
  then show "entry m' d va = entry m d va" by (simp add: entry_def t d)
qed

lemma unchanged_tables:
  assumes "aligned d" and eq: "\<forall>a. pgrounddown a \<in> tables m d \<longrightarrow> m' a = m a"
  shows "entry m' d va = entry m d va" "tables m' d = tables m d" "slot i \<Longrightarrow> pde m' d i = pde m d i"
    "pt_ok U F m' d = pt_ok U F m d"
  by (rule entry_cong [OF assms(1)]; simp add: eq)+

lemma pt_ok_anti: "pt_ok U F m d \<Longrightarrow> F' \<subseteq> F \<Longrightarrow> pt_ok U F' m d"
  unfolding pt_ok_def by blast

lemma pte_page: "present (pde m d (pdx va)) \<Longrightarrow> pgrounddown (table m d va + 4 * ptx va) = table m d va"
  by (rule slot_page) (simp_all add: table_def)

lemma pt_ok_inj:
  "pt_ok U F m d \<Longrightarrow> slot i \<Longrightarrow> slot j \<Longrightarrow> present (pde m d i) \<Longrightarrow> present (pde m d j) \<Longrightarrow>
   pgrounddown (pde m d i) = pgrounddown (pde m d j) \<Longrightarrow> i = j"
  unfolding pt_ok_def inj_on_def used_def by blast

lemma pt_ok_page:
  "pt_ok U F m d \<Longrightarrow> p \<in> tables m d \<Longrightarrow> U p \<and> p \<notin> F"
  "pt_ok U F m d \<Longrightarrow> slot i \<Longrightarrow> present (pde m d i) \<Longrightarrow> pgrounddown (pde m d i) \<noteq> d"
  unfolding pt_ok_def used_def by (blast, metis (mono_tags, lifting) image_eqI mem_Collect_eq)

lemma write_entry:
  assumes pt: "pt_ok U F m d" and al: "aligned d" and pr: "present (pde m d (pdx va))"
    and m': "m' = m(table m d va + 4 * ptx va := e)"
  shows "entry m' d x = (if pgrounddown x = pgrounddown va then e else entry m d x)"
    "tables m' d = tables m d" "slot i \<Longrightarrow> pde m' d i = pde m d i" "pt_ok U F m' d"
proof -
  let ?t = "table m d va"
  have td: "?t \<noteq> d" using pt_ok_page(2) [OF pt slot_pdx pr] by (simp add: table_def)
  have d: "pde m' d i = pde m d i" if "slot i" for i
    by (rule dir_cong [OF al _ that]) (use td pte_page [OF pr] in \<open>metis m' fun_upd_other\<close>)
  show "slot i \<Longrightarrow> pde m' d i = pde m d i" by (rule d)
  note c = pde_cong [OF d]
  show "tables m' d = tables m d" by (rule c(3)) simp
  show "pt_ok U F m' d" by (subst c(4)) (simp_all add: pt)
  have t: "table m' d x = table m d x" by (rule c(2)) simp
  show "entry m' d x = (if pgrounddown x = pgrounddown va then e else entry m d x)"
  proof (cases "present (pde m d (pdx x))")
    case True
    have "table m d x = ?t \<longleftrightarrow> pdx x = pdx va"
      by (metis pt_ok_inj [OF pt slot_pdx slot_pdx True pr] table_def)
    moreover have "table m d x + 4 * ptx x = ?t + 4 * ptx va \<longleftrightarrow> table m d x = ?t \<and> ptx x = ptx va"
      by (rule slot_addr_iff) (simp_all add: table_def)
    ultimately have "table m d x + 4 * ptx x = ?t + 4 * ptx va \<longleftrightarrow> pgrounddown x = pgrounddown va"
      by (simp flip: same_page_iff)
    then have "m' (table m d x + 4 * ptx x) =
      (if pgrounddown x = pgrounddown va then e else m (table m d x + 4 * ptx x))"
      unfolding m' by simp
    with True show ?thesis by (simp add: entry_def d t)
  next
    case False
    then have "pgrounddown x \<noteq> pgrounddown va" using pr same_page_iff [of x va] by metis
    with False show ?thesis by (simp add: entry_def d)
  qed
qed

section \<open>What mapping keeps\<close>

text \<open>
  From \<open>s\<close> with free pages \<open>F\<close> to \<open>s'\<close> with free pages \<open>F'\<close>: the pages that are gone from the
  free list are new tables of \<open>d\<close>, and memory outside the old tables and free pages is as before.
\<close>

definition kept :: "(kmem \<Rightarrow> u32 set \<Rightarrow> bool) \<Rightarrow> (u32 \<Rightarrow> bool) \<Rightarrow> u32 \<Rightarrow> kmem \<Rightarrow> u32 set \<Rightarrow> kmem \<Rightarrow> u32 set \<Rightarrow> bool" where
  "kept ok U d s F s' F' \<longleftrightarrow> F' \<subseteq> F \<and> ok s' F' \<and> pt_ok U F' (pmem s') d \<and>
     tables (pmem s') d = tables (pmem s) d \<union> (F - F') \<and>
     (\<forall>i. slot i \<and> present (pde (pmem s) d i) \<longrightarrow> pde (pmem s') d i = pde (pmem s) d i) \<and>
     (\<forall>a. pgrounddown a \<notin> F \<union> tables (pmem s) d \<longrightarrow> pmem s' a = pmem s a)"

lemma keptD:
  assumes "kept ok U d s F s' F'"
  shows "F' \<subseteq> F" "ok s' F'" "pt_ok U F' (pmem s') d" "tables (pmem s') d = tables (pmem s) d \<union> (F - F')"
    "slot i \<Longrightarrow> present (pde (pmem s) d i) \<Longrightarrow> pde (pmem s') d i = pde (pmem s) d i"
    "pgrounddown a \<notin> F \<Longrightarrow> pgrounddown a \<notin> tables (pmem s) d \<Longrightarrow> pmem s' a = pmem s a"
  using assms by (simp_all add: kept_def)

lemma kept_trans:
  assumes a: "kept ok U d s F s' F'" and b: "kept ok U d s' F' s'' F''"
  shows "kept ok U d s F s'' F''"
  unfolding kept_def
proof (intro conjI allI impI)
  note ka = keptD [OF a] and kb = keptD [OF b]
  show "F'' \<subseteq> F" using ka(1) kb(1) by blast
  show "ok s'' F''" "pt_ok U F'' (pmem s'') d" by (rule kb)+
  show "tables (pmem s'') d = tables (pmem s) d \<union> (F - F'')"
    using ka(1,4) kb(1,4) by blast
  show "pde (pmem s'') d i = pde (pmem s) d i" if "slot i \<and> present (pde (pmem s) d i)" for i
    using ka(5) [of i] kb(5) [of i] that by simp
  show "pmem s'' x = pmem s x" if x: "pgrounddown x \<notin> F \<union> tables (pmem s) d" for x
  proof -
    have "pgrounddown x \<notin> F'" "pgrounddown x \<notin> tables (pmem s') d" using x ka(1,4) by auto
    then have "pmem s'' x = pmem s' x" by (rule kb(6))
    also have "\<dots> = pmem s x" by (rule ka(6)) (use x in auto)
    finally show ?thesis .
  qed
qed

lemma kept_refl: "ok s F \<Longrightarrow> pt_ok U F (pmem s) d \<Longrightarrow> kept ok U d s F s F"
  by (simp add: kept_def)

lemma pte_nonzero: "t \<noteq> 0 \<Longrightarrow> aligned t \<Longrightarrow> t + 4 * ptx va \<noteq> 0"
proof
  assume "t \<noteq> 0" "aligned t" and z: "t + 4 * ptx va = 0"
  then have "pgrounddown 0 = t" using slot_page [of t "ptx va"] by (metis slot_ptx)
  with \<open>t \<noteq> 0\<close> show False by (simp add: pgrounddown_def)
qed

text \<open>A fresh page as the table for \<open>va\<close>.\<close>

lemma new_table:
  assumes al: "aligned d" and pt: "pt_ok U F m d" and p: "p \<in> F" "U p" "aligned p"
    and none: "\<not> present (pde m d j)" and j: "slot j"
    and m': "\<And>a. pgrounddown a = p \<Longrightarrow> m' a = 0" "m' (d + 4 * j) = p OR PTE_P OR PTE_W OR PTE_U"
      "\<And>a. pgrounddown a = d \<Longrightarrow> a \<noteq> d + 4 * j \<Longrightarrow> m' a = m a"
      "\<And>a. pgrounddown a \<in> tables m d \<Longrightarrow> pgrounddown a \<noteq> d \<Longrightarrow> m' a = m a"
  shows "pt_ok U (F - {p}) m' d" "tables m' d = insert p (tables m d)" "present (pde m' d j)"
    "slot i \<Longrightarrow> i \<noteq> j \<Longrightarrow> pde m' d i = pde m d i" "entry m' d x = entry m d x"
proof -
  have low: "PTE_P OR PTE_W OR PTE_U < PGSIZE" by (simp add: PTE_P_def PTE_W_def PTE_U_def PGSIZE_def)
  have pj: "pde m' d j = p OR PTE_P OR PTE_W OR PTE_U" by (simp add: pde_def m'(2))
  have fj: "pgrounddown (pde m' d j) = p" unfolding pj by (rule pgrounddown_bits [OF p(3) low])
  show prj: "present (pde m' d j)" unfolding pj by (simp add: present_def PTE_P_def PTE_W_def PTE_U_def bit.conj_disj_distrib2)
  show i: "pde m' d i = pde m d i" if "slot i" "i \<noteq> j" for i
    unfolding pde_def
  proof (rule m'(3))
    show "pgrounddown (d + 4 * i) = d" by (rule slot_page [OF al that(1)])
    show "d + 4 * i \<noteq> d + 4 * j" using slot_eq_iff [OF that(1) j] that(2) by simp
  qed
  have us: "used m' d = insert j (used m d)"
  proof (rule set_eqI)
    fix x show "x \<in> used m' d \<longleftrightarrow> x \<in> insert j (used m d)"
      using i [of x] prj j by (cases "x = j") (auto simp: used_def)
  qed
  have jn: "j \<notin> used m d" using none by (simp add: used_def)
  have fi: "pgrounddown (pde m' d i) = pgrounddown (pde m d i)" if "i \<in> used m d" for i
    using i [of i] that jn by (cases "i = j") (simp_all add: used_def)
  have im: "(\<lambda>i. pgrounddown (pde m' d i)) ` used m' d = insert p ((\<lambda>i. pgrounddown (pde m d i)) ` used m d)"
    unfolding us image_insert fj by (rule arg_cong [where f = "insert p"], rule image_cong [OF refl fi])
  show tb: "tables m' d = insert p (tables m d)" unfolding tables_def im by (rule insert_commute)
  have pn: "p \<notin> tables m d" using p(1) pt_ok_page(1) [OF pt] by blast
  have "inj_on (\<lambda>i. pgrounddown (pde m' d i)) (used m d)"
    using pt by (subst inj_on_cong [OF fi]) (simp_all add: pt_ok_def)
  moreover have "p \<notin> (\<lambda>i. pgrounddown (pde m d i)) ` used m d" using pn by (simp add: tables_def)
  ultimately have inj: "inj_on (\<lambda>i. pgrounddown (pde m' d i)) (used m' d)"
    using jn fj image_cong [OF refl fi, of "used m d"] unfolding us inj_on_insert by simp
  show "pt_ok U (F - {p}) m' d"
    unfolding pt_ok_def
  proof (intro conjI)
    show "\<forall>q \<in> tables m' d. U q \<and> q \<notin> F - {p}" unfolding tb using pt_ok_page(1) [OF pt] p(2) by blast
    show "d \<notin> (\<lambda>i. pgrounddown (pde m' d i)) ` used m' d"
      unfolding im using pt pn tables_dir [of d m] by (auto simp: pt_ok_def)
    show "inj_on (\<lambda>i. pgrounddown (pde m' d i)) (used m' d)" by (rule inj)
  qed
  show "entry m' d x = entry m d x"
  proof (cases "pdx x = j")
    case True
    have "pgrounddown (p + 4 * ptx x) = p" using p(3) by simp
    then have "m' (p + 4 * ptx x) = 0" by (rule m'(1))
    with True none fj show ?thesis by (simp add: entry_def table_def)
  next
    case False
    note e = i [OF slot_pdx False]
    show ?thesis
    proof (cases "present (pde m d (pdx x))")
      case True
      have "m' (table m d x + 4 * ptx x) = m (table m d x + 4 * ptx x)"
      proof (rule m'(4))
        show "pgrounddown (table m d x + 4 * ptx x) \<in> tables m d"
          unfolding pte_page [OF True] by (rule table_in [OF True])
        show "pgrounddown (table m d x + 4 * ptx x) \<noteq> d"
          unfolding pte_page [OF True] using pt_ok_page(2) [OF pt slot_pdx True] by (simp add: table_def)
      qed
      with True e show ?thesis by (simp add: entry_def table_def)
    qed (simp add: entry_def e)
  qed
qed

section \<open>Mapping, on any allocator that keeps its contract\<close>

lemma page_iff_step:
  fixes x l :: u32
  assumes "aligned x" "aligned l" "l \<noteq> 0"
  shows "x \<le> l \<longleftrightarrow> x = 0 \<or> x - PGSIZE \<le> l - PGSIZE"
proof -
  have ge: "4096 \<le> unat y" if "aligned y" "y \<noteq> 0" for y :: u32
    using that by (metis aligned_unat dvd_imp_le mod_0_imp_dvd neq0_conv unat_eq_0)
  have sub: "unat (y - PGSIZE) = unat y - 4096" if "aligned y" "y \<noteq> 0" for y :: u32
    using ge [OF that] by (simp add: unat_sub word_le_nat_alt PGSIZE_def)
  show ?thesis
    using ge [OF assms(2,3)] ge [OF assms(1)] sub [OF assms(2,3)] sub [OF assms(1)]
    by (cases "x = 0") (auto simp: word_le_nat_alt)
qed

lemma aligned_iff: "aligned p \<longleftrightarrow> (\<exists>k. p = 4096 * k)"
proof
  assume "aligned p"
  then have "p = 4096 * (p div 4096)" using mult_div_mod_eq [of 4096 p] by (simp add: aligned_def PGSIZE_def)
  then show "\<exists>k. p = 4096 * k" ..
next
  assume "\<exists>k. p = 4096 * k"
  then obtain k where "p = 4096 * k" ..
  then show "aligned p" by (simp add: aligned_unat unat_word_ariths mod_mod_cancel)
qed

lemma aligned_add [simp]: "aligned a \<Longrightarrow> aligned b \<Longrightarrow> aligned (a + b)"
  and aligned_diff [simp]: "aligned a \<Longrightarrow> aligned b \<Longrightarrow> aligned (a - b)"
  unfolding aligned_iff by (metis distrib_left, metis right_diff_distrib)

lemma aligned_PGSIZE [simp]: "aligned PGSIZE"
  by (simp add: aligned_def)

lemma word_between: "la \<le> b \<Longrightarrow> y - la \<le> b - la \<longleftrightarrow> la \<le> y \<and> y \<le> b" for la :: u32
proof -
  assume "la \<le> b"
  then have l: "unat la \<le> unat b" by (simp add: word_le_nat_alt)
  show ?thesis
  proof (cases "la \<le> y")
    case True
    then show ?thesis using l by (simp add: word_le_nat_alt unat_sub) linarith
  next
    case False
    then have "unat (y - la) = 2 ^ 32 + unat y - unat la"
      by (simp add: unat_sub_if' word_le_nat_alt)
    moreover have "unat (b - la) = unat b - unat la" using l by (simp add: unat_sub word_le_nat_alt)
    ultimately show ?thesis
      using False l unsigned_less [where 'b = 32 and 'a = nat, of b] unsigned_less [where 'b = 32 and 'a = nat, of y]
      by (simp add: word_le_nat_alt)
  qed
qed

lemma last_page: "aligned e \<Longrightarrow> pgrounddown (e - 1) = e - PGSIZE"
  using pgrounddown_add [of "e - PGSIZE" "PGSIZE - 1"] aligned_diff [OF _ aligned_PGSIZE, of e]
  by (simp add: PGSIZE_def)

lemma le_pgrounddown: "aligned a \<Longrightarrow> a \<le> pgrounddown x \<longleftrightarrow> a \<le> x"
proof -
  assume "aligned a"
  then obtain k where "unat a = 4096 * k" by (auto simp: aligned_unat mod_eq_0_iff_dvd)
  moreover have "unat (pgrounddown x) = 4096 * (unat x div 4096)" by (simp add: unat_pgrounddown minus_mod_eq_mult_div)
  ultimately show ?thesis by (simp add: word_le_nat_alt) linarith
qed

lemma pgrounddown_le: "aligned e \<Longrightarrow> pgrounddown x \<le> e - PGSIZE \<longleftrightarrow> x \<le> e - 1"
proof
  assume e: "aligned e" and "x \<le> e - 1"
  then have "unat x \<le> unat (e - 1)" by (simp add: word_le_nat_alt)
  then have "unat x div 4096 \<le> unat (e - 1) div 4096" by (rule div_le_mono)
  then have "unat (pgrounddown x) \<le> unat (pgrounddown (e - 1))"
    by (simp add: unat_pgrounddown minus_mod_eq_mult_div)
  then show "pgrounddown x \<le> e - PGSIZE" by (simp add: last_page [OF e] word_le_nat_alt)
next
  assume e: "aligned e" and le: "pgrounddown x \<le> e - PGSIZE"
  have "\<not> e - 1 < x"
  proof
    assume lt: "e - 1 < x"
    then have "x \<noteq> 0" "e \<noteq> 0" by auto
    with lt have "e \<le> x" by (simp add: word_le_nat_alt word_less_nat_alt unat_minus_one)
    then have "e \<le> pgrounddown x" using le_pgrounddown [OF e] by simp
    moreover have "unat (e - PGSIZE) < unat e"
    proof -
      have "4096 \<le> unat e" using e \<open>e \<noteq> 0\<close> by (metis aligned_unat dvd_imp_le mod_0_imp_dvd neq0_conv unat_eq_0)
      then show ?thesis by (simp add: unat_sub word_le_nat_alt PGSIZE_def)
    qed
    ultimately show False using le by (simp add: word_le_nat_alt)
  qed
  then show "x \<le> e - 1" by simp
qed

lemma le_pred_iff: "e \<noteq> 0 \<Longrightarrow> x \<le> e - 1 \<longleftrightarrow> x < e" for x :: u32
  by (cases "unat e") (auto simp: word_le_nat_alt word_less_nat_alt unat_minus_one unat_eq_0 less_Suc_eq_le)

text \<open>The rows of \<open>kmap\<close>: the addresses of a row, its whole pages, the tables it may need, and the entry
  that disjoint rows give to an address.\<close>

definition in_row :: "u32 \<Rightarrow> u32 \<times> u32 \<times> u32 \<Rightarrow> bool" where
  "in_row x r = (case r of (p, e, _) \<Rightarrow> p \<le> x \<and> x \<le> e - 1)"

definition row_ok :: "u32 \<times> u32 \<times> u32 \<Rightarrow> bool" where
  "row_ok r = (case r of (p, e, _) \<Rightarrow> aligned p \<and> aligned e \<and> p \<le> e - PGSIZE)"

definition row_cost :: "u32 \<times> u32 \<times> u32 \<Rightarrow> nat" where
  "row_cost r = (case r of (p, e, _) \<Rightarrow> Suc (unat (pdx (e - PGSIZE)) - unat (pdx p)))"

fun rows_ok :: "(u32 \<times> u32 \<times> u32) list \<Rightarrow> bool" where
  "rows_ok [] \<longleftrightarrow> True"
| "rows_ok (r # rs) \<longleftrightarrow> row_ok r \<and> (\<forall>r' \<in> set rs. \<forall>x. in_row x r \<longrightarrow> \<not> in_row x r') \<and> rows_ok rs"

fun row_entry :: "(u32 \<times> u32 \<times> u32) list \<Rightarrow> u32 \<Rightarrow> u32 \<Rightarrow> u32" where
  "row_entry [] e0 x = e0"
| "row_entry ((p, e, perm) # rs) e0 x =
     (if in_row x (p, e, perm) then pgrounddown x OR perm OR PTE_P else row_entry rs e0 x)"

lemma row_entry_none: "\<forall>r \<in> set rs. \<not> in_row x r \<Longrightarrow> row_entry rs e0 x = e0"
  by (induction rs) auto

text \<open>What \<open>kmap\<close> says: the entry of each page in a table with the kernel mappings only.\<close>

definition kernel_entry :: "u32 \<Rightarrow> u32 \<Rightarrow> u32" where
  "kernel_entry data x =
     (if USERTOP \<le> x \<and> x < 0x100000 then pgrounddown x OR PTE_W OR PTE_P
      else if 0x100000 \<le> x \<and> x < data then pgrounddown x OR PTE_P
      else if data \<le> x \<and> x < PHYSTOP then pgrounddown x OR PTE_W OR PTE_P
      else if 0xFE000000 \<le> x then pgrounddown x OR PTE_W OR PTE_P
      else 0)"

lemma data_le: "aligned data \<Longrightarrow> 0x100000 < data \<Longrightarrow> 0x100000 \<le> data - PGSIZE"
proof -
  assume "aligned data" "0x100000 < data"
  then obtain k where "unat data = 4096 * k" "0x100000 < unat data"
    by (auto simp: aligned_unat mod_eq_0_iff_dvd word_less_nat_alt)
  then have "0x101000 \<le> unat data" by simp
  then show ?thesis by (simp add: word_le_nat_alt unat_sub PGSIZE_def)
qed

lemma kmap_rows_ok:
  assumes "aligned data" "0x100000 < data" "data < PHYSTOP"
  shows "rows_ok (kmap data)"
proof -
  have al: "aligned USERTOP" "aligned 0x100000" "aligned PHYSTOP" "aligned 0xFE000000" "aligned 0"
    by (simp_all add: aligned_def USERTOP_def PHYSTOP_def PGSIZE_def)
  have "data \<le> PHYSTOP - PGSIZE"
    using pgrounddown_le [OF al(3), of data] assms(1,3) le_pred_iff [of PHYSTOP data] by (simp add: PHYSTOP_def)
  moreover have "unat (data - 1) = unat data - 1"
    using assms(2) by (intro unat_minus_one) auto
  ultimately show ?thesis using al data_le [OF assms(1,2)] assms
    by (auto simp: kmap_def row_ok_def in_row_def le_pred_iff)
       (auto simp: USERTOP_def PHYSTOP_def PGSIZE_def word_le_nat_alt word_less_nat_alt)
qed

lemma kmap_cost:
  assumes "0x100000 < data" "data < PHYSTOP"
  shows "sum_list (map row_cost (kmap data)) \<le> 14"
proof -
  have lt: "unat data < 0x1000000" using assms(2) by (simp add: PHYSTOP_def word_less_nat_alt)
  have "unat (data - PGSIZE) \<le> unat data"
    using assms(1) by (simp add: unat_sub PGSIZE_def word_le_nat_alt word_less_nat_alt)
  then have "unat (data - PGSIZE) div 4194304 \<le> unat data div 4194304" by (rule div_le_mono)
  moreover have "unat data div 4194304 \<le> 3" using lt by simp
  ultimately show ?thesis
    by (simp add: kmap_def row_cost_def unat_pdx) (simp add: USERTOP_def PHYSTOP_def PGSIZE_def)
qed

lemma kernel_rows:
  assumes "0x100000 < data" "data < PHYSTOP"
  shows "row_entry (kmap data) 0 x = kernel_entry data x"
proof -
  have "x \<le> data - 1 \<longleftrightarrow> x < data" by (rule le_pred_iff) (use assms(1) in auto)
  moreover have "x \<le> PHYSTOP - 1 \<longleftrightarrow> x < PHYSTOP" by (rule le_pred_iff) (simp add: PHYSTOP_def)
  moreover have "x \<le> 0x100000 - 1 \<longleftrightarrow> x < 0x100000" by (rule le_pred_iff) simp
  moreover have "x \<le> 0 - 1" by simp
  ultimately show ?thesis by (simp add: kmap_def in_row_def kernel_entry_def)
qed

lemma entry_present: "present (entry m d x) \<Longrightarrow> present (pde m d (pdx x))"
  by (simp add: entry_def split: if_splits)

lemma empty_table:
  assumes "aligned d" "\<And>a. pgrounddown a = d \<Longrightarrow> m a = 0"
  shows "slot i \<Longrightarrow> pde m d i = 0" "entry m d x = 0" "used m d = {}" "tables m d = {d}"
proof -
  show i: "slot i \<Longrightarrow> pde m d i = 0" for i using assms by (simp add: pde_def)
  show "entry m d x = 0" by (simp add: entry_def i)
  show u: "used m d = {}" by (auto simp: used_def i)
  show "tables m d = {d}" by (simp add: tables_def u)
qed

text \<open>The tables that mapping \<open>a\<close> to \<open>b\<close> may need.\<close>

definition tables_needed :: "memory \<Rightarrow> u32 \<Rightarrow> u32 \<Rightarrow> u32 \<Rightarrow> nat" where
  "tables_needed m d a b = (if present (pde m d (pdx a)) then 0 else 1) + (unat (pdx b) - unat (pdx a))"

lemma u32_less: "unat (x :: u32) < 4294967296"
  using unsigned_less [where 'b = 32 and 'a = nat, of x] by simp

lemma unat_next: "unat (a :: u32) + 4096 \<le> unat (b :: u32) \<Longrightarrow> unat (a + PGSIZE) = unat a + 4096"
  using u32_less [of b] by (simp add: PGSIZE_def unat_word_ariths take_bit_nat_eq_self)

lemma tables_needed_step:
  assumes "unat a + 4096 \<le> unat b" "present (pde m' d (pdx a))"
  shows "tables_needed m' d (a + PGSIZE) b + (if present (pde m d (pdx a)) then 0 else 1) \<le> tables_needed m d a b"
proof -
  let ?A = "unat a div 4194304" and ?B = "unat b div 4194304" and ?C = "(unat a + 4096) div 4194304"
  have "unat (a + PGSIZE) = unat a + 4096" by (rule unat_next [OF assms(1)])
  then have c: "unat (pdx (a + PGSIZE)) = ?C" by (simp add: unat_pdx)
  have cb: "?C \<le> ?B" using assms(1) by (rule div_le_mono)
  show ?thesis
  proof (cases "?C = ?A")
    case True
    with c have "pdx (a + PGSIZE) = pdx a" by (simp add: word_unat_eq_iff unat_pdx)
    with assms(2) show ?thesis by (simp add: tables_needed_def)
  next
    case False
    then have C: "?C = Suc ?A" by linarith
    with cb have "?B - ?A = Suc (?B - Suc ?A)" by (simp only: Suc_diff_Suc Suc_le_lessD)
    with C c show ?thesis by (simp add: tables_needed_def unat_pdx)
  qed
qed

text \<open>
  The pages \<open>P\<close> of the directory \<open>d\<close> have got fresh frames, page \<open>y\<close> the frame \<open>f y\<close> with the
  permissions \<open>g y\<close> and the contents \<open>c y\<close>; nothing else has changed but the free pages.
\<close>

definition grown :: "(kmem \<Rightarrow> u32 set \<Rightarrow> bool) \<Rightarrow> (u32 \<Rightarrow> bool) \<Rightarrow> u32 \<Rightarrow> u32 set \<Rightarrow> (u32 \<Rightarrow> u32) \<Rightarrow> (u32 \<Rightarrow> u32) \<Rightarrow>
    (u32 \<Rightarrow> u32 \<Rightarrow> u32) \<Rightarrow> kmem \<Rightarrow> u32 set \<Rightarrow> kmem \<Rightarrow> u32 set \<Rightarrow> bool" where
  "grown ok U d P f g c s F s' F' \<longleftrightarrow> F' \<subseteq> F \<and> ok s' F' \<and> pt_ok U F' (pmem s') d \<and>
     tables (pmem s') d = tables (pmem s) d \<and> inj_on f P \<and> f ` P = F - F' \<and>
     (\<forall>i. slot i \<and> present (pde (pmem s) d i) \<longrightarrow> pde (pmem s') d i = pde (pmem s) d i) \<and>
     (\<forall>x. entry (pmem s') d x = (if pgrounddown x \<in> P
        then f (pgrounddown x) OR g (pgrounddown x) OR PTE_P else entry (pmem s) d x)) \<and>
     (\<forall>y \<in> P. \<forall>x. pgrounddown x = f y \<longrightarrow> pmem s' x = c y (x - f y)) \<and>
     (\<forall>x. pgrounddown x \<notin> F \<and> pgrounddown x \<notin> tables (pmem s) d \<longrightarrow> pmem s' x = pmem s x)"

text \<open>The page \<open>a\<close> has got the frame \<open>p\<close>, whose contents are those of \<open>m\<close>.\<close>

definition mapped_page :: "(kmem \<Rightarrow> u32 set \<Rightarrow> bool) \<Rightarrow> (u32 \<Rightarrow> bool) \<Rightarrow> u32 \<Rightarrow> u32 \<Rightarrow> u32 \<Rightarrow> u32 \<Rightarrow> kmem \<Rightarrow>
    u32 set \<Rightarrow> memory \<Rightarrow> kmem \<Rightarrow> bool" where
  "mapped_page ok U d a perm p s F m s' \<longleftrightarrow> ok s' (F - {p}) \<and>
        pt_ok U (F - {p}) (pmem s') d \<and> tables (pmem s') d = tables (pmem s) d \<and>
        present (pde (pmem s') d (pdx a)) \<and>
        (\<forall>i. slot i \<and> present (pde (pmem s) d i) \<longrightarrow> pde (pmem s') d i = pde (pmem s) d i) \<and>
        (\<forall>x. entry (pmem s') d x = (if pgrounddown x = a then p OR perm OR PTE_P else entry (pmem s) d x)) \<and>
        (\<forall>x. pgrounddown x = p \<longrightarrow> pmem s' x = m x) \<and>
        (\<forall>x. pgrounddown x \<notin> F \<and> pgrounddown x \<notin> tables (pmem s) d \<longrightarrow> pmem s' x = pmem s x)"

text \<open>The user pages from \<open>a\<close> up to the size \<open>n\<close>.\<close>

definition user_pages :: "u32 \<Rightarrow> u32 \<Rightarrow> u32 set" where
  "user_pages a n = {x. aligned x \<and> a \<le> x \<and> x < n}"

lemma aligned_number: "aligned p \<Longrightarrow> \<exists>k. unat p = 4096 * k"
  by (simp add: aligned_unat mod_eq_0_iff_dvd dvd_def)

lemma user_pages_step:
  assumes "aligned a" "a < n" "n \<le> USERTOP"
  shows "user_pages a n = insert a (user_pages (a + PGSIZE) n)" "a \<notin> user_pages (a + PGSIZE) n"
    "unat (a + PGSIZE) = unat a + 4096"
proof -
  have "unat a < 0xA0000" using assms(2,3) by (simp add: USERTOP_def word_less_nat_alt word_le_nat_alt)
  then show u: "unat (a + PGSIZE) = unat a + 4096"
    by (simp add: PGSIZE_def unat_word_ariths take_bit_nat_eq_self)
  show "a \<notin> user_pages (a + PGSIZE) n" by (simp add: user_pages_def word_le_nat_alt u)
  have "a + PGSIZE \<le> x \<longleftrightarrow> a \<le> x \<and> x \<noteq> a" if x: "aligned x" for x
  proof -
    obtain k l where "unat a = 4096 * k" "unat x = 4096 * l"
      using x assms(1) by (metis aligned_number)
    then show ?thesis by (simp add: word_le_nat_alt word_unat_eq_iff u) arith
  qed
  then show "user_pages a n = insert a (user_pages (a + PGSIZE) n)"
    using assms(1,2) by (auto simp: user_pages_def)
qed

lemma pdx_user: "x < USERTOP \<Longrightarrow> pdx x = 0"
  by (simp add: word_unat_eq_iff unat_pdx USERTOP_def word_less_nat_alt)

context total_allocator begin

lemma usable_ne0: "usable p \<Longrightarrow> p \<noteq> 0" and usable_aligned: "usable p \<Longrightarrow> aligned p"
  using usable_page by blast+

lemma pt_ok_dir: "pt_ok usable F m d \<Longrightarrow> usable d \<and> aligned d \<and> d \<noteq> 0 \<and> d \<notin> F"
  using pt_ok_page(1) [of usable F m d d] usable_page by simp

lemma pt_ok_table:
  "pt_ok usable F m d \<Longrightarrow> present (pde m d (pdx va)) \<Longrightarrow> table m d va + 4 * ptx va \<noteq> 0"
  using pt_ok_page(1) [OF _ table_in] usable_page pte_nonzero by metis

lemma walk_create:
  assumes ok: "ok s F" and pt: "pt_ok usable F (pmem s) d"
  shows "(\<not> present (pde (pmem s) d (pdx va)) \<and> F = {} \<and> walkpgdir alloc d va True s = Some (0, s)) \<or>
    (\<exists>s' F'. walkpgdir alloc d va True s = Some (table (pmem s') d va + 4 * ptx va, s') \<and>
      kept ok usable d s F s' F' \<and> present (pde (pmem s') d (pdx va)) \<and>
      (\<forall>x. entry (pmem s') d x = entry (pmem s) d x) \<and>
      card (F - F') = (if present (pde (pmem s) d (pdx va)) then 0 else 1))"
proof (cases "present (pde (pmem s) d (pdx va))")
  case True
  have "walkpgdir alloc d va True s = Some (table (pmem s) d va + 4 * ptx va, s)"
    using True by (simp add: walkpgdir_def pde_def table_def Let_def)
  moreover have "kept ok usable d s F s F" using ok pt by (rule kept_refl)
  ultimately show ?thesis using True by (intro disjI2 exI [of _ s] exI [of _ F]) simp
next
  case False
  note d = pt_ok_dir [OF pt]
  from alloc_answers [OF ok] show ?thesis
  proof (elim disjE exE conjE)
    assume "F = {}" "alloc s = Some (0, s)"
    with False show ?thesis by (simp add: walkpgdir_def pde_def)
  next
    fix p s1
    assume p: "alloc s = Some (p, s1)" "p \<noteq> 0" "p \<in> F" "ok s1 (F - {p})"
      and fr: "\<forall>a. pgrounddown a \<notin> F \<longrightarrow> pmem s1 a = pmem s a"
    let ?j = "pdx va"
    define M where "M = (fill_page p 0 (pmem s1))(d + 4 * ?j := p OR PTE_P OR PTE_W OR PTE_U)"
    let ?s = "s1\<lparr>pmem := M\<rparr>"
    have pu: "usable p" "aligned p" using ok_usable [OF ok p(3)] usable_page by blast+
    have pd: "p \<noteq> d" using p(3) d by blast
    have al: "aligned d" using d by blast
    have jd: "pgrounddown (d + 4 * ?j) = d" using al by simp
    have tF: "q \<notin> F" if "q \<in> tables (pmem s) d" for q using pt_ok_page(1) [OF pt that] by simp
    have M1: "M a = fill_page p 0 (pmem s1) a" if "a \<noteq> d + 4 * ?j" for a using that by (simp add: M_def)
    have old: "M a = pmem s a" if "pgrounddown a \<noteq> p" "pgrounddown a \<notin> F" "a \<noteq> d + 4 * ?j" for a
      using that fr pu(2) by (simp add: M1 fill_page_iff)
    have w: "walkpgdir alloc d va True s = Some (p + 4 * ptx va, ?s)"
      using False p(1,2) by (simp add: walkpgdir_def pde_def Let_def M_def)
    have m0: "M a = 0" if "pgrounddown a = p" for a
      using that jd pd pu(2) by (subst M1) (auto simp: fill_page_iff)
    have m2: "M (d + 4 * ?j) = p OR PTE_P OR PTE_W OR PTE_U" by (simp add: M_def)
    have m3: "M a = pmem s a" if "pgrounddown a = d" "a \<noteq> d + 4 * ?j" for a
      by (rule old) (use that pd d in auto)
    have m4: "M a = pmem s a" if "pgrounddown a \<in> tables (pmem s) d" "pgrounddown a \<noteq> d" for a
      by (rule old) (use that tF [OF that(1)] p(3) jd in auto)
    note n = new_table [OF al pt p(3) pu False slot_pdx m0 m2 m3 m4]
    have t: "table M d va = p"
      unfolding table_def pde_def m2
      by (rule pgrounddown_bits [OF pu(2)]) (simp add: PTE_P_def PTE_W_def PTE_U_def PGSIZE_def)
    have k: "kept ok usable d s F ?s (F - {p})"
      unfolding kept_def
    proof (intro conjI allI impI)
      show "ok ?s (F - {p})"
      proof (rule ok_write [OF p(4)])
        fix a assume a: "pgrounddown a \<in> F - {p}"
        then have "a \<noteq> d + 4 * ?j" "pgrounddown a \<noteq> p" using jd d by auto
        then show "M a = pmem s1 a" using pu(2) by (simp add: fill_page_iff M1)
      qed
      show "pmem ?s a = pmem s a" if a: "pgrounddown a \<notin> F \<union> tables (pmem s) d" for a
      proof -
        have "a \<noteq> d + 4 * ?j" using a jd tables_dir by auto
        moreover have "pgrounddown a \<noteq> p" "pgrounddown a \<notin> F" using a p(3) by auto
        ultimately show ?thesis by (simp add: old)
      qed
      show "pde (pmem ?s) d i = pde (pmem s) d i" if i: "slot i \<and> present (pde (pmem s) d i)" for i
      proof -
        have "i \<noteq> ?j" using i False by auto
        with n(4) [of i] i show ?thesis by simp
      qed
      show "tables (pmem ?s) d = tables (pmem s) d \<union> (F - (F - {p}))" using n(2) p(3) by auto
      show "pt_ok usable (F - {p}) (pmem ?s) d" using n(1) by simp
    qed auto
    have c: "F - (F - {p}) = {p}" using p(3) by auto
    have n3: "present (pde (pmem ?s) d ?j)" and n5: "\<forall>x. entry (pmem ?s) d x = entry (pmem s) d x"
      using n(3,5) by simp_all
    from w have w': "walkpgdir alloc d va True s = Some (table (pmem ?s) d va + 4 * ptx va, ?s)"
      by (simp add: t)
    have "card (F - (F - {p})) = (if present (pde (pmem s) d ?j) then 0 else 1)"
      using False by (simp add: c)
    with w' k n3 n5 show ?thesis by blast
  qed
qed

lemma kept_write:
  assumes k: "kept ok usable d s F s' F'" and pr: "present (pde (pmem s') d (pdx va))"
  shows "kept ok usable d s F (s'\<lparr>pmem := (pmem s')(table (pmem s') d va + 4 * ptx va := e)\<rparr>) F'"
    (is "kept _ _ _ _ _ (s'\<lparr>pmem := ?m\<rparr>) _")
proof -
  note kd = keptD [OF k]
  have al: "aligned d" using pt_ok_dir [OF kd(3)] by simp
  note w = write_entry [OF kd(3) al pr refl, where e = e]
  have pg: "pgrounddown (table (pmem s') d va + 4 * ptx va) \<in> tables (pmem s') d"
    unfolding pte_page [OF pr] by (rule table_in [OF pr])
  have nF: "pgrounddown (table (pmem s') d va + 4 * ptx va) \<notin> F'" using pt_ok_page(1) [OF kd(3) pg] by simp
  show ?thesis
    unfolding kept_def
  proof (intro conjI allI impI)
    show "F' \<subseteq> F" by (rule kd)
    show "ok (s'\<lparr>pmem := ?m\<rparr>) F'" by (rule ok_write [OF kd(2)]) (use nF in auto)
    show "pt_ok usable F' (pmem (s'\<lparr>pmem := ?m\<rparr>)) d" using w(4) by simp
    show "tables (pmem (s'\<lparr>pmem := ?m\<rparr>)) d = tables (pmem s) d \<union> (F - F')" using w(2) kd(4) by simp
    show "pde (pmem (s'\<lparr>pmem := ?m\<rparr>)) d i = pde (pmem s) d i" if "slot i \<and> present (pde (pmem s) d i)" for i
      using w(3) [of i] kd(5) [of i] that by simp
    show "pmem (s'\<lparr>pmem := ?m\<rparr>) a = pmem s a" if a: "pgrounddown a \<notin> F \<union> tables (pmem s) d" for a
    proof -
      have "pgrounddown a \<notin> tables (pmem s') d" using a kd(4) by auto
      then have "a \<noteq> table (pmem s') d va + 4 * ptx va" using pg by auto
      with kd(6) [of a] a show ?thesis by simp
    qed
  qed
qed

text \<open>One round of the loop: the entry of the page \<open>a\<close> is written.\<close>

lemma map_step:
  assumes ok: "ok s F" and pt: "pt_ok usable F (pmem s) d" and free_a: "\<not> present (entry (pmem s) d a)"
    and al: "aligned a"
  shows "(\<not> present (pde (pmem s) d (pdx a)) \<and> F = {} \<and> map_loop alloc d a b pa perm s = Some (-1, s)) \<or>
    (\<exists>s' F'. kept ok usable d s F s' F' \<and> present (pde (pmem s') d (pdx a)) \<and>
      card (F - F') = (if present (pde (pmem s) d (pdx a)) then 0 else 1) \<and>
      (\<forall>x. entry (pmem s') d x = (if pgrounddown x = a then pa OR perm OR PTE_P else entry (pmem s) d x)) \<and>
      map_loop alloc d a b pa perm s =
        (if a = b then Some (0, s') else map_loop alloc d (a + PGSIZE) b (pa + PGSIZE) perm s'))"
  using walk_create [OF ok pt, of a]
proof (elim disjE exE conjE)
  assume "\<not> present (pde (pmem s) d (pdx a))" "F = {}" "walkpgdir alloc d a True s = Some (0, s)"
  then show ?thesis by (simp add: map_loop.simps [of alloc d a])
next
  fix s1 F1
  assume w: "walkpgdir alloc d a True s = Some (table (pmem s1) d a + 4 * ptx a, s1)"
    and k: "kept ok usable d s F s1 F1" and pr: "present (pde (pmem s1) d (pdx a))"
    and e: "\<forall>x. entry (pmem s1) d x = entry (pmem s) d x"
    and c: "card (F - F1) = (if present (pde (pmem s) d (pdx a)) then 0 else 1)"
  let ?p = "table (pmem s1) d a + 4 * ptx a"
  let ?s = "s1\<lparr>pmem := (pmem s1)(?p := pa OR perm OR PTE_P)\<rparr>"
  note kd = keptD [OF k]
  have ald: "aligned d" using pt_ok_dir [OF pt] by simp
  note wr = write_entry [OF kd(3) ald pr refl, where e = "pa OR perm OR PTE_P"]
  have "pmem s1 ?p = entry (pmem s1) d a" using pr by (simp add: entry_def)
  then have np: "\<not> present (pmem s1 ?p)" using e free_a by simp
  have "map_loop alloc d a b pa perm s =
      (if a = b then Some (0, ?s) else map_loop alloc d (a + PGSIZE) b (pa + PGSIZE) perm ?s)"
    using w np pt_ok_table [OF kd(3) pr] by (simp add: map_loop.simps [of alloc d a])
  moreover have "\<forall>x. entry (pmem ?s) d x = (if pgrounddown x = a then pa OR perm OR PTE_P else entry (pmem s) d x)"
    using wr(1) e al by simp
  moreover have "present (pde (pmem ?s) d (pdx a))" using wr(3) [OF slot_pdx] pr by simp
  ultimately show ?thesis using kept_write [OF k pr] c by blast
qed
text \<open>Mapping the pages from \<open>a\<close> to \<open>b\<close>, none of which is mapped.\<close>

lemma map_loop_ok:
  assumes "ok s F" "pt_ok usable F (pmem s) d" "aligned a" "aligned b" "unat b = unat a + n * 4096"
    and "\<And>x. pgrounddown x - a \<le> b - a \<Longrightarrow> \<not> present (entry (pmem s) d x)"
  shows "\<exists>r s' F'. map_loop alloc d a b pa perm s = Some (r, s') \<and> kept ok usable d s F s' F' \<and>
    (r = 0 \<and> card (F - F') \<le> tables_needed (pmem s) d a b \<and>
       (\<forall>x. entry (pmem s') d x = (if pgrounddown x - a \<le> b - a
          then (pa + (pgrounddown x - a)) OR perm OR PTE_P else entry (pmem s) d x)) \<or>
     r = -1 \<and> F' = {} \<and> card F < tables_needed (pmem s) d a b)"
  using assms
proof (induction n arbitrary: s F a pa)
  case 0
  then have ab: "a = b" by (simp add: word_unat_eq_iff)
  have na: "\<not> present (entry (pmem s) d a)" using 0(6) [of a] 0(3) by simp
  have rng: "pgrounddown x - a \<le> b - a \<longleftrightarrow> pgrounddown x = a" for x using ab by simp
  from map_step [OF 0(1,2) na 0(3), of b pa perm] show ?case
  proof (elim disjE exE conjE)
    assume "\<not> present (pde (pmem s) d (pdx a))" "F = {}" "map_loop alloc d a b pa perm s = Some (-1, s)"
    then show ?thesis using kept_refl [of ok s F usable d] 0(1,2)
      by (intro exI [of _ "-1"] exI [of _ s] exI [of _ F]) (simp add: tables_needed_def)
  next
    fix s' F'
    assume "kept ok usable d s F s' F'"
      "card (F - F') = (if present (pde (pmem s) d (pdx a)) then 0 else 1)"
      "\<forall>x. entry (pmem s') d x = (if pgrounddown x = a then pa OR perm OR PTE_P else entry (pmem s) d x)"
      "map_loop alloc d a b pa perm s = (if a = b then Some (0, s') else map_loop alloc d (a + PGSIZE) b (pa + PGSIZE) perm s')"
    then show ?thesis using ab
      by (intro exI [of _ "0"] exI [of _ s'] exI [of _ F']) (simp add: tables_needed_def)
  qed
next
  case (Suc n)
  let ?a = "a + PGSIZE"
  have le: "unat a + 4096 \<le> unat b" using Suc.prems(5) by simp
  have ua: "unat ?a = unat a + 4096" by (rule unat_next [OF le])
  have ab: "a \<noteq> b" using le by auto
  have ba: "aligned (b - a)" "b - a \<noteq> 0" using Suc.prems(3,4) ab by auto
  have rng: "pgrounddown x - a \<le> b - a \<longleftrightarrow> pgrounddown x = a \<or> pgrounddown x - ?a \<le> b - ?a" for x
    using page_iff_step [OF _ ba, of "pgrounddown x - a"] Suc.prems(3) by (simp add: diff_diff_eq)
  have na: "\<not> present (entry (pmem s) d a)" using Suc.prems(6) [of a] Suc.prems(3) by simp
  from map_step [OF Suc.prems(1,2) na Suc.prems(3), of b pa perm] show ?case
  proof (elim disjE exE conjE)
    assume "\<not> present (pde (pmem s) d (pdx a))" "F = {}" "map_loop alloc d a b pa perm s = Some (-1, s)"
    then show ?thesis using kept_refl [of ok s F usable d] Suc.prems(1,2)
      by (intro exI [of _ "-1"] exI [of _ s] exI [of _ F]) (simp add: tables_needed_def)
  next
    fix s1 F1
    assume k: "kept ok usable d s F s1 F1" and pr: "present (pde (pmem s1) d (pdx a))"
      and c: "card (F - F1) = (if present (pde (pmem s) d (pdx a)) then 0 else 1)"
      and e: "\<forall>x. entry (pmem s1) d x = (if pgrounddown x = a then pa OR perm OR PTE_P else entry (pmem s) d x)"
      and st: "map_loop alloc d a b pa perm s = (if a = b then Some (0, s1) else map_loop alloc d ?a b (pa + PGSIZE) perm s1)"
    note kd = keptD [OF k]
    have anr: "\<not> a - ?a \<le> b - ?a"
    proof -
      have "unat (a - ?a) = 2 ^ 32 - 4096" by (simp add: PGSIZE_def)
      moreover have "unat (b - ?a) < 2 ^ 32 - 4096" using le ua u32_less [of b] by (simp add: unat_sub word_le_nat_alt)
      ultimately show ?thesis by (simp add: word_le_nat_alt)
    qed
    have nr: "\<not> present (entry (pmem s1) d x)" if "pgrounddown x - ?a \<le> b - ?a" for x
      using e Suc.prems(6) [of x] rng [of x] that anr by auto
    have "\<exists>r s2 F2. map_loop alloc d ?a b (pa + PGSIZE) perm s1 = Some (r, s2) \<and> kept ok usable d s1 F1 s2 F2 \<and>
      (r = 0 \<and> card (F1 - F2) \<le> tables_needed (pmem s1) d ?a b \<and>
         (\<forall>x. entry (pmem s2) d x = (if pgrounddown x - ?a \<le> b - ?a
            then (pa + PGSIZE + (pgrounddown x - ?a)) OR perm OR PTE_P else entry (pmem s1) d x)) \<or>
       r = -1 \<and> F2 = {} \<and> card F1 < tables_needed (pmem s1) d ?a b)"
    proof (rule Suc.IH [OF kd(2,3) _ Suc.prems(4) _ nr])
      show "aligned ?a" using Suc.prems(3) by simp
      show "unat b = unat ?a + n * 4096" using Suc.prems(5) ua by simp
    qed
    then obtain r s2 F2 where m: "map_loop alloc d ?a b (pa + PGSIZE) perm s1 = Some (r, s2)"
      and k2: "kept ok usable d s1 F1 s2 F2"
      and r: "r = 0 \<and> card (F1 - F2) \<le> tables_needed (pmem s1) d ?a b \<and>
         (\<forall>x. entry (pmem s2) d x = (if pgrounddown x - ?a \<le> b - ?a
            then (pa + PGSIZE + (pgrounddown x - ?a)) OR perm OR PTE_P else entry (pmem s1) d x)) \<or>
       r = -1 \<and> F2 = {} \<and> card F1 < tables_needed (pmem s1) d ?a b"
      by (elim exE conjE) (rule that)
    note tn = tables_needed_step [OF le pr, of "pmem s"]
    have un: "F - F2 = (F - F1) \<union> (F1 - F2)" "F = (F - F1) \<union> F1" using kd(1) keptD(1) [OF k2] by auto
    have cc: "card (F - F2) \<le> card (F - F1) + card (F1 - F2)" by (subst un(1)) (rule card_Un_le)
    have cF: "card F \<le> card (F - F1) + card F1" by (subst un(2)) (rule card_Un_le)
    from r show ?thesis
    proof (elim disjE conjE)
      assume r0: "r = 0" "card (F1 - F2) \<le> tables_needed (pmem s1) d ?a b"
        and e2: "\<forall>x. entry (pmem s2) d x = (if pgrounddown x - ?a \<le> b - ?a
            then (pa + PGSIZE + (pgrounddown x - ?a)) OR perm OR PTE_P else entry (pmem s1) d x)"
      have "entry (pmem s2) d x = (if pgrounddown x - a \<le> b - a
          then (pa + (pgrounddown x - a)) OR perm OR PTE_P else entry (pmem s) d x)" for x
        using e e2 rng [of x] anr by (cases "pgrounddown x = a") (simp_all add: algebra_simps)
      moreover have "card (F - F2) \<le> tables_needed (pmem s) d a b" using cc c tn r0(2) by linarith
      ultimately show ?thesis using st ab m r0(1) kept_trans [OF k k2]
        by (intro exI [of _ 0] exI [of _ s2] exI [of _ F2]) simp
    next
      assume rm: "r = -1" "F2 = {}" "card F1 < tables_needed (pmem s1) d ?a b"
      have "card F < tables_needed (pmem s) d a b" using cF c tn rm(3) by linarith
      then show ?thesis using st ab m rm(1,2) kept_trans [OF k k2]
        by (intro exI [of _ "-1"] exI [of _ s2] exI [of _ F2]) simp
    qed
  qed
qed
text \<open>\<open>mappages\<close> on whole pages, from \<open>la\<close> to the byte before \<open>e\<close> (0 is the end of the address space).\<close>

lemma mappages_ok:
  assumes ok: "ok s F" and pt: "pt_ok usable F (pmem s) d" and al: "aligned la" "aligned e" "la \<le> e - PGSIZE"
    and none: "\<And>x. la \<le> x \<Longrightarrow> x \<le> e - 1 \<Longrightarrow> \<not> present (entry (pmem s) d x)"
  shows "\<exists>r s' F'. mappages alloc d la (e - la) pa perm s = Some (r, s') \<and> kept ok usable d s F s' F' \<and>
    (r = 0 \<and> card (F - F') \<le> tables_needed (pmem s) d la (e - PGSIZE) \<and>
       (\<forall>x. entry (pmem s') d x = (if la \<le> x \<and> x \<le> e - 1
          then (pa + (pgrounddown x - la)) OR perm OR PTE_P else entry (pmem s) d x)) \<or>
     r = -1 \<and> F' = {} \<and> card F < tables_needed (pmem s) d la (e - PGSIZE))"
proof -
  let ?b = "e - PGSIZE"
  have ab: "aligned ?b" using al(2) by simp
  have le: "unat la \<le> unat ?b" using al(3) by (simp add: word_le_nat_alt)
  have "unat ?b = unat la + ((unat ?b - unat la) div 4096) * 4096"
  proof -
    have "4096 dvd unat ?b - unat la" using ab al(1) by (simp add: aligned_unat mod_0_imp_dvd)
    then show ?thesis using le by simp
  qed
  moreover have rng: "pgrounddown x - la \<le> ?b - la \<longleftrightarrow> la \<le> x \<and> x \<le> e - 1" for x
    using word_between [OF al(3)] le_pgrounddown [OF al(1)] pgrounddown_le [OF al(2)] by simp
  ultimately show ?thesis
    using map_loop_ok [OF ok pt al(1) ab, where pa = pa and perm = perm] none al(1) last_page [OF al(2)]
    by (simp add: mappages_def)
qed

lemma map_row:
  assumes ok: "ok s F" and pt: "pt_ok usable F (pmem s) d" and r: "row_ok (p, e, perm)"
    and none: "\<forall>x. in_row x (p, e, perm) \<longrightarrow> \<not> present (entry (pmem s) d x)"
    and n: "row_cost (p, e, perm) \<le> card F"
  shows "\<exists>s' F'. map_rows alloc d ((p, e, perm) # ks) s = map_rows alloc d ks s' \<and> kept ok usable d s F s' F' \<and>
    card F \<le> card F' + row_cost (p, e, perm) \<and>
    (\<forall>x. entry (pmem s') d x = (if in_row x (p, e, perm)
       then pgrounddown x OR perm OR PTE_P else entry (pmem s) d x))"
proof -
  have le: "tables_needed (pmem s) d p (e - PGSIZE) \<le> row_cost (p, e, perm)"
    by (simp add: tables_needed_def row_cost_def)
  have al: "aligned p" "aligned e" "p \<le> e - PGSIZE" using r by (simp_all add: row_ok_def)
  have no: "\<not> present (entry (pmem s) d x)" if "p \<le> x" "x \<le> e - 1" for x
    using none that by (simp add: in_row_def)
  from mappages_ok [OF ok pt al no, where pa = p and perm = perm] le n obtain s' F' where
    m: "mappages alloc d p (e - p) p perm s = Some (0, s')" and k: "kept ok usable d s F s' F'"
    and c: "card (F - F') \<le> row_cost (p, e, perm)"
    and e: "\<forall>x. entry (pmem s') d x = (if in_row x (p, e, perm)
       then pgrounddown x OR perm OR PTE_P else entry (pmem s) d x)"
    by (force simp: algebra_simps in_row_def)
  have "card F \<le> card F' + row_cost (p, e, perm)"
    using c keptD(1) [OF k] by (simp add: card_Diff_subset finite_subset [of _ UNIV])
  moreover have "map_rows alloc d ((p, e, perm) # ks) s = map_rows alloc d ks s'" by (simp add: m)
  ultimately show ?thesis using k e by blast
qed

lemma map_rows_ok:
  assumes "ok s F" "pt_ok usable F (pmem s) d" "rows_ok ks" "sum_list (map row_cost ks) \<le> card F"
    and "\<And>x. \<exists>r \<in> set ks. in_row x r \<Longrightarrow> \<not> present (entry (pmem s) d x)"
  shows "\<exists>s' F'. map_rows alloc d ks s = Some (d, s') \<and> kept ok usable d s F s' F' \<and>
    card F \<le> card F' + sum_list (map row_cost ks) \<and>
    (\<forall>x. entry (pmem s') d x = row_entry ks (entry (pmem s) d x) x)"
  using assms
proof (induction ks arbitrary: s F)
  case Nil
  with kept_refl [of ok s F usable d] show ?case by auto
next
  case (Cons r ks)
  obtain p e perm where r: "r = (p, e, perm)" by (cases r)
  have "row_ok (p, e, perm)" "row_cost (p, e, perm) \<le> card F"
    "\<forall>x. in_row x (p, e, perm) \<longrightarrow> \<not> present (entry (pmem s) d x)"
    using Cons.prems(3,4,5) by (auto simp: r)
  from map_row [OF Cons.prems(1,2) this(1,3,2), where ks = ks, folded r] obtain s1 F1 where
    m: "map_rows alloc d (r # ks) s = map_rows alloc d ks s1" and k: "kept ok usable d s F s1 F1"
    and c: "card F \<le> card F1 + row_cost r"
    and e: "\<forall>x. entry (pmem s1) d x = (if in_row x r then pgrounddown x OR perm OR PTE_P else entry (pmem s) d x)"
    by (elim exE conjE) (rule that)
  note kd = keptD [OF k]
  have "rows_ok ks" "sum_list (map row_cost ks) \<le> card F1" using Cons.prems(3,4) c by auto
  moreover have "\<not> present (entry (pmem s1) d x)" if "\<exists>r \<in> set ks. in_row x r" for x
  proof -
    have "\<not> in_row x r" using Cons.prems(3) that by auto
    with e Cons.prems(5) [of x] that show ?thesis by auto
  qed
  ultimately obtain s2 F2 where m2: "map_rows alloc d ks s1 = Some (d, s2)" and k2: "kept ok usable d s1 F1 s2 F2"
    and c2: "card F1 \<le> card F2 + sum_list (map row_cost ks)"
    and e2: "\<forall>x. entry (pmem s2) d x = row_entry ks (entry (pmem s1) d x) x"
    using Cons.IH [OF kd(2,3)] by blast
  have "entry (pmem s2) d x = row_entry (r # ks) (entry (pmem s) d x) x" for x
  proof (cases "in_row x r")
    case True
    then have "\<forall>r' \<in> set ks. \<not> in_row x r'" using Cons.prems(3) by auto
    with True e e2 show ?thesis by (simp add: row_entry_none r)
  next
    case False
    with e e2 show ?thesis by (simp add: r)
  qed
  with m m2 kept_trans [OF k k2] c c2 show ?case
    by (intro exI [of _ s2] exI [of _ F2]) simp
qed
lemma setupkvm_ok:
  assumes ok: "ok s F" and c: "15 \<le> card F" and data: "aligned data" "0x100000 < data" "data < PHYSTOP"
  shows "\<exists>d s' F'. setupkvm alloc data s = Some (d, s') \<and> d \<in> F \<and> F' \<subseteq> F \<and> ok s' F' \<and>
    pt_ok usable F' (pmem s') d \<and> tables (pmem s') d = F - F' \<and> card F \<le> card F' + 15 \<and>
    (\<forall>x. entry (pmem s') d x = kernel_entry data x) \<and>
    (\<forall>a. pgrounddown a \<notin> F \<longrightarrow> pmem s' a = pmem s a)"
proof -
  have "F \<noteq> {}" using c by auto
  with alloc_answers [OF ok] obtain d s0 where a0: "alloc s = Some (d, s0)" "d \<noteq> 0" "d \<in> F" "ok s0 (F - {d})"
    and fr: "\<forall>a. pgrounddown a \<notin> F \<longrightarrow> pmem s0 a = pmem s a" by blast
  have ud: "usable d" "aligned d" using ok_usable [OF ok a0(3)] usable_page by blast+
  let ?F = "F - {d}"
  define s1 where "s1 = s0\<lparr>pmem := fill_page d 0 (pmem s0)\<rparr>"
  have z: "pmem s1 a = 0" if "pgrounddown a = d" for a using that ud(2) by (simp add: s1_def fill_page_iff)
  have e0: "entry (pmem s1) d x = 0" "used (pmem s1) d = {}" "tables (pmem s1) d = {d}" for x
    by (rule empty_table [OF ud(2)], erule z)+
  have ok1: "ok s1 ?F" unfolding s1_def by (rule ok_write [OF a0(4)]) (use ud(2) in \<open>simp add: fill_page_iff\<close>)
  have pt1: "pt_ok usable ?F (pmem s1) d" using ud(1) by (simp add: pt_ok_def e0(2,3))
  have cF: "card F = Suc (card ?F)" using card_Suc_Diff1 [OF finite a0(3)] by simp
  have none: "\<not> present (entry (pmem s1) d x)" for x by (simp add: e0(1))
  note cost = kmap_cost [OF data(2,3)]
  have "sum_list (map row_cost (kmap data)) \<le> card ?F" using cost c cF by linarith
  from map_rows_ok [OF ok1 pt1 kmap_rows_ok [OF data] this none] obtain s5 F5 where
    m: "map_rows alloc d (kmap data) s1 = Some (d, s5)" and k: "kept ok usable d s1 ?F s5 F5"
    and c5: "card ?F \<le> card F5 + sum_list (map row_cost (kmap data))"
    and e: "\<forall>x. entry (pmem s5) d x = row_entry (kmap data) (entry (pmem s1) d x) x"
    by (elim exE conjE) (rule that)
  note kd = keptD [OF k]
  show ?thesis
  proof (intro exI conjI allI impI)
    show "setupkvm alloc data s = Some (d, s5)" using a0(1,2) m by (simp add: setupkvm_def s1_def)
    show "card F \<le> card F5 + 15" using cF c5 cost by linarith
    show "tables (pmem s5) d = F - F5" using kd(1,4) e0(3) a0(3) by auto
    show "entry (pmem s5) d x = kernel_entry data x" for x
      using e by (simp add: e0(1) kernel_rows [OF data(2,3)])
    show "pmem s5 a = pmem s a" if "pgrounddown a \<notin> F" for a
    proof -
      have "pgrounddown a \<noteq> d" using that a0(3) by auto
      then have "pmem s5 a = pmem s1 a" using kd(6) [of a] e0(3) that by simp
      also have "\<dots> = pmem s0 a" using \<open>pgrounddown a \<noteq> d\<close> ud(2) by (simp add: s1_def fill_page_iff)
      finally show ?thesis using fr that by simp
    qed
    show "d \<in> F" "ok s5 F5" "pt_ok usable F5 (pmem s5) d" by (rule a0(3) kd(2,3))+
    show "F5 \<subseteq> F" using kd(1) by blast
  qed
qed
text \<open>A page for the user: allocate, write the page, map it in an existing table.\<close>

lemma user_page:
  assumes ok: "ok s F" and pt: "pt_ok usable F (pmem s) d" and pr: "present (pde (pmem s) d (pdx a))"
    and al: "aligned a" and na: "\<not> present (entry (pmem s) d a)" and F: "F \<noteq> {}"
  shows "\<exists>p s0. alloc s = Some (p, s0) \<and> p \<noteq> 0 \<and> p \<in> F \<and> aligned p \<and>
    (\<forall>x. pgrounddown x \<notin> F \<longrightarrow> pmem s0 x = pmem s x) \<and>
    (\<forall>m. (\<forall>x. pgrounddown x \<noteq> p \<longrightarrow> m x = pmem s0 x) \<longrightarrow>
      (\<exists>s'. mappages alloc d a PGSIZE p perm (s0\<lparr>pmem := m\<rparr>) = Some (0, s') \<and> mapped_page ok usable d a perm p s F m s'))"
proof -
  from alloc_answers [OF ok] F obtain p s0 where p: "alloc s = Some (p, s0)" "p \<noteq> 0" "p \<in> F" "ok s0 (F - {p})"
    and fr: "\<forall>x. pgrounddown x \<notin> F \<longrightarrow> pmem s0 x = pmem s x" by blast
  have ap: "aligned p" using ok_usable [OF ok p(3)] usable_page by blast
  have "\<exists>s'. mappages alloc d a PGSIZE p perm (s0\<lparr>pmem := m\<rparr>) = Some (0, s') \<and> mapped_page ok usable d a perm p s F m s'"
    if m: "\<forall>x. pgrounddown x \<noteq> p \<longrightarrow> m x = pmem s0 x" for m
  proof -
    let ?s = "s0\<lparr>pmem := m\<rparr>" and ?F = "F - {p}"
    have tF: "q \<notin> F" if "q \<in> tables (pmem s) d" for q using pt_ok_page(1) [OF pt that] by simp
    have ald: "aligned d" using pt_ok_dir [OF pt] by simp
    have same: "pmem ?s x = pmem s x" if "pgrounddown x \<notin> F" for x
      using that m fr p(3) by (metis kmem.select_convs(1) kmem.surjective kmem.update_convs(1))
    have same': "pmem ?s x = pmem s x" if "pgrounddown x \<in> tables (pmem s) d" for x
      by (rule same [OF tF [OF that]])
    then have same'': "\<forall>x. pgrounddown x \<in> tables (pmem s) d \<longrightarrow> pmem ?s x = pmem s x" by blast
    note c = unchanged_tables [OF ald same'']
    have ok': "ok ?s ?F" by (rule ok_write [OF p(4)]) (use m in auto)
    have pt': "pt_ok usable ?F (pmem ?s) d"
      unfolding c(4) by (rule pt_ok_anti [OF pt Diff_subset])
    have pr': "present (pde (pmem ?s) d (pdx a))" using pr c(3) [OF slot_pdx] by simp
    have na': "\<not> present (entry (pmem ?s) d a)" using na c(1) by simp
    from map_step [OF ok' pt' na' al, of a p perm] pr' obtain s' F' where
      k: "kept ok usable d ?s ?F s' F'" and p': "present (pde (pmem s') d (pdx a))"
      and cd: "card (?F - F') = 0"
      and e: "\<forall>x. entry (pmem s') d x = (if pgrounddown x = a then p OR perm OR PTE_P else entry (pmem ?s) d x)"
      and l: "map_loop alloc d a a p perm ?s = Some (0, s')"
      by (simp only: if_True simp_thms) blast
    note kd = keptD [OF k]
    have F': "F' = ?F" using cd kd(1) by auto
    have "pgrounddown (a + PGSIZE - 1) = a" using last_page [of "a + PGSIZE"] al by simp
    then have "mappages alloc d a PGSIZE p perm ?s = Some (0, s')" using l al by (simp add: mappages_def)
    moreover have "pmem s' x = m x" if "pgrounddown x = p" for x
      using kd(6) [of x] that c(2) tF p(3) by auto
    moreover have "pmem s' x = pmem s x" if "pgrounddown x \<notin> F" "pgrounddown x \<notin> tables (pmem s) d" for x
      using kd(6) [of x] that c(2) same [of x] by auto
    moreover have "pde (pmem s') d i = pde (pmem s) d i" if "slot i" "present (pde (pmem s) d i)" for i
      using kd(5) [of i] c(3) [of i] that by simp
    ultimately show ?thesis using kd(2,3,4) F' c(1,2) e p' unfolding mapped_page_def by (intro exI [of _ s']) auto
  qed
  with p ap fr show ?thesis by blast
qed
lemma grown_start:
  assumes "ok s F" "pt_ok usable F (pmem s) d"
  shows "grown ok usable d {} f g c s F s F"
  using assms by (simp add: grown_def)

lemma grown_step:
  assumes pF: "p \<in> F" "aligned p" and pt: "pt_ok usable F (pmem s) d"
    and mp: "mapped_page ok usable d a (g a) p s F m s1"
    and m: "\<forall>x. pgrounddown x = p \<longrightarrow> m x = c a (x - p)"
    and gr: "grown ok usable d P f g c s1 (F - {p}) s' F'" and a: "a \<notin> P" "aligned a"
  shows "grown ok usable d (insert a P) (f(a := p)) g c s F s' F'"
proof -
  note G = gr [unfolded grown_def]
  have tab: "tables (pmem s1) d = tables (pmem s) d"
    and e: "\<forall>x. entry (pmem s1) d x = (if pgrounddown x = a then p OR g a OR PTE_P else entry (pmem s) d x)"
    and fr: "\<forall>x. pgrounddown x \<notin> F \<and> pgrounddown x \<notin> tables (pmem s) d \<longrightarrow> pmem s1 x = pmem s x"
    and cont: "\<forall>x. pgrounddown x = p \<longrightarrow> pmem s1 x = c a (x - p)"
    and pk: "\<forall>i. slot i \<and> present (pde (pmem s) d i) \<longrightarrow> pde (pmem s1) d i = pde (pmem s) d i"
    using mp m by (simp_all add: mapped_page_def)
  have pT: "p \<notin> tables (pmem s) d" using pt_ok_page(1) [OF pt] pF(1) by blast
  have im: "f ` P = F - {p} - F'" and inj: "inj_on f P" and F': "F' \<subseteq> F - {p}" using G by blast+
  have f': "(f(a := p)) ` insert a P = F - F'"
  proof -
    have "(f(a := p)) ` P = f ` P" using a(1) by (intro image_cong) auto
    then show ?thesis using im pF(1) F' by auto
  qed
  have inj': "inj_on (f(a := p)) (insert a P)"
  proof -
    have "inj_on (f(a := p)) P" using inj a(1) by (subst inj_on_cong [of P _ f]) auto
    moreover have "p \<notin> (f(a := p)) ` P" using im a(1) by auto
    ultimately show ?thesis using a(1) by simp
  qed
  show ?thesis
    unfolding grown_def
  proof (intro conjI allI impI ballI)
    show "F' \<subseteq> F" using F' by blast
    show "ok s' F'" "pt_ok usable F' (pmem s') d" using G by blast+
    show "tables (pmem s') d = tables (pmem s) d" using G tab by simp
    show "inj_on (f(a := p)) (insert a P)" by (rule inj')
    show "pde (pmem s') d i = pde (pmem s) d i" if i: "slot i \<and> present (pde (pmem s) d i)" for i
    proof -
      have "pde (pmem s1) d i = pde (pmem s) d i" using pk i by blast
      moreover have "slot i \<and> present (pde (pmem s1) d i) \<longrightarrow> pde (pmem s') d i = pde (pmem s1) d i" using G by blast
      ultimately show ?thesis using i by simp
    qed
    show "(f(a := p)) ` insert a P = F - F'" by (rule f')
    show "entry (pmem s') d x = (if pgrounddown x \<in> insert a P
        then (f(a := p)) (pgrounddown x) OR g (pgrounddown x) OR PTE_P else entry (pmem s) d x)" for x
    proof -
      have "entry (pmem s') d x = (if pgrounddown x \<in> P
        then f (pgrounddown x) OR g (pgrounddown x) OR PTE_P else entry (pmem s1) d x)" using G by blast
      with e a(1) show ?thesis by (cases "pgrounddown x = a") auto
    qed
    show "pmem s' x = c y (x - (f(a := p)) y)"
      if "y \<in> insert a P" "pgrounddown x = (f(a := p)) y" for x y
    proof (cases "y = a")
      case True
      with that have x: "pgrounddown x = p" by simp
      then have "pmem s' x = pmem s1 x" using G tab pT by auto
      with cont x True show ?thesis by simp
    next
      case False
      with that G show ?thesis by auto
    qed
    show "pmem s' x = pmem s x" if x: "pgrounddown x \<notin> F \<and> pgrounddown x \<notin> tables (pmem s) d" for x
    proof -
      have "pmem s' x = pmem s1 x" using G x tab by auto
      also have "\<dots> = pmem s x" using fr x by blast
      finally show ?thesis .
    qed
  qed
qed
lemma alloc_loop_ok:
  assumes "ok s F" "pt_ok usable F (pmem s) d" "present (pde (pmem s) d 0)" "aligned a" "n \<le> USERTOP"
    "\<forall>x \<in> user_pages a n. \<not> present (entry (pmem s) d x)" "card (user_pages a n) \<le> card F"
  shows "\<exists>s' F' f. alloc_loop alloc free d a old n s = Some (n, s') \<and>
    grown ok usable d (user_pages a n) f (\<lambda>_. PTE_W OR PTE_U) (\<lambda>_ _. 0) s F s' F'"
  using assms
proof (induction "unat n - unat a" arbitrary: a s F rule: less_induct)
  case less
  show ?case
  proof (cases "a < n")
    case False
    then have "user_pages a n = {}" by (auto simp: user_pages_def)
    moreover have "alloc_loop alloc free d a old n s = Some (n, s)"
      using False by (simp add: alloc_loop.simps [of alloc free d a])
    ultimately show ?thesis using grown_start [OF less.prems(1,2)] by metis
  next
    case True
    note st = user_pages_step [OF less.prems(4) True less.prems(5)]
    have fin: "finite (user_pages (a + PGSIZE) n)" by simp
    have ne: "F \<noteq> {}" and cF: "card (user_pages (a + PGSIZE) n) < card F"
      using less.prems(7) st(1,2) by auto
    have pd: "pdx a = 0" using True less.prems(5) by (intro pdx_user) auto
    have na: "\<not> present (entry (pmem s) d a)" using less.prems(6) st(1) by simp
    have pa: "present (pde (pmem s) d (pdx a))" using less.prems(3) pd by simp
    from user_page [OF less.prems(1,2) pa less.prems(4) na ne, of "PTE_W OR PTE_U"]
    obtain p s0 where p: "alloc s = Some (p, s0)" "p \<noteq> 0" "p \<in> F" "aligned p"
      and mp: "\<forall>m. (\<forall>x. pgrounddown x \<noteq> p \<longrightarrow> m x = pmem s0 x) \<longrightarrow>
        (\<exists>s'. mappages alloc d a PGSIZE p (PTE_W OR PTE_U) (s0\<lparr>pmem := m\<rparr>) = Some (0, s') \<and>
          mapped_page ok usable d a (PTE_W OR PTE_U) p s F m s')"
      by (elim exE conjE) (rule that)
    let ?m = "fill_page p 0 (pmem s0)"
    have "\<forall>x. pgrounddown x \<noteq> p \<longrightarrow> ?m x = pmem s0 x" using p(4) by (simp add: fill_page_iff)
    with mp obtain s1 where m1: "mappages alloc d a PGSIZE p (PTE_W OR PTE_U) (s0\<lparr>pmem := ?m\<rparr>) = Some (0, s1)"
      and mg: "mapped_page ok usable d a (PTE_W OR PTE_U) p s F ?m s1" by blast
    note M = mg [unfolded mapped_page_def]
    have ok1: "ok s1 (F - {p})" and pt1: "pt_ok usable (F - {p}) (pmem s1) d"
      and pr1: "present (pde (pmem s1) d (pdx a))"
      and e1: "\<forall>x. entry (pmem s1) d x = (if pgrounddown x = a then p OR (PTE_W OR PTE_U) OR PTE_P else entry (pmem s) d x)"
      using M by blast+
    have z1: "\<forall>x. pgrounddown x = p \<longrightarrow> ?m x = 0" using p(4) by (simp add: fill_page_iff)
    have "unat n - unat (a + PGSIZE) < unat n - unat a" using True st(3) by (simp add: word_less_nat_alt)
    moreover have "\<forall>x \<in> user_pages (a + PGSIZE) n. \<not> present (entry (pmem s1) d x)"
    proof
      fix x assume x: "x \<in> user_pages (a + PGSIZE) n"
      then have "pgrounddown x \<noteq> a" using st(2) by (auto simp: user_pages_def)
      with e1 x less.prems(6) st(1) show "\<not> present (entry (pmem s1) d x)" by simp
    qed
    moreover have "card (user_pages (a + PGSIZE) n) \<le> card (F - {p})" using cF p(3) by (simp add: card_Diff_singleton)
    ultimately obtain s' F' f where l: "alloc_loop alloc free d (a + PGSIZE) old n s1 = Some (n, s')"
      and g: "grown ok usable d (user_pages (a + PGSIZE) n) f (\<lambda>_. PTE_W OR PTE_U) (\<lambda>_ _. 0) s1 (F - {p}) s' F'"
      using less.hyps [of "a + PGSIZE" s1 "F - {p}"] ok1 pt1 pr1 pd less.prems(4,5) by auto
    have "grown ok usable d (insert a (user_pages (a + PGSIZE) n)) (f(a := p)) (\<lambda>_. PTE_W OR PTE_U) (\<lambda>_ _. 0) s F s' F'"
      by (rule grown_step [OF p(3,4) less.prems(2) mg z1 g st(2) less.prems(4)])
    moreover have "alloc_loop alloc free d a old n s = Some (n, s')"
      using True p(1,2) m1 l by (simp add: alloc_loop.simps [of alloc free d a])
    ultimately show ?thesis using st(1) by auto
  qed
qed
lemma copy_loop_ok:
  assumes "ok s F" "pt_ok usable F (pmem s) d" "present (pde (pmem s) d 0)" "aligned i" "n \<le> USERTOP"
    "\<forall>x \<in> user_pages i n. \<not> present (entry (pmem s) d x)" "card (user_pages i n) \<le> card F"
    and "aligned d0" "tables (pmem s) d0 \<subseteq> Q" "Q \<inter> (F \<union> tables (pmem s) d) = {}"
    and "\<forall>y \<in> tables (pmem s) d0. y \<noteq> 0"
    and "\<forall>y \<in> user_pages i n. present (entry (pmem s) d0 y) \<and> frame (pmem s) d0 y \<in> Q \<and>
      (entry (pmem s) d0 y AND PTE_W) OR PTE_U = g y \<and>
      (\<forall>x. pgrounddown x = frame (pmem s) d0 y \<longrightarrow> pmem s x = c y (x - frame (pmem s) d0 y))"
  shows "\<exists>s' F' f. copy_loop alloc free d0 d i n s = Some (d, s') \<and>
    grown ok usable d (user_pages i n) f g c s F s' F'"
  using assms
proof (induction "unat n - unat i" arbitrary: i s F rule: less_induct)
  case less
  show ?case
  proof (cases "i < n")
    case False
    then have "user_pages i n = {}" by (auto simp: user_pages_def)
    moreover have "copy_loop alloc free d0 d i n s = Some (d, s)"
      using False by (simp add: copy_loop.simps [of alloc free d0 d i])
    ultimately show ?thesis using grown_start [OF less.prems(1,2)] by metis
  next
    case True
    note st = user_pages_step [OF less.prems(4) True less.prems(5)]
    let ?P = "user_pages (i + PGSIZE) n"
    have ne: "F \<noteq> {}" and cF: "card ?P < card F" using less.prems(7) st(1,2) by auto
    have pd: "pdx i = 0" using True less.prems(5) by (intro pdx_user) auto
    have na: "\<not> present (entry (pmem s) d i)" using less.prems(6) st(1) by simp
    have pa: "present (pde (pmem s) d (pdx i))" using less.prems(3) pd by simp
    let ?e = "entry (pmem s) d0 i" and ?fr = "frame (pmem s) d0 i"
    have par: "present ?e" "?fr \<in> Q" "(?e AND PTE_W) OR PTE_U = g i"
      "\<forall>x. pgrounddown x = ?fr \<longrightarrow> pmem s x = c i (x - ?fr)"
      using less.prems(12) st(1) by auto
    have afr: "aligned ?fr" by (simp add: frame_def)
    have pp: "present (pde (pmem s) d0 (pdx i))" by (rule entry_present [OF par(1)])
    have nz: "table (pmem s) d0 i + 4 * ptx i \<noteq> 0"
      by (rule pte_nonzero) (use less.prems(11) table_in [OF pp] in \<open>auto simp: table_def\<close>)
    have rd: "pmem s (table (pmem s) d0 i + 4 * ptx i) = ?e" using pp by (simp add: entry_def)
    from user_page [OF less.prems(1,2) pa less.prems(4) na ne, of "g i"]
    obtain p s0 where p: "alloc s = Some (p, s0)" "p \<noteq> 0" "p \<in> F" "aligned p"
      and fr0: "\<forall>x. pgrounddown x \<notin> F \<longrightarrow> pmem s0 x = pmem s x"
      and mp: "\<forall>m. (\<forall>x. pgrounddown x \<noteq> p \<longrightarrow> m x = pmem s0 x) \<longrightarrow>
        (\<exists>s'. mappages alloc d i PGSIZE p (g i) (s0\<lparr>pmem := m\<rparr>) = Some (0, s') \<and>
          mapped_page ok usable d i (g i) p s F m s')"
      by (elim exE conjE) (rule that)
    let ?m = "copy_page p ?fr (pmem s0)"
    have "\<forall>x. pgrounddown x \<noteq> p \<longrightarrow> ?m x = pmem s0 x" using p(4) by (simp add: copy_page_iff)
    with mp obtain s1 where m1: "mappages alloc d i PGSIZE p (g i) (s0\<lparr>pmem := ?m\<rparr>) = Some (0, s1)"
      and mg: "mapped_page ok usable d i (g i) p s F ?m s1" by blast
    note M = mg [unfolded mapped_page_def]
    have ok1: "ok s1 (F - {p})" and pt1: "pt_ok usable (F - {p}) (pmem s1) d"
      and tb1: "tables (pmem s1) d = tables (pmem s) d" and pr1: "present (pde (pmem s1) d 0)"
      and e1: "\<forall>x. entry (pmem s1) d x = (if pgrounddown x = i then p OR g i OR PTE_P else entry (pmem s) d x)"
      and fr1: "\<forall>x. pgrounddown x \<notin> F \<and> pgrounddown x \<notin> tables (pmem s) d \<longrightarrow> pmem s1 x = pmem s x"
      using M pd by auto
    have q1: "pmem s1 x = pmem s x" if "pgrounddown x \<in> Q" for x using fr1 that less.prems(10) by blast
    have qt: "\<forall>x. pgrounddown x \<in> tables (pmem s) d0 \<longrightarrow> pmem s1 x = pmem s x"
      using q1 less.prems(9) by blast
    note same = unchanged_tables [OF less.prems(8) qt]
    have z1: "\<forall>x. pgrounddown x = p \<longrightarrow> ?m x = c i (x - p)"
    proof (intro allI impI)
      fix x assume x: "pgrounddown x = p"
      then have o: "x - p < PGSIZE" using in_page_iff [OF p(4)] by simp
      have y: "pgrounddown (?fr + (x - p)) = ?fr" by (rule pgrounddown_add [OF afr o])
      have "?m x = pmem s0 (?fr + (x - p))" using x p(4) by (simp add: copy_page_iff)
      also have "\<dots> = pmem s (?fr + (x - p))"
        by (rule fr0 [rule_format], subst y) (use par(2) less.prems(10) in blast)
      also have "\<dots> = c i (x - p)" using par(4) [rule_format, OF y] by simp
      finally show "?m x = c i (x - p)" .
    qed
    have "unat n - unat (i + PGSIZE) < unat n - unat i" using True st(3) by (simp add: word_less_nat_alt)
    moreover have "\<forall>x \<in> ?P. \<not> present (entry (pmem s1) d x)"
    proof
      fix x assume x: "x \<in> ?P"
      then have "pgrounddown x \<noteq> i" using st(2) by (auto simp: user_pages_def)
      with e1 x less.prems(6) st(1) show "\<not> present (entry (pmem s1) d x)" by simp
    qed
    moreover have "card ?P \<le> card (F - {p})" using cF p(3) by (simp add: card_Diff_singleton)
    moreover have "\<forall>y \<in> ?P. present (entry (pmem s1) d0 y) \<and> frame (pmem s1) d0 y \<in> Q \<and>
      (entry (pmem s1) d0 y AND PTE_W) OR PTE_U = g y \<and>
      (\<forall>x. pgrounddown x = frame (pmem s1) d0 y \<longrightarrow> pmem s1 x = c y (x - frame (pmem s1) d0 y))"
      unfolding same frame_def using less.prems(12) q1 unfolding st(1) frame_def by auto
    moreover have "Q \<inter> (F - {p} \<union> tables (pmem s1) d) = {}" "tables (pmem s1) d0 \<subseteq> Q"
      "\<forall>y \<in> tables (pmem s1) d0. y \<noteq> 0"
      using less.prems(9-11) unfolding tb1 same by blast+
    moreover have "aligned (i + PGSIZE)" using less.prems(4) by simp
    ultimately obtain s' F' f where l: "copy_loop alloc free d0 d (i + PGSIZE) n s1 = Some (d, s')"
      and g: "grown ok usable d ?P f g c s1 (F - {p}) s' F'"
      using less.hyps [of "i + PGSIZE" s1 "F - {p}"] ok1 pt1 pr1 less.prems(5,8) by blast
    have "grown ok usable d (insert i ?P) (f(i := p)) g c s F s' F'"
      by (rule grown_step [OF p(3,4) less.prems(2) mg z1 g st(2) less.prems(4)])
    moreover have "copy_loop alloc free d0 d i n s = Some (d, s')"
      using True p(1,2) m1 l nz rd par(1,3) pp
      by (simp add: copy_loop.simps [of alloc free d0 d i] walk_lookup frame_def)
    ultimately show ?thesis using st(1) by auto
  qed
qed

end

end
