(* ===== verification/AddrSpace.thy ===== *)
theory AddrSpace imports VirtMem
begin

text \<open>
  What the operations of \<open>vm.c\<close> promise to the kernel, with the allocator of part A: the kernel's own
  mappings, growing and copying a process, and protecting pages.
\<close>

section \<open>Protecting pages\<close>

lemma protect_loop_ok:
  assumes "pt_ok U F (pmem s) d" "aligned d" "\<forall>p \<in> tables (pmem s) d. p \<noteq> 0" "present (pde (pmem s) d 0)"
    "aligned i" "e \<le> USERTOP"
  shows "\<exists>s'. protect_loop alloc f d i e s = Some (0, s') \<and>
    (\<forall>x. entry (pmem s') d x = (if pgrounddown x \<in> user_pages i e then f (entry (pmem s) d x) else entry (pmem s) d x)) \<and>
    (\<forall>x. pgrounddown x \<notin> tables (pmem s) d \<longrightarrow> pmem s' x = pmem s x)"
  using assms
proof (induction "unat e - unat i" arbitrary: i s rule: less_induct)
  case less
  show ?case
  proof (cases "i < e")
    case False
    then have "user_pages i e = {}" by (auto simp: user_pages_def)
    with False show ?thesis by (intro exI [of _ s]) (simp add: protect_loop.simps [of alloc f d i])
  next
    case True
    note st = user_pages_step [OF less.prems(5) True less.prems(6)]
    have pd: "pdx i = 0" using True less.prems(6) by (intro pdx_user) auto
    have pr: "present (pde (pmem s) d (pdx i))" using less.prems(4) pd by simp
    let ?a = "table (pmem s) d i + 4 * ptx i"
    let ?s = "s\<lparr>pmem := (pmem s)(?a := f (pmem s ?a))\<rparr>"
    have nz: "?a \<noteq> 0"
      by (rule pte_nonzero) (use less.prems(3) table_in [OF pr] in \<open>auto simp: table_def\<close>)
    have rd: "pmem s ?a = entry (pmem s) d i" using pr by (simp add: entry_def)
    note w = write_entry [OF less.prems(1,2) pr refl, where e = "f (pmem s ?a)"]
    have "unat e - unat (i + PGSIZE) < unat e - unat i" using True st(3) by (simp add: word_less_nat_alt)
    moreover have "pt_ok U F (pmem ?s) d" "\<forall>p \<in> tables (pmem ?s) d. p \<noteq> 0" "present (pde (pmem ?s) d 0)"
      using w(2,4) w(3) [of 0] less.prems(3,4) by (simp_all add: slot_def)
    moreover have "aligned (i + PGSIZE)" using less.prems(5) by simp
    ultimately obtain s' where l: "protect_loop alloc f d (i + PGSIZE) e ?s = Some (0, s')"
      and e': "\<forall>x. entry (pmem s') d x =
        (if pgrounddown x \<in> user_pages (i + PGSIZE) e then f (entry (pmem ?s) d x) else entry (pmem ?s) d x)"
      and fr: "\<forall>x. pgrounddown x \<notin> tables (pmem ?s) d \<longrightarrow> pmem s' x = pmem ?s x"
      using less.hyps [of "i + PGSIZE" ?s] less.prems(2,6) by blast
    have "entry (pmem s') d x =
        (if pgrounddown x \<in> user_pages i e then f (entry (pmem s) d x) else entry (pmem s) d x)" for x
    proof (cases "pgrounddown x = i")
      case True
      have "entry (pmem s) d x = entry (pmem s) d i"
        using True same_page_iff [of x i] less.prems(5) by (simp add: entry_def table_def)
      with True e' w(1) [of x] rd st(1,2) less.prems(5) show ?thesis by simp
    next
      case False
      with e' w(1) [of x] st(1) less.prems(5) show ?thesis by simp
    qed
    moreover have "pmem s' x = pmem s x" if x: "pgrounddown x \<notin> tables (pmem s) d" for x
    proof -
      have "x \<noteq> ?a" using x pte_page [OF pr] table_in [OF pr] by auto
      with fr x w(2) show ?thesis by simp
    qed
    moreover have "protect_loop alloc f d i e s = Some (0, s')"
      using True nz l pr by (simp add: protect_loop.simps [of alloc f d i] walk_lookup)
    ultimately show ?thesis by blast
  qed
qed

section \<open>Releasing pages\<close>

context total_allocator begin

lemma dealloc_loop_ok:
  assumes "ok s F" "pt_ok usable F (pmem s) d" "present (pde (pmem s) d 0)" "aligned a" "n \<le> USERTOP"
    "\<forall>y \<in> user_pages a n. present (entry (pmem s) d y) \<and> usable (frame (pmem s) d y) \<and>
       frame (pmem s) d y \<notin> F \<union> tables (pmem s) d" "inj_on (frame (pmem s) d) (user_pages a n)"
  shows "\<exists>s'. dealloc_loop alloc free d a n s = Some s' \<and>
    ok s' (F \<union> frame (pmem s) d ` user_pages a n) \<and>
    pt_ok usable (F \<union> frame (pmem s) d ` user_pages a n) (pmem s') d \<and> tables (pmem s') d = tables (pmem s) d \<and>
    (\<forall>i. slot i \<longrightarrow> pde (pmem s') d i = pde (pmem s) d i) \<and>
    (\<forall>x. entry (pmem s') d x = (if pgrounddown x \<in> user_pages a n then 0 else entry (pmem s) d x)) \<and>
    (\<forall>x. pgrounddown x \<notin> tables (pmem s) d \<union> frame (pmem s) d ` user_pages a n \<longrightarrow> pmem s' x = pmem s x)"
  using assms
proof (induction "unat n - unat a" arbitrary: a s F rule: less_induct)
  case less
  show ?case
  proof (cases "a < n")
    case False
    then have "user_pages a n = {}" by (auto simp: user_pages_def)
    with False less.prems(1,2) show ?thesis by (intro exI [of _ s]) (simp add: dealloc_loop.simps [of alloc free d a])
  next
    case True
    note st = user_pages_step [OF less.prems(4) True less.prems(5)]
    let ?P = "user_pages (a + PGSIZE) n" and ?v = "frame (pmem s) d a"
    have pd: "pdx a = 0" using True less.prems(5) by (intro pdx_user) auto
    have pr: "present (pde (pmem s) d (pdx a))" using less.prems(3) pd by simp
    have v: "present (entry (pmem s) d a)" "usable ?v" "?v \<notin> F" "?v \<notin> tables (pmem s) d"
      using less.prems(6) st(1) by auto
    have ald: "aligned d" using pt_ok_dir [OF less.prems(2)] by simp
    from free_page [OF less.prems(1) v(3,2)] obtain s0 where
      s0: "free ?v s = Some s0" "ok s0 (insert ?v F)" and fr0: "\<forall>x. pgrounddown x \<noteq> ?v \<longrightarrow> pmem s0 x = pmem s x"
      by blast
    have qt: "\<forall>x. pgrounddown x \<in> tables (pmem s) d \<longrightarrow> pmem s0 x = pmem s x" using fr0 v(4) by metis
    note same = unchanged_tables [OF ald qt]
    have pt0: "pt_ok usable (insert ?v F) (pmem s0) d"
      unfolding same(4) using less.prems(2) v(4) by (auto simp: pt_ok_def)
    have pr0: "present (pde (pmem s0) d (pdx a))" using pr same(3) [OF slot_pdx] by simp
    let ?a = "table (pmem s) d a + 4 * ptx a"
    have ta: "table (pmem s0) d a = table (pmem s) d a" using same(3) [OF slot_pdx] by (simp add: table_def)
    have nz: "?a \<noteq> 0" by (rule pt_ok_table [OF less.prems(2) pr])
    have rd: "pmem s ?a = entry (pmem s) d a" using pr by (simp add: entry_def)
    let ?s = "s0\<lparr>pmem := (pmem s0)(?a := 0)\<rparr>"
    note w = write_entry [OF pt0 ald pr0 refl, where e = 0, unfolded ta]
    have pgt: "pgrounddown ?a \<in> tables (pmem s) d" unfolding pte_page [OF pr] by (rule table_in [OF pr])
    have oks: "ok ?s (insert ?v F)"
      by (rule ok_write [OF s0(2)]) (use pgt pt_ok_page(1) [OF less.prems(2) pgt] v(4) in auto)
    have ents: "entry (pmem ?s) d x = (if pgrounddown x = a then 0 else entry (pmem s) d x)" for x
      using w(1) [of x] same(1) less.prems(4) by simp
    have tbs: "tables (pmem ?s) d = tables (pmem s) d" using w(2) same(2) by simp
    have fro: "frame (pmem ?s) d y = frame (pmem s) d y" if "y \<in> ?P" for y
      using ents [of y] that st(2) by (auto simp: frame_def user_pages_def)
    have im: "frame (pmem ?s) d ` ?P = frame (pmem s) d ` ?P" by (rule image_cong [OF refl fro])
    have "inj_on (frame (pmem ?s) d) ?P \<longleftrightarrow> inj_on (frame (pmem s) d) ?P" by (rule inj_on_cong [OF fro])
    then have inj: "inj_on (frame (pmem ?s) d) ?P" "?v \<notin> frame (pmem s) d ` ?P"
      using less.prems(7) st(2) unfolding st(1) by auto
    have "unat n - unat (a + PGSIZE) < unat n - unat a" using True st(3) by (simp add: word_less_nat_alt)
    moreover have "\<forall>y \<in> ?P. present (entry (pmem ?s) d y) \<and> usable (frame (pmem ?s) d y) \<and>
       frame (pmem ?s) d y \<notin> insert ?v F \<union> tables (pmem ?s) d"
    proof
      fix y assume y: "y \<in> ?P"
      then have ne: "pgrounddown y \<noteq> a" using st(2) by (auto simp: user_pages_def)
      have "frame (pmem s) d y \<noteq> ?v" using inj(2) y by (metis imageI)
      with less.prems(6) y ne show "present (entry (pmem ?s) d y) \<and> usable (frame (pmem ?s) d y) \<and>
          frame (pmem ?s) d y \<notin> insert ?v F \<union> tables (pmem ?s) d"
        unfolding tbs fro [OF y] ents st(1) by simp
    qed
    moreover have "present (pde (pmem ?s) d 0)" using w(3) [of 0] same(3) [of 0] less.prems(3) by (simp add: slot_def)
    moreover have "aligned (a + PGSIZE)" "pt_ok usable (insert ?v F) (pmem ?s) d" using less.prems(4) w(4) by simp_all
    ultimately have "\<exists>s'. dealloc_loop alloc free d (a + PGSIZE) n ?s = Some s' \<and>
      ok s' (insert ?v F \<union> frame (pmem ?s) d ` ?P) \<and>
      pt_ok usable (insert ?v F \<union> frame (pmem ?s) d ` ?P) (pmem s') d \<and> tables (pmem s') d = tables (pmem ?s) d \<and>
      (\<forall>i. slot i \<longrightarrow> pde (pmem s') d i = pde (pmem ?s) d i) \<and>
      (\<forall>x. entry (pmem s') d x = (if pgrounddown x \<in> ?P then 0 else entry (pmem ?s) d x)) \<and>
      (\<forall>x. pgrounddown x \<notin> tables (pmem ?s) d \<union> frame (pmem ?s) d ` ?P \<longrightarrow> pmem s' x = pmem ?s x)"
      by (intro less.hyps oks less.prems(5) inj(1))
    then obtain s' where l: "dealloc_loop alloc free d (a + PGSIZE) n ?s = Some s'"
      and r: "ok s' (insert ?v F \<union> frame (pmem s) d ` ?P)"
        "pt_ok usable (insert ?v F \<union> frame (pmem s) d ` ?P) (pmem s') d" "tables (pmem s') d = tables (pmem s) d"
        "\<forall>i. slot i \<longrightarrow> pde (pmem s') d i = pde (pmem ?s) d i"
        "\<forall>x. entry (pmem s') d x = (if pgrounddown x \<in> ?P then 0 else entry (pmem ?s) d x)"
        "\<forall>x. pgrounddown x \<notin> tables (pmem s) d \<union> frame (pmem s) d ` ?P \<longrightarrow> pmem s' x = pmem ?s x"
      unfolding im tbs by (elim exE conjE) (rule that)
    have fs: "insert ?v F \<union> frame (pmem s) d ` ?P = F \<union> frame (pmem s) d ` user_pages a n"
      unfolding st(1) by auto
    have "dealloc_loop alloc free d a n s = Some s'"
      using True nz rd v(1,2) usable_page s0(1) l pr
      by (simp add: dealloc_loop.simps [of alloc free d a] walk_lookup frame_def Let_def)
    moreover have "\<forall>x. entry (pmem s') d x = (if pgrounddown x \<in> user_pages a n then 0 else entry (pmem s) d x)"
      unfolding st(1) using r(5) ents by auto
    moreover have "pmem s' x = pmem s x"
      if x: "pgrounddown x \<notin> tables (pmem s) d \<union> frame (pmem s) d ` user_pages a n" for x
    proof -
      have "x \<noteq> ?a" "pgrounddown x \<noteq> ?v" using x pgt st(1) by auto
      moreover have "pmem s' x = pmem ?s x" using r(6) x st(1) by auto
      ultimately show ?thesis using fr0 by simp
    qed
    moreover have "\<forall>i. slot i \<longrightarrow> pde (pmem s') d i = pde (pmem s) d i"
      using r(4) w(3) same(3) by simp
    ultimately show ?thesis using r(1-3) unfolding fs by blast
  qed
qed

end

section \<open>Properties\<close>

text \<open>An address space: a page table that has its first table.\<close>

definition space_ok :: "u32 \<Rightarrow> u32 set \<Rightarrow> memory \<Rightarrow> u32 \<Rightarrow> bool" where
  "space_ok kend F m d \<longleftrightarrow> pt_ok (page_usable kend) F m d \<and> present (pde m d 0)"

lemma space_okD:
  assumes "space_ok kend F m d"
  shows "pt_ok (page_usable kend) F m d" "present (pde m d 0)" "aligned d" "\<forall>p \<in> tables m d. p \<noteq> 0"
  using assms pt_ok_page(1) [of "page_usable kend" F m d] tables_dir [of d m]
  by (auto simp: space_ok_def page_usable_def)

lemma aligned_pgroundup [simp]: "aligned (pgroundup x)"
  using aligned_pgrounddown [of "x + PGSIZE - 1"] by (simp add: pgroundup_def pgrounddown_def)

text \<open>A machine with 14 MB above a kernel that ends at 2 MB.\<close>

lemma example_state: "\<exists>s F. kinit 0x200000 (\<lambda>_. 0) = Some s \<and> kmem_ok 0x200000 s F \<and> 200 \<le> card F"
proof -
  have "(0 :: u32) < 0x200000" "(0x200000 :: u32) \<le> PHYSTOP" by (simp_all add: PHYSTOP_def)
  from kinit_pages [OF this, of "2 * 4096" "\<lambda>_. 0"] obtain s fl where
    s: "kinit 0x200000 (\<lambda>_. 0) = Some s" "free_ok 0x200000 s fl"
    and fl: "set fl = page_set (2 * 4096) (unat (pgroundup 0x200000))"
    unfolding kinit_def by auto
  have p: "unat (pgroundup 0x200000) = 2097152" by (simp add: pgroundup_def PGSIZE_def)
  let ?f = "\<lambda>k :: nat. word_of_nat (2097152 + k * 8192) :: u32"
  have u: "unat (?f k) = 2097152 + k * 8192" if "k < 200" for k
    by (rule unat_page) (use that in \<open>simp add: PHYSTOP_def\<close>)
  have "inj_on ?f {..<200}"
    by (rule inj_onI) (metis u lessThan_iff add_left_cancel mult_cancel2 zero_neq_numeral)
  then have "card (?f ` {..<200}) = 200" by (simp add: card_image)
  moreover have "?f ` {..<200} \<subseteq> set fl" unfolding fl p by (force simp: page_set_def PHYSTOP_def)
  ultimately have "200 \<le> card (set fl)" by (metis card_mono finite_set)
  with s show ?thesis by (auto simp: kmem_ok_def)
qed

lemma user_pages_card: "n \<le> USERTOP \<Longrightarrow> card (user_pages a n) \<le> 160"
proof -
  assume n: "n \<le> USERTOP"
  let ?f = "\<lambda>x :: u32. unat x div 4096"
  have "inj_on ?f (user_pages a n)"
    by (rule inj_onI) (simp add: user_pages_def word_unat_eq_iff, metis aligned_number nonzero_mult_div_cancel_left zero_neq_numeral)
  moreover have "?f ` user_pages a n \<subseteq> {..<160}"
    using n by (auto simp: user_pages_def USERTOP_def word_less_nat_alt word_le_nat_alt)
  ultimately have "card (user_pages a n) \<le> card {..<160 :: nat}" by (metis card_inj_on_le finite_lessThan)
  then show ?thesis by simp
qed

lemma first_page: "user_pages 0 4096 = {0}"
proof (rule set_eqI)
  fix x
  have "x = 0" if "aligned x" "x < 4096"
  proof -
    from aligned_number [OF that(1)] obtain k where "unat x = 4096 * k" ..
    with that(2) have "unat x = 0" by (simp add: word_less_nat_alt)
    then show ?thesis by (simp add: unat_eq_0)
  qed
  moreover have "aligned 0" by (simp add: aligned_def)
  ultimately show "x \<in> user_pages 0 4096 \<longleftrightarrow> x \<in> {0}" unfolding user_pages_def by fastforce
qed

lemma kernel_space:
  assumes "kmem_ok kend s F" "d \<in> F" "pt_ok (page_usable kend) F' m d" "\<forall>x. entry m d x = kernel_entry data x"
  shows "space_ok kend F' m d \<and> d \<noteq> 0"
proof -
  have "present (entry m d USERTOP)" using assms(4) by (simp add: kernel_entry_def USERTOP_def)
  then have "present (pde m d (pdx USERTOP))" by (rule entry_present)
  moreover have "pdx USERTOP = 0" by (simp add: word_unat_eq_iff unat_pdx USERTOP_def)
  moreover have "d \<noteq> 0" using kmem_ok_usable [OF assms(1,2)] by (simp add: page_usable_def)
  ultimately show ?thesis using assms(3) by (simp add: space_ok_def)
qed

lemma kernel_entry_user: "x < USERTOP \<Longrightarrow> 0x100000 < data \<Longrightarrow> kernel_entry data x = 0"
  by (auto simp: kernel_entry_def USERTOP_def PHYSTOP_def word_le_nat_alt word_less_nat_alt)

lemma example_space:
  "\<exists>s d F. kmem_ok 0x200000 s F \<and> space_ok 0x200000 F (pmem s) d \<and> 180 \<le> card F \<and>
    (\<forall>x. x < USERTOP \<longrightarrow> entry (pmem s) d x = 0)"
proof -
  obtain s F where s: "kmem_ok 0x200000 s F" "200 \<le> card F" using example_state by blast
  have d: "aligned 0x180000" "(0x100000 :: u32) < 0x180000" "0x180000 < PHYSTOP" "15 \<le> card F"
    using s(2) by (simp_all add: aligned_def PGSIZE_def PHYSTOP_def)
  from kalloc_a.setupkvm_ok [OF s(1) d(4,1-3)] obtain d s' F' where
    r: "d \<in> F" "kmem_ok 0x200000 s' F'" "pt_ok (page_usable 0x200000) F' (pmem s') d" "card F \<le> card F' + 15"
    and e: "\<forall>x. entry (pmem s') d x = kernel_entry 0x180000 x"
    by (elim exE conjE) (rule that)
  have "180 \<le> card F'" using r(4) s(2) by linarith
  moreover have "\<forall>x. x < USERTOP \<longrightarrow> entry (pmem s') d x = 0" using e kernel_entry_user [OF _ d(2)] by simp
  ultimately show ?thesis using kernel_space [OF s(1) r(1,3) e] r(2) by blast
qed

lemma new_pages_free:
  assumes "\<forall>x. x < USERTOP \<longrightarrow> entry m d x = 0" "180 \<le> card F" "n \<le> USERTOP"
  shows "\<forall>x \<in> user_pages a n. \<not> present (entry m d x)" "card (user_pages a n) \<le> card F"
  using assms user_pages_card [OF assms(3), of a] by (auto simp: user_pages_def)

text \<open>C24.  \<open>setupkvm\<close> with 15 free pages: the new directory maps every page of the kernel's regions to
  the frame of the same address, without the user bit, the kernel's text read-only, and nothing
  else; in particular the user part is empty.  The directory and its tables are fresh pages and no
  memory but free pages has been written.\<close>

theorem setupkvm_maps_kernel:
  assumes "kmem_ok kend s F" "15 \<le> card F" "aligned data" "0x100000 < data" "data < PHYSTOP"
  shows "\<exists>d s' F'. setupkvm kalloc data s = Some (d, s') \<and> d \<noteq> 0 \<and> kmem_ok kend s' F' \<and>
    space_ok kend F' (pmem s') d \<and> F' \<subseteq> F \<and> tables (pmem s') d = F - F' \<and> card F \<le> card F' + 15 \<and>
    (\<forall>x. entry (pmem s') d x =
       (if USERTOP \<le> x \<and> x < 0x100000 then pgrounddown x OR PTE_W OR PTE_P
        else if 0x100000 \<le> x \<and> x < data then pgrounddown x OR PTE_P
        else if data \<le> x \<and> x < PHYSTOP then pgrounddown x OR PTE_W OR PTE_P
        else if 0xFE000000 \<le> x then pgrounddown x OR PTE_W OR PTE_P else 0)) \<and>
    (\<forall>a. pgrounddown a \<notin> F \<longrightarrow> pmem s' a = pmem s a)"
proof -
  from kalloc_a.setupkvm_ok [OF assms] obtain d s' F' where
    r: "setupkvm kalloc data s = Some (d, s')" "d \<in> F" "F' \<subseteq> F" "kmem_ok kend s' F'"
    "pt_ok (page_usable kend) F' (pmem s') d" "tables (pmem s') d = F - F'" "card F \<le> card F' + 15"
    and e: "\<forall>x. entry (pmem s') d x = kernel_entry data x"
    and fr: "\<forall>a. pgrounddown a \<notin> F \<longrightarrow> pmem s' a = pmem s a"
    by (elim exE conjE) (rule that)
  note sp = kernel_space [OF assms(1) r(2,5) e]
  with r(1,3,4,6,7) e fr show ?thesis unfolding kernel_entry_def by blast
qed

theorem setupkvm_maps_kernel_witness:
  "\<exists>s d s' F. kinit 0x200000 (\<lambda>_. 0) = Some s \<and> setupkvm kalloc 0x180000 s = Some (d, s') \<and>
    space_ok 0x200000 F (pmem s') d \<and> entry (pmem s') d 0x180123 = 0x180003"
proof -
  obtain s F where s: "kinit 0x200000 (\<lambda>_. 0) = Some s" "kmem_ok 0x200000 s F" "200 \<le> card F"
    using example_state by blast
  have "aligned 0x180000" "(0x100000 :: u32) < 0x180000" "0x180000 < PHYSTOP" "15 \<le> card F"
    using s(3) by (simp_all add: aligned_def PGSIZE_def PHYSTOP_def)
  from setupkvm_maps_kernel [OF s(2) this(4,1-3)] obtain d s' F' where
    d: "setupkvm kalloc 0x180000 s = Some (d, s')" "space_ok 0x200000 F' (pmem s') d"
    and e: "\<forall>x. entry (pmem s') d x =
       (if USERTOP \<le> x \<and> x < 0x100000 then pgrounddown x OR PTE_W OR PTE_P
        else if 0x100000 \<le> x \<and> x < 0x180000 then pgrounddown x OR PTE_P
        else if 0x180000 \<le> x \<and> x < PHYSTOP then pgrounddown x OR PTE_W OR PTE_P
        else if 0xFE000000 \<le> x then pgrounddown x OR PTE_W OR PTE_P else 0)"
    by (elim exE conjE) (rule that)
  have "entry (pmem s') d 0x180123 = 0x180003"
    using e by (simp add: pgrounddown_def PGSIZE_def PTE_W_def PTE_P_def PHYSTOP_def USERTOP_def)
  with s(1) d show ?thesis by blast
qed

text \<open>C22.  \<open>allocuvm\<close> from \<open>oldsz\<close> to \<open>newsz\<close>, with a free page for each new page: it returns
  \<open>newsz\<close>, every page from the rounded old size on has a frame of its own that was free, user
  accessible, writable and all zero; all other entries and all memory outside the free pages and the
  tables are as before.\<close>

theorem allocuvm_grows:
  assumes "kmem_ok kend s F" "space_ok kend F (pmem s) d" "oldsz \<le> newsz" "newsz \<le> USERTOP"
    "\<forall>x \<in> user_pages (pgroundup oldsz) newsz. \<not> present (entry (pmem s) d x)"
    "card (user_pages (pgroundup oldsz) newsz) \<le> card F"
  shows "\<exists>s' F' f. allocuvm kalloc (kfree kend) d oldsz newsz s = Some (newsz, s') \<and>
    kmem_ok kend s' F' \<and> F' \<subseteq> F \<and>
    inj_on f (user_pages (pgroundup oldsz) newsz) \<and> f ` user_pages (pgroundup oldsz) newsz = F - F' \<and>
    (\<forall>x. entry (pmem s') d x = (if pgrounddown x \<in> user_pages (pgroundup oldsz) newsz
       then f (pgrounddown x) OR (PTE_W OR PTE_U) OR PTE_P else entry (pmem s) d x)) \<and>
    (\<forall>y \<in> user_pages (pgroundup oldsz) newsz. \<forall>x. pgrounddown x = f y \<longrightarrow> pmem s' x = 0) \<and>
    (\<forall>x. pgrounddown x \<notin> F \<and> pgrounddown x \<notin> tables (pmem s) d \<longrightarrow> pmem s' x = pmem s x)"
proof -
  note sp = space_okD [OF assms(2)]
  from kalloc_a.alloc_loop_ok [OF assms(1) sp(1,2) aligned_pgroundup assms(4-6)] obtain s' F' f where
    l: "alloc_loop kalloc (kfree kend) d (pgroundup oldsz) oldsz newsz s = Some (newsz, s')"
    and g: "grown (kmem_ok kend) (page_usable kend) d (user_pages (pgroundup oldsz) newsz) f
      (\<lambda>_. PTE_W OR PTE_U) (\<lambda>_ _. 0) s F s' F'" by blast
  have "allocuvm kalloc (kfree kend) d oldsz newsz s = Some (newsz, s')"
    using l assms(3,4) by (auto simp: allocuvm_def)
  with g show ?thesis unfolding grown_def by blast
qed

theorem allocuvm_grows_witness:
  "\<exists>s s' d F. kmem_ok 0x200000 s F \<and> space_ok 0x200000 F (pmem s) d \<and>
    allocuvm kalloc (kfree 0x200000) d 0 0x2001 s = Some (0x2001, s')"
proof -
  obtain s d F where s: "kmem_ok 0x200000 s F" "space_ok 0x200000 F (pmem s) d" "180 \<le> card F"
    "\<forall>x. x < USERTOP \<longrightarrow> entry (pmem s) d x = 0" using example_space by blast
  note n = new_pages_free [OF s(4,3), of "8193" "pgroundup 0"]
  have "(0 :: u32) \<le> 8193" "8193 \<le> USERTOP" by (simp_all add: USERTOP_def)
  from allocuvm_grows [OF s(1,2) this n [OF this(2)]] s(1,2) show ?thesis by blast
qed

text \<open>C23.  Giving the new pages back (\<open>deallocuvm\<close> from the new size to the old one) undoes
  \<open>allocuvm\<close>: the free pages are the same set as before and no new page is mapped any more.\<close>

theorem deallocuvm_undoes_allocuvm:
  assumes "kmem_ok kend s F" "space_ok kend F (pmem s) d" "oldsz < newsz" "newsz \<le> USERTOP"
    "\<forall>x \<in> user_pages (pgroundup oldsz) newsz. \<not> present (entry (pmem s) d x)"
    "card (user_pages (pgroundup oldsz) newsz) \<le> card F"
  shows "\<exists>s1 s'. allocuvm kalloc (kfree kend) d oldsz newsz s = Some (newsz, s1) \<and>
    deallocuvm kalloc (kfree kend) d newsz oldsz s1 = Some (oldsz, s') \<and>
    kmem_ok kend s' F \<and> space_ok kend F (pmem s') d \<and>
    (\<forall>x. entry (pmem s') d x = (if pgrounddown x \<in> user_pages (pgroundup oldsz) newsz then 0 else entry (pmem s) d x)) \<and>
    (\<forall>x. pgrounddown x \<notin> F \<and> pgrounddown x \<notin> tables (pmem s) d \<longrightarrow> pmem s' x = pmem s x)"
proof -
  note sp = space_okD [OF assms(2)]
  let ?P = "user_pages (pgroundup oldsz) newsz"
  from kalloc_a.alloc_loop_ok [OF assms(1) sp(1,2) aligned_pgroundup assms(4-6)] obtain s1 F1 f where
    l: "alloc_loop kalloc (kfree kend) d (pgroundup oldsz) oldsz newsz s = Some (newsz, s1)"
    and g: "grown (kmem_ok kend) (page_usable kend) d ?P f (\<lambda>_. PTE_W OR PTE_U) (\<lambda>_ _. 0) s F s1 F1" by blast
  note G = g [unfolded grown_def]
  have al: "allocuvm kalloc (kfree kend) d oldsz newsz s = Some (newsz, s1)"
    using l assms(3,4) by (auto simp: allocuvm_def)
  have fF: "f y \<in> F - F1" if "y \<in> ?P" for y using G that by blast
  have fa: "aligned (f y)" "page_usable kend (f y)" if "y \<in> ?P" for y
    using kmem_ok_usable [OF assms(1)] fF [OF that] by (auto simp: page_usable_def)
  have ey: "entry (pmem s1) d y = f y OR (PTE_W OR PTE_U) OR PTE_P" if "y \<in> ?P" for y
    using G that by (auto simp: user_pages_def)
  have fr: "frame (pmem s1) d y = f y" if "y \<in> ?P" for y
    unfolding frame_def ey [OF that]
    by (rule pgrounddown_bits [OF fa(1) [OF that]]) (simp add: PTE_W_def PTE_U_def PTE_P_def PGSIZE_def)
  have "f ` ?P = F - F1" using G by blast
  then have im: "frame (pmem s1) d ` ?P = F - F1" using image_cong [OF refl fr, of ?P] by (rule trans [rotated])
  have "inj_on (frame (pmem s1) d) ?P \<longleftrightarrow> inj_on f ?P" by (rule inj_on_cong [OF fr])
  then have inj: "inj_on (frame (pmem s1) d) ?P" using G by blast
  have tb: "tables (pmem s1) d = tables (pmem s) d" using G by blast
  have tF: "q \<notin> F" if "q \<in> tables (pmem s) d" for q using pt_ok_page(1) [OF sp(1) that] by simp
  have p1: "present (pde (pmem s1) d 0)" using G sp(2) by (simp add: slot_def)
  have pgs: "\<forall>y \<in> ?P. present (entry (pmem s1) d y) \<and> page_usable kend (frame (pmem s1) d y) \<and>
       frame (pmem s1) d y \<notin> F1 \<union> tables (pmem s1) d"
  proof
    fix y assume y: "y \<in> ?P"
    have "f y \<notin> tables (pmem s) d" using tF fF [OF y] by blast
    then show "present (entry (pmem s1) d y) \<and> page_usable kend (frame (pmem s1) d y) \<and>
       frame (pmem s1) d y \<notin> F1 \<union> tables (pmem s1) d"
      using fF [OF y] fa(2) [OF y] unfolding tb fr [OF y] ey [OF y] by simp
  qed
  have ok1: "kmem_ok kend s1 F1" "pt_ok (page_usable kend) F1 (pmem s1) d" using G by blast+
  have "\<exists>s'. dealloc_loop kalloc (kfree kend) d (pgroundup oldsz) newsz s1 = Some s' \<and>
    kmem_ok kend s' (F1 \<union> frame (pmem s1) d ` ?P) \<and>
    pt_ok (page_usable kend) (F1 \<union> frame (pmem s1) d ` ?P) (pmem s') d \<and> tables (pmem s') d = tables (pmem s1) d \<and>
    (\<forall>i. slot i \<longrightarrow> pde (pmem s') d i = pde (pmem s1) d i) \<and>
    (\<forall>x. entry (pmem s') d x = (if pgrounddown x \<in> ?P then 0 else entry (pmem s1) d x)) \<and>
    (\<forall>x. pgrounddown x \<notin> tables (pmem s1) d \<union> frame (pmem s1) d ` ?P \<longrightarrow> pmem s' x = pmem s1 x)"
    by (rule kalloc_a.dealloc_loop_ok [OF ok1 p1 aligned_pgroundup assms(4) pgs inj])
  then obtain s' where
    dl: "dealloc_loop kalloc (kfree kend) d (pgroundup oldsz) newsz s1 = Some s'"
    and r: "kmem_ok kend s' (F1 \<union> frame (pmem s1) d ` ?P)"
      "pt_ok (page_usable kend) (F1 \<union> frame (pmem s1) d ` ?P) (pmem s') d"
      "\<forall>i. slot i \<longrightarrow> pde (pmem s') d i = pde (pmem s1) d i"
      "\<forall>x. entry (pmem s') d x = (if pgrounddown x \<in> ?P then 0 else entry (pmem s1) d x)"
      "\<forall>x. pgrounddown x \<notin> tables (pmem s1) d \<union> frame (pmem s1) d ` ?P \<longrightarrow> pmem s' x = pmem s1 x"
    by (elim exE conjE) (rule that)
  have F: "F1 \<union> frame (pmem s1) d ` ?P = F" using G im by auto
  have de: "deallocuvm kalloc (kfree kend) d newsz oldsz s1 = Some (oldsz, s')"
    using dl assms(3) by (simp add: deallocuvm_def not_le [symmetric])
  have "entry (pmem s') d x = (if pgrounddown x \<in> ?P then 0 else entry (pmem s) d x)" for x
    using r(4) G by simp
  moreover have "pmem s' x = pmem s x" if "pgrounddown x \<notin> F" "pgrounddown x \<notin> tables (pmem s) d" for x
    using r(5) G that unfolding im tb by auto
  moreover have "space_ok kend F (pmem s') d"
    using r(2,3) p1 unfolding F space_ok_def by (simp add: slot_def)
  ultimately show ?thesis using al de r(1) unfolding F by blast
qed

theorem deallocuvm_undoes_allocuvm_witness:
  "\<exists>s s' s1 d F. kmem_ok 0x200000 s F \<and> allocuvm kalloc (kfree 0x200000) d 0 0x2001 s = Some (0x2001, s1) \<and>
    deallocuvm kalloc (kfree 0x200000) d 0x2001 0 s1 = Some (0, s') \<and> kmem_ok 0x200000 s' F"
proof -
  obtain s d F where s: "kmem_ok 0x200000 s F" "space_ok 0x200000 F (pmem s) d" "180 \<le> card F"
    "\<forall>x. x < USERTOP \<longrightarrow> entry (pmem s) d x = 0" using example_space by blast
  note n = new_pages_free [OF s(4,3), of "8193" "pgroundup 0"]
  have "(0 :: u32) < 8193" "8193 \<le> USERTOP" by (simp_all add: USERTOP_def)
  from deallocuvm_undoes_allocuvm [OF s(1,2) this n [OF this(2)]] s(1) show ?thesis by blast
qed

text \<open>C21.  \<open>copyuvm\<close> of a process whose pages are all mapped, with enough free pages: the child's
  directory maps every page of the process to a frame of its own that was free, with the contents of
  the parent's page, user accessible and writable exactly if the parent's page is; above the
  process it has the kernel's mappings only.  No memory but free pages has been written, so the
  parent and everybody else keep what they had.\<close>

theorem copyuvm_isolated:
  assumes "kmem_ok kend s F" "space_ok kend F (pmem s) d0" "sz \<le> USERTOP"
    "\<forall>y \<in> user_pages 0 sz. present (entry (pmem s) d0 y) \<and> frame (pmem s) d0 y \<notin> F"
    "15 + card (user_pages 0 sz) \<le> card F" "aligned data" "0x100000 < data" "data < PHYSTOP"
  shows "\<exists>d s' F' f. copyuvm kalloc (kfree kend) data d0 sz s = Some (d, s') \<and> d \<noteq> 0 \<and>
    kmem_ok kend s' F' \<and> space_ok kend F' (pmem s') d \<and> inj_on f (user_pages 0 sz) \<and>
    f ` user_pages 0 sz \<subseteq> F - F' \<and> tables (pmem s') d \<subseteq> F - F' \<and>
    (\<forall>x. entry (pmem s') d x = (if pgrounddown x \<in> user_pages 0 sz
       then f (pgrounddown x) OR ((entry (pmem s) d0 (pgrounddown x) AND PTE_W) OR PTE_U) OR PTE_P
       else kernel_entry data x)) \<and>
    (\<forall>y \<in> user_pages 0 sz. \<forall>x. pgrounddown x = f y \<longrightarrow>
       pmem s' x = pmem s (frame (pmem s) d0 y + (x - f y))) \<and>
    (\<forall>x. pgrounddown x \<notin> F \<longrightarrow> pmem s' x = pmem s x)"
proof -
  note sp = space_okD [OF assms(2)]
  let ?P = "user_pages 0 sz"
  let ?Q = "tables (pmem s) d0 \<union> frame (pmem s) d0 ` ?P"
  have c15: "15 \<le> card F" using assms(5) by linarith
  from kalloc_a.setupkvm_ok [OF assms(1) c15 assms(6-8)] obtain d s1 F1 where
    r: "setupkvm kalloc data s = Some (d, s1)" "d \<in> F" "F1 \<subseteq> F" "kmem_ok kend s1 F1"
    "pt_ok (page_usable kend) F1 (pmem s1) d" "tables (pmem s1) d = F - F1" "card F \<le> card F1 + 15"
    and e: "\<forall>x. entry (pmem s1) d x = kernel_entry data x"
    and fr: "\<forall>a. pgrounddown a \<notin> F \<longrightarrow> pmem s1 a = pmem s a"
    by (elim exE conjE) (rule that)
  have ks: "space_ok kend F1 (pmem s1) d" "d \<noteq> 0" using kernel_space [OF assms(1) r(2,5) e] by blast+
  have QF: "q \<notin> F" if "q \<in> ?Q" for q using that pt_ok_page(1) [OF sp(1)] assms(4) by blast
  have q1: "\<forall>x. pgrounddown x \<in> tables (pmem s) d0 \<longrightarrow> pmem s1 x = pmem s x" using fr QF by blast
  note same = unchanged_tables [OF sp(3) q1]
  have fs: "frame (pmem s1) d0 y = frame (pmem s) d0 y" for y by (simp add: frame_def same)
  have none: "\<forall>x \<in> ?P. \<not> present (entry (pmem s1) d x)"
    using e kernel_entry_user [OF _ assms(7)] assms(3) by (auto simp: user_pages_def)
  have cP: "card ?P \<le> card F1" using r(7) assms(5) by linarith
  have par: "\<forall>y \<in> ?P. present (entry (pmem s1) d0 y) \<and> frame (pmem s1) d0 y \<in> ?Q \<and>
      (entry (pmem s1) d0 y AND PTE_W) OR PTE_U = (entry (pmem s) d0 y AND PTE_W) OR PTE_U \<and>
      (\<forall>x. pgrounddown x = frame (pmem s1) d0 y \<longrightarrow>
        pmem s1 x = pmem s (frame (pmem s) d0 y + (x - frame (pmem s1) d0 y)))"
    unfolding same fs using assms(4) fr by simp
  have Q2: "?Q \<inter> (F1 \<union> tables (pmem s1) d) = {}" using QF r(3,6) by auto
  have Q1: "tables (pmem s1) d0 \<subseteq> ?Q" "\<forall>y \<in> tables (pmem s1) d0. y \<noteq> 0" unfolding same using sp(4) by auto
  have a0: "aligned 0" by (simp add: aligned_def)
  from kalloc_a.copy_loop_ok [OF r(4,5) _ a0 assms(3) none cP sp(3) Q1(1) Q2 Q1(2) par] ks(1)
  obtain s' F' f where l: "copy_loop kalloc (kfree kend) d0 d 0 sz s1 = Some (d, s')"
    and g: "grown (kmem_ok kend) (page_usable kend) d ?P f (\<lambda>y. (entry (pmem s) d0 y AND PTE_W) OR PTE_U)
      (\<lambda>y o'. pmem s (frame (pmem s) d0 y + o')) s1 F1 s' F'" unfolding space_ok_def by blast
  note G = g [unfolded grown_def]
  have cu: "copyuvm kalloc (kfree kend) data d0 sz s = Some (d, s')" using r(1) ks(2) l by (simp add: copyuvm_def)
  have p0: "space_ok kend F' (pmem s') d" using G ks(1) by (simp add: space_ok_def slot_def)
  have fF: "f ` ?P \<subseteq> F - F'" "tables (pmem s') d \<subseteq> F - F'" using G r(3,6) by auto
  have "entry (pmem s') d x = (if pgrounddown x \<in> ?P
       then f (pgrounddown x) OR ((entry (pmem s) d0 (pgrounddown x) AND PTE_W) OR PTE_U) OR PTE_P
       else kernel_entry data x)" for x using G e by simp
  moreover have "pmem s' x = pmem s x" if "pgrounddown x \<notin> F" for x
  proof -
    have "pmem s' x = pmem s1 x" using G that r(3,6) by auto
    with fr that show ?thesis by simp
  qed
  moreover have "\<forall>y \<in> ?P. \<forall>x. pgrounddown x = f y \<longrightarrow>
       pmem s' x = pmem s (frame (pmem s) d0 y + (x - f y))" using G by blast
  ultimately show ?thesis using cu ks(2) p0 fF G by blast
qed

theorem copyuvm_isolated_witness:
  "\<exists>s d0 F d s'. kmem_ok 0x200000 s F \<and> space_ok 0x200000 F (pmem s) d0 \<and> present (entry (pmem s) d0 0) \<and>
    copyuvm kalloc (kfree 0x200000) 0x180000 d0 0x1000 s = Some (d, s') \<and> present (entry (pmem s') d 0)"
proof -
  obtain s0 d0 F0 where s0: "kmem_ok 0x200000 s0 F0" "space_ok 0x200000 F0 (pmem s0) d0" "180 \<le> card F0"
    "\<forall>x. x < USERTOP \<longrightarrow> entry (pmem s0) d0 x = 0" using example_space by blast
  have sz: "(4096 :: u32) \<le> USERTOP" and al: "aligned 0" by (simp_all add: USERTOP_def aligned_def)
  note P = first_page
  note n = new_pages_free [OF s0(4,3) sz, of 0]
  note sp = space_okD [OF s0(2)]
  from kalloc_a.alloc_loop_ok [OF s0(1) sp(1,2) al sz n] obtain s F f where
    g: "grown (kmem_ok 0x200000) (page_usable 0x200000) d0 {0} f (\<lambda>_. PTE_W OR PTE_U) (\<lambda>_ _. 0) s0 F0 s F"
    unfolding P by blast
  note G = g [unfolded grown_def]
  have s: "kmem_ok 0x200000 s F" "space_ok 0x200000 F (pmem s) d0"
    using G s0(2) by (simp_all add: space_ok_def slot_def)
  have f0: "f 0 \<in> F0 - F" using G by blast
  have e0: "entry (pmem s) d0 0 = f 0 OR (PTE_W OR PTE_U) OR PTE_P" using G al by simp
  have "aligned (f 0)" using kmem_ok_usable [OF s0(1), of "f 0"] f0 by (simp add: page_usable_def)
  then have "frame (pmem s) d0 0 = f 0"
    unfolding frame_def e0 by (rule pgrounddown_bits) (simp add: PTE_W_def PTE_U_def PTE_P_def PGSIZE_def)
  then have par: "\<forall>y \<in> user_pages 0 4096. present (entry (pmem s) d0 y) \<and> frame (pmem s) d0 y \<notin> F"
    using e0 f0 by (simp add: P)
  have "F = F0 - {f 0}" using G by auto
  then have "180 \<le> Suc (card F)" using s0(3) f0 card_Suc_Diff1 [OF finite, of "f 0" F0] by simp
  then have c: "15 + card (user_pages 0 4096) \<le> card F" by (simp add: P)
  have d: "aligned 0x180000" "(0x100000 :: u32) < 0x180000" "0x180000 < PHYSTOP"
    by (simp_all add: aligned_def PGSIZE_def PHYSTOP_def)
  from copyuvm_isolated [OF s sz par c d] obtain d s' f where
    "copyuvm kalloc (kfree 0x200000) 0x180000 d0 4096 s = Some (d, s')"
    and e: "\<forall>x. entry (pmem s') d x = (if pgrounddown x \<in> user_pages 0 4096
       then f (pgrounddown x) OR ((entry (pmem s) d0 (pgrounddown x) AND PTE_W) OR PTE_U) OR PTE_P
       else kernel_entry 0x180000 x)" by (elim exE conjE) (rule that)
  moreover have "present (entry (pmem s') d 0)" using e al by (simp add: P)
  ultimately show ?thesis using s par by (intro exI conjI) (auto simp: P)
qed

text \<open>C25.  \<open>mprotect\<close> and \<open>munprotect\<close> of \<open>len\<close> pages inside the user part: the write bit is cleared
  (set) in exactly the entries of these pages, mapped or not, and nothing but the tables is written;
  an address inside a page, a length below one and a range that ends above \<open>USERTOP\<close> are refused.\<close>

theorem mprotect_pages:
  assumes "space_ok kend F (pmem s) d" "aligned addr" "0 < sint len" "uint addr + sint len * 4096 \<le> 0xA0000"
  shows "\<exists>s1 s2. mprotect kalloc d addr len s = Some (0, s1) \<and> munprotect kalloc d addr len s = Some (0, s2) \<and>
    (\<forall>x. entry (pmem s1) d x = (if pgrounddown x \<in> user_pages addr (addr + len * PGSIZE)
       then entry (pmem s) d x AND NOT PTE_W else entry (pmem s) d x)) \<and>
    (\<forall>x. entry (pmem s2) d x = (if pgrounddown x \<in> user_pages addr (addr + len * PGSIZE)
       then entry (pmem s) d x OR PTE_W else entry (pmem s) d x)) \<and>
    (\<forall>x. pgrounddown x \<notin> tables (pmem s) d \<longrightarrow> pmem s1 x = pmem s x \<and> pmem s2 x = pmem s x)"
proof -
  note sp = space_okD [OF assms(1)]
  have sl: "sint len * 4096 \<le> 0xA0000" using assms(4) uint_ge_0 [of addr] by linarith
  have ul: "uint len = sint len" using assms(3) sl by (simp add: uint_sint take_bit_int_eq_self)
  have "uint (addr + len * PGSIZE) = uint addr + sint len * 4096"
  proof -
    have "sint len * 4096 mod 4294967296 = sint len * 4096" using assms(3) sl by (intro mod_pos_pos_trivial) auto
    moreover have "(uint addr + sint len * 4096) mod 4294967296 = uint addr + sint len * 4096"
      using assms(3,4) uint_ge_0 [of addr] by (intro mod_pos_pos_trivial) linarith+
    ultimately show ?thesis by (simp add: PGSIZE_def uint_word_ariths ul)
  qed
  then have e: "addr + len * PGSIZE \<le> USERTOP" using assms(4) by (simp add: word_le_def USERTOP_def)
  have pr: "protect kalloc f d addr len s = protect_loop kalloc f d addr (addr + len * PGSIZE) s" for f
    using assms(2,3) sl e by (simp add: protect_def aligned_def not_less [symmetric])
  from protect_loop_ok [OF sp(1,3,4,2) assms(2) e, of kalloc "\<lambda>e. e AND NOT PTE_W"]
    protect_loop_ok [OF sp(1,3,4,2) assms(2) e, of kalloc "\<lambda>e. e OR PTE_W"]
  show ?thesis unfolding mprotect_def munprotect_def pr by blast
qed

theorem mprotect_pages_witness:
  "\<exists>s d s1 s2. mprotect kalloc d 0x1000 2 s = Some (0, s1) \<and> munprotect kalloc d 0x1000 2 s = Some (0, s2) \<and>
    entry (pmem s2) d 0x2FFF = 2"
proof -
  obtain s :: kmem and d F where s: "space_ok 0x200000 F (pmem s) d" "\<forall>x. x < USERTOP \<longrightarrow> entry (pmem s) d x = 0"
    using example_space by blast
  have a: "aligned (0x1000 :: u32)" "0 < sint (2 :: u32)" "uint (0x1000 :: u32) + sint (2 :: u32) * 4096 \<le> 0xA0000"
    by (simp_all add: aligned_def PGSIZE_def)
  have "(0x2FFF :: u32) < USERTOP" by (simp add: USERTOP_def)
  then have "entry (pmem s) d 0x2FFF = 0" using s(2) by blast
  moreover have "pgrounddown 0x2FFF \<in> user_pages 0x1000 (0x1000 + 2 * PGSIZE)"
    by (simp add: user_pages_def aligned_def pgrounddown_def PGSIZE_def)
  moreover obtain s1 s2 where "mprotect kalloc d 0x1000 2 s = Some (0, s1)" "munprotect kalloc d 0x1000 2 s = Some (0, s2)"
    and "\<forall>x. entry (pmem s2) d x = (if pgrounddown x \<in> user_pages 0x1000 (0x1000 + 2 * PGSIZE)
       then entry (pmem s) d x OR PTE_W else entry (pmem s) d x)"
    using mprotect_pages [OF s(1) a] by (elim exE conjE) (rule that)
  moreover from this(3) calculation(1,2) have "entry (pmem s2) d 0x2FFF = 2" by (simp add: PTE_W_def)
  ultimately show ?thesis by blast
qed


end
