(* ===== verification/Pipe.thy ===== *)
theory Pipe imports Prelude
begin

text \<open>
  Pipes (\<open>kernel/pipe.c\<close>) and the file table (\<open>kernel/file.c\<close>).  A pipe keeps its bytes in a ring of
  512 bytes with two free-running 32-bit counters; the contents of such a ring and the laws of its
  operations are the locale \<open>ring_buffer\<close>, which the console's input buffer shares.
  One definition covers what \<open>pipewrite\<close> or \<open>piperead\<close> does under the lock, from its start or its
  wake-up to the next \<open>sleep\<close> or the return.
\<close>

section \<open>Rings with free-running counters\<close>

text \<open>The bytes between the counters \<open>r\<close> and \<open>w\<close>, oldest first.\<close>

definition ring_contents :: "nat \<Rightarrow> 'a list \<Rightarrow> u32 \<Rightarrow> u32 \<Rightarrow> 'a list" where
  "ring_contents N buf r w = map (\<lambda>i. buf ! (unat (r + word_of_nat i) mod N)) [0..<unat (w - r)]"

locale ring_buffer =
  fixes N :: nat
  assumes pos: "0 < N" and small: "N < 2 ^ 32" and divides: "N dvd 2 ^ 32"
begin

lemma slot_mod: "unat (r + word_of_nat i :: u32) mod N = (unat r + i) mod N"
proof -
  have "unat (r + word_of_nat i :: u32) = (unat r + i) mod 2 ^ 32"
    by (simp add: unat_word_ariths unsigned_of_nat take_bit_eq_mod mod_simps)
  then show ?thesis using divides by (simp add: mod_mod_cancel)
qed

lemma contents_map: "ring_contents N buf r w = map (\<lambda>i. buf ! ((unat r + i) mod N)) [0..<unat (w - r)]"
  by (simp add: ring_contents_def slot_mod)

lemma length_contents [simp]: "length (ring_contents N buf r w) = unat (w - r)"
  by (simp add: ring_contents_def)

lemma contents_empty: "ring_contents N buf r w = [] \<longleftrightarrow> r = w"
  by (auto simp: ring_contents_def unat_eq_0)

lemma unat_Suc_diff: "unat (w - r) < N \<Longrightarrow> unat (w + 1 - r) = Suc (unat (w - r))" for r w :: u32
proof -
  assume "unat (w - r) < N"
  then have lt: "Suc (unat (w - r)) < 2 ^ 32" using small by linarith
  have "w + 1 - r = 1 + (w - r)" by simp
  then have "unat (w + 1 - r) = unat (1 + (w - r))" by (rule arg_cong)
  also have "\<dots> = (1 + unat (w - r)) mod 2 ^ 32" by (simp only: unat_word_ariths) simp
  also have "\<dots> = Suc (unat (w - r))" using lt by simp
  finally show ?thesis .
qed

lemma unat_pred_diff: "w \<noteq> r \<Longrightarrow> unat (w - r) = Suc (unat (w - r - 1))" for r w :: u32
proof -
  assume "w \<noteq> r"
  then have ne: "w - r \<noteq> 0" by simp
  then have "0 < unat (w - r)" by (simp only: unat_eq_0 neq0_conv [symmetric]) simp
  with unat_minus_one [OF ne] show ?thesis by simp
qed

lemma slot_neq: "i < j \<Longrightarrow> j < N \<Longrightarrow> (a + i) mod N \<noteq> (a + j) mod N"
proof
  assume ij: "i < j" "j < N" and e: "(a + i) mod N = (a + j) mod N"
  then have "N dvd (a + j) - (a + i)" using mod_eq_dvd_iff_nat [of "a + i" "a + j" N] by simp
  with ij show False by (auto dest: dvd_imp_le)
qed

text \<open>The ways to change a ring: a byte at the write end, at the read end, and back from the write end.\<close>

lemma contents_put:
  assumes "length buf = N" "unat (w - r) < N"
  shows "ring_contents N (buf[unat w mod N := b]) r (w + 1) = ring_contents N buf r w @ [b]"
proof -
  have w: "unat w mod N = (unat r + unat (w - r)) mod N"
    using slot_mod [of r "unat (w - r)"] by simp
  have "buf[unat w mod N := b] ! ((unat r + i) mod N) = buf ! ((unat r + i) mod N)"
    if "i < unat (w - r)" for i
    using slot_neq [OF that assms(2), of "unat r"] by (simp add: w)
  moreover have "buf[unat w mod N := b] ! ((unat r + unat (w - r)) mod N) = b"
    using pos assms(1) by (simp add: w)
  ultimately show ?thesis by (simp add: contents_map unat_Suc_diff [OF assms(2)])
qed

lemma contents_get:
  assumes "r \<noteq> w"
  shows "ring_contents N buf r w = buf ! (unat r mod N) # ring_contents N buf (r + 1) w"
proof -
  have d: "unat (w - r) = Suc (unat (w - (r + 1)))"
    using unat_pred_diff [of w r] assms by (simp add: diff_diff_eq)
  have "unat (r + 1) mod N = (unat r + 1) mod N" using slot_mod [of r 1] by simp
  then have "(unat (r + 1) + i) mod N = (unat r + Suc i) mod N" for i
    using mod_add_cong [of "unat (r + 1)" N "unat r + 1" i i] by simp
  then show ?thesis by (simp add: contents_map d map_upt_Suc del: upt_Suc)
qed

lemma contents_undo:
  assumes "r \<noteq> w"
  shows "ring_contents N buf r (w - 1) = butlast (ring_contents N buf r w)"
proof -
  have "unat (w - r) = Suc (unat (w - 1 - r))"
    using unat_pred_diff [of w r] assms by (simp add: diff_diff_eq add.commute)
  then show ?thesis by (simp add: contents_map map_butlast [symmetric])
qed

lemma contents_split:
  assumes "unat (m - r) \<le> unat (w - r)"
  shows "ring_contents N buf r w = ring_contents N buf r m @ ring_contents N buf m w"
proof -
  have "w - m = (w - r) - (m - r)" by simp
  then have "unat (w - m) = unat ((w - r) - (m - r))" by (rule arg_cong)
  also have "\<dots> = unat (w - r) - unat (m - r)"
    by (rule unat_sub) (use assms in \<open>simp only: word_le_nat_alt\<close>)
  finally have n: "unat (w - r) = unat (m - r) + unat (w - m)" using assms by linarith
  have "unat m mod N = (unat r + unat (m - r)) mod N" using slot_mod [of r "unat (m - r)"] by simp
  then have s: "(unat m + i) mod N = (unat r + (i + unat (m - r))) mod N" for i
    using mod_add_cong [of "unat m" N "unat r + unat (m - r)" i i] by (simp only: ac_simps refl)
  have u: "[unat (m - r)..<unat (m - r) + unat (w - m)] = map (\<lambda>i. i + unat (m - r)) [0..<unat (w - m)]"
    by (simp only: map_add_upt add.commute)
  show ?thesis
    unfolding contents_map n upt_add_eq_append [OF le0] map_append add_0 u map_map o_def s ..
qed

end


section \<open>Pipes\<close>

definition PIPESIZE :: nat where "PIPESIZE = 512"

record pipe =
  pdata :: "u8 list"
  nread :: u32
  nwrite :: u32
  readopen :: bool
  writeopen :: bool

datatype pipe_chan = ChanRead | ChanWrite

text \<open>How a stretch under the lock ends: with a return value, or asleep with the bytes still to be
  written (for the writer).\<close>

datatype write_end = Written | WriteFails | WriteSleeps "u8 list"
datatype read_end = ReadBytes "u8 list" | ReadFails | ReadSleeps

definition pipe_put :: "u8 \<Rightarrow> pipe \<Rightarrow> pipe" where
  "pipe_put b p = p\<lparr>pdata := (pdata p)[unat (nwrite p) mod PIPESIZE := b], nwrite := nwrite p + 1\<rparr>"

text \<open>The loop of \<open>pipewrite\<close> over the bytes that remain; \<open>killed\<close> is \<open>proc->killed\<close>.\<close>

fun write_loop :: "bool \<Rightarrow> pipe \<Rightarrow> u8 list \<Rightarrow> write_end \<times> pipe" where
  "write_loop killed p [] = (Written, p)"
| "write_loop killed p (b # bs) =
     (if nwrite p = nread p + word_of_nat PIPESIZE
      then (if \<not> readopen p \<or> killed then (WriteFails, p) else (WriteSleeps (b # bs), p))
      else write_loop killed (pipe_put b p) bs)"

text \<open>With the channels it wakes up; \<open>WriteSleeps\<close> continues with \<open>pipewrite\<close> on the rest.\<close>

definition pipewrite :: "bool \<Rightarrow> pipe \<Rightarrow> u8 list \<Rightarrow> write_end \<times> pipe_chan list \<times> pipe" where
  "pipewrite killed p bs =
     (case write_loop killed p bs of
        (WriteFails, p) \<Rightarrow> (WriteFails, [], p)
      | (e, p) \<Rightarrow> (e, [ChanRead], p))"

fun read_copy :: "pipe \<Rightarrow> nat \<Rightarrow> u8 list \<times> pipe" where
  "read_copy p 0 = ([], p)"
| "read_copy p (Suc n) =
     (if nread p = nwrite p then ([], p)
      else (let b = pdata p ! (unat (nread p) mod PIPESIZE);
                (bs, p) = read_copy (p\<lparr>nread := nread p + 1\<rparr>) n in (b # bs, p)))"

definition piperead :: "bool \<Rightarrow> pipe \<Rightarrow> nat \<Rightarrow> read_end \<times> pipe_chan list \<times> pipe" where
  "piperead killed p n =
     (if nread p = nwrite p \<and> writeopen p
      then (if killed then (ReadFails, [], p) else (ReadSleeps, [], p))
      else (case read_copy p n of (bs, p) \<Rightarrow> (ReadBytes bs, [ChanWrite], p)))"

definition new_pipe :: "u8 list \<Rightarrow> pipe" where
  "new_pipe garbage = \<lparr>pdata = garbage, nread = 0, nwrite = 0, readopen = True, writeopen = True\<rparr>"

text \<open>\<open>pipeclose\<close>: the pipe, \<open>None\<close> when its page is freed, and the channel that is woken up.\<close>

definition pipeclose :: "bool \<Rightarrow> pipe \<Rightarrow> pipe_chan \<times> pipe option" where
  "pipeclose writable p =
     (let (c, p) = (if writable then (ChanRead, p\<lparr>writeopen := False\<rparr>) else (ChanWrite, p\<lparr>readopen := False\<rparr>))
      in (c, if \<not> readopen p \<and> \<not> writeopen p then None else Some p))"

section \<open>The file table\<close>

datatype ftype = FD_NONE | FD_PIPE | FD_INODE

record file_entry =
  ftype :: ftype
  ref :: int
  readable :: bool
  writable :: bool
  fpipe :: u32
  ip :: u32
  off :: u32

text \<open>The open files, the pipes by the address of their page, and the state \<open>'i\<close> of the inode layer,
  which the operations below reach through the functions they take as arguments.\<close>

record 'i files =
  ftable :: "file_entry list"
  pipes :: "u32 \<Rightarrow> pipe option"
  inodes :: 'i

definition filealloc :: "'i files \<Rightarrow> nat option \<times> 'i files" where
  "filealloc s =
     (case first_index (\<lambda>f. ref f = 0) (ftable s) of
        None \<Rightarrow> (None, s)
      | Some i \<Rightarrow> (Some i, s\<lparr>ftable := upd_at i (\<lambda>f. f\<lparr>ref := 1\<rparr>) (ftable s)\<rparr>))"

text \<open>\<open>None\<close> is the panic.\<close>

definition filedup :: "nat \<Rightarrow> 'i files \<Rightarrow> 'i files option" where
  "filedup i s =
     (if ref (ftable s ! i) < 1 then None
      else Some (s\<lparr>ftable := upd_at i (\<lambda>f. f\<lparr>ref := ref f + 1\<rparr>) (ftable s)\<rparr>))"

definition fileclose :: "(u32 \<Rightarrow> 'i \<Rightarrow> 'i option) \<Rightarrow> nat \<Rightarrow> 'i files \<Rightarrow> 'i files option" where
  "fileclose iput i s =
     (let ff = ftable s ! i in
      if ref ff < 1 then None
      else if ref ff - 1 > 0 then Some (s\<lparr>ftable := upd_at i (\<lambda>f. f\<lparr>ref := ref f - 1\<rparr>) (ftable s)\<rparr>)
      else (let s = s\<lparr>ftable := upd_at i (\<lambda>f. f\<lparr>ref := 0, ftype := FD_NONE\<rparr>) (ftable s)\<rparr> in
        case ftype ff of
          FD_PIPE \<Rightarrow> do { p \<leftarrow> pipes s (fpipe ff);
            Some (s\<lparr>pipes := (pipes s)(fpipe ff := snd (pipeclose (writable ff) p))\<rparr>) }
        | FD_INODE \<Rightarrow> do { n \<leftarrow> iput (ip ff) (inodes s); Some (s\<lparr>inodes := n\<rparr>) }
        | FD_NONE \<Rightarrow> Some s))"

text \<open>\<open>pipealloc\<close>, with the page that \<open>kalloc\<close> returns (0 when there is none).\<close>

definition set_pipe_end :: "nat \<Rightarrow> bool \<Rightarrow> u32 \<Rightarrow> 'i files \<Rightarrow> 'i files" where
  "set_pipe_end i w page s =
     s\<lparr>ftable := upd_at i (\<lambda>f. f\<lparr>ftype := FD_PIPE, readable := \<not> w, writable := w, fpipe := page\<rparr>) (ftable s)\<rparr>"

definition pipealloc :: "(u32 \<Rightarrow> 'i \<Rightarrow> 'i option) \<Rightarrow> u32 \<Rightarrow> u8 list \<Rightarrow> 'i files \<Rightarrow> ((nat \<times> nat) option \<times> 'i files) option" where
  "pipealloc iput page garbage s =
     (case filealloc s of
        (None, s) \<Rightarrow> Some (None, s)
      | (Some f0, s) \<Rightarrow>
          (case filealloc s of
             (None, s) \<Rightarrow> do { s \<leftarrow> fileclose iput f0 s; Some (None, s) }
           | (Some f1, s) \<Rightarrow>
               if page = 0 then do { s \<leftarrow> fileclose iput f0 s; s \<leftarrow> fileclose iput f1 s; Some (None, s) }
               else Some (Some (f0, f1),
                 set_pipe_end f1 True page (set_pipe_end f0 False page
                   (s\<lparr>pipes := (pipes s)(page := Some (new_pipe garbage))\<rparr>)))))"

text \<open>\<open>filestat\<close>: what \<open>stati\<close> stores, \<open>None\<close> for a file that has no inode.\<close>

definition filestat :: "(u32 \<Rightarrow> 'i \<Rightarrow> 'a) \<Rightarrow> nat \<Rightarrow> 'i files \<Rightarrow> 'a option" where
  "filestat stati i s =
     (let f = ftable s ! i in if ftype f = FD_INODE then Some (stati (ip f) (inodes s)) else None)"

text \<open>What \<open>fileread\<close> and \<open>filewrite\<close> do up to the next sleep: a failure, the end of the pipe
  operation, or the result of the inode operation; \<open>None\<close> is the panic.\<close>

datatype file_read = ReadDenied | ReadPipe read_end | ReadInode int "u8 list"
datatype file_write = WriteDenied | WritePipe write_end | WriteInode int

definition fileread :: "(u32 \<Rightarrow> u32 \<Rightarrow> nat \<Rightarrow> 'i \<Rightarrow> int \<times> u8 list \<times> 'i) \<Rightarrow> bool \<Rightarrow> nat \<Rightarrow> nat \<Rightarrow> 'i files \<Rightarrow>
    (file_read \<times> 'i files) option" where
  "fileread readi killed i n s =
     (let f = ftable s ! i in
      if \<not> readable f then Some (ReadDenied, s)
      else case ftype f of
        FD_PIPE \<Rightarrow> do { p \<leftarrow> pipes s (fpipe f);
          let (e, _, p) = piperead killed p n in
          Some (ReadPipe e, s\<lparr>pipes := (pipes s)(fpipe f := Some p)\<rparr>) }
      | FD_INODE \<Rightarrow> (let (r, bs, ns) = readi (ip f) (off f) n (inodes s);
            s = s\<lparr>inodes := ns\<rparr> in
          Some (ReadInode r bs,
            if r > 0 then s\<lparr>ftable := upd_at i (\<lambda>f. f\<lparr>off := off f + word_of_int r\<rparr>) (ftable s)\<rparr> else s))
      | FD_NONE \<Rightarrow> None)"

definition filewrite :: "(u32 \<Rightarrow> u32 \<Rightarrow> u8 list \<Rightarrow> 'i \<Rightarrow> int \<times> 'i) \<Rightarrow> bool \<Rightarrow> nat \<Rightarrow> u8 list \<Rightarrow> 'i files \<Rightarrow>
    (file_write \<times> 'i files) option" where
  "filewrite writei killed i bs s =
     (let f = ftable s ! i in
      if \<not> writable f then Some (WriteDenied, s)
      else case ftype f of
        FD_PIPE \<Rightarrow> do { p \<leftarrow> pipes s (fpipe f);
          let (e, _, p) = pipewrite killed p bs in
          Some (WritePipe e, s\<lparr>pipes := (pipes s)(fpipe f := Some p)\<rparr>) }
      | FD_INODE \<Rightarrow> (let (r, ns) = writei (ip f) (off f) bs (inodes s);
            s = s\<lparr>inodes := ns\<rparr> in
          Some (WriteInode r,
            if r > 0 then s\<lparr>ftable := upd_at i (\<lambda>f. f\<lparr>off := off f + word_of_int r\<rparr>) (ftable s)\<rparr> else s))
      | FD_NONE \<Rightarrow> None)"

text \<open>The descriptors of a process (\<open>sysfile.c\<close>).\<close>

definition argfd :: "nat option list \<Rightarrow> int \<Rightarrow> nat option" where
  "argfd ofile fd = (if fd < 0 \<or> fd \<ge> int (length ofile) then None else ofile ! nat fd)"

definition fdalloc :: "nat \<Rightarrow> nat option list \<Rightarrow> (nat \<times> nat option list) option" where
  "fdalloc f ofile =
     (case first_index (\<lambda>x. x = None) ofile of
        None \<Rightarrow> None
      | Some fd \<Rightarrow> Some (fd, ofile[fd := Some f]))"

definition sys_dup :: "int \<Rightarrow> nat option list \<Rightarrow> 'i files \<Rightarrow> (int \<times> nat option list \<times> 'i files) option" where
  "sys_dup fd ofile s =
     (case argfd ofile fd of
        None \<Rightarrow> Some (-1, ofile, s)
      | Some f \<Rightarrow>
          (case fdalloc f ofile of
             None \<Rightarrow> Some (-1, ofile, s)
           | Some (fd', ofile') \<Rightarrow> do { s \<leftarrow> filedup f s; Some (int fd', ofile', s) }))"

definition sys_close :: "(u32 \<Rightarrow> 'i \<Rightarrow> 'i option) \<Rightarrow> int \<Rightarrow> nat option list \<Rightarrow> 'i files \<Rightarrow>
    (int \<times> nat option list \<times> 'i files) option" where
  "sys_close iput fd ofile s =
     (case argfd ofile fd of
        None \<Rightarrow> Some (-1, ofile, s)
      | Some f \<Rightarrow> do { s \<leftarrow> fileclose iput f s; Some (0, ofile[nat fd := None], s) })"

definition sys_pipe :: "(u32 \<Rightarrow> 'i \<Rightarrow> 'i option) \<Rightarrow> u32 \<Rightarrow> u8 list \<Rightarrow> nat option list \<Rightarrow> 'i files \<Rightarrow>
    ((nat \<times> nat) option \<times> nat option list \<times> 'i files) option" where
  "sys_pipe iput page garbage ofile s = do {
     (r, s) \<leftarrow> pipealloc iput page garbage s;
     case r of
       None \<Rightarrow> Some (None, ofile, s)
     | Some (rf, wrf) \<Rightarrow>
         (case fdalloc rf ofile of
            None \<Rightarrow> do { s \<leftarrow> fileclose iput rf s; s \<leftarrow> fileclose iput wrf s; Some (None, ofile, s) }
          | Some (fd0, ofile0) \<Rightarrow>
              (case fdalloc wrf ofile0 of
                 None \<Rightarrow> do { s \<leftarrow> fileclose iput rf s; s \<leftarrow> fileclose iput wrf s;
                   Some (None, ofile0[fd0 := None], s) }
               | Some (fd1, ofile1) \<Rightarrow> Some (Some (fd0, fd1), ofile1, s))) }"

section \<open>The contents of a pipe\<close>

interpretation pipe_ring: ring_buffer PIPESIZE
  by unfold_locales (simp_all add: PIPESIZE_def)

definition pipe_queue :: "pipe \<Rightarrow> u8 list" where
  "pipe_queue p = ring_contents PIPESIZE (pdata p) (nread p) (nwrite p)"

definition pipe_ok :: "pipe \<Rightarrow> bool" where
  "pipe_ok p \<longleftrightarrow> length (pdata p) = PIPESIZE \<and> length (pipe_queue p) \<le> PIPESIZE"

lemma pipe_len: "length (pipe_queue p) = unat (nwrite p - nread p)"
  by (simp add: pipe_queue_def)

lemma full_iff: "pipe_ok p \<Longrightarrow> nwrite p = nread p + word_of_nat PIPESIZE \<longleftrightarrow> length (pipe_queue p) = PIPESIZE"
proof -
  have "nwrite p = nread p + word_of_nat PIPESIZE \<longleftrightarrow> nwrite p - nread p = 512"
    by (auto simp: PIPESIZE_def algebra_simps)
  also have "\<dots> \<longleftrightarrow> length (pipe_queue p) = PIPESIZE" by (simp add: pipe_len PIPESIZE_def word_unat_eq_iff)
  finally show ?thesis .
qed

lemma pipe_put_queue:
  assumes "pipe_ok p" "length (pipe_queue p) < PIPESIZE"
  shows "pipe_queue (pipe_put b p) = pipe_queue p @ [b]" "pipe_ok (pipe_put b p)"
proof -
  show q: "pipe_queue (pipe_put b p) = pipe_queue p @ [b]"
    using assms pipe_ring.contents_put [of "pdata p" "nwrite p" "nread p" b]
    by (simp add: pipe_put_def pipe_queue_def pipe_ok_def)
  with assms show "pipe_ok (pipe_put b p)" by (simp add: pipe_ok_def) (simp add: pipe_put_def)
qed

lemma write_loop_queue:
  assumes "pipe_ok p"
  shows "pipe_ok (snd (write_loop killed p bs)) \<and>
    pipe_queue (snd (write_loop killed p bs)) = pipe_queue p @ take (PIPESIZE - length (pipe_queue p)) bs \<and>
    readopen (snd (write_loop killed p bs)) = readopen p \<and> writeopen (snd (write_loop killed p bs)) = writeopen p \<and>
    nread (snd (write_loop killed p bs)) = nread p \<and>
    fst (write_loop killed p bs) =
      (if length (pipe_queue p) + length bs \<le> PIPESIZE then Written
       else if \<not> readopen p \<or> killed then WriteFails
       else WriteSleeps (drop (PIPESIZE - length (pipe_queue p)) bs))"
  using assms
proof (induction killed p bs rule: write_loop.induct)
  case (1 killed p)
  then show ?case by (simp add: pipe_ok_def)
next
  case (2 killed p b bs)
  show ?case
  proof (cases "length (pipe_queue p) = PIPESIZE")
    case True
    with 2 show ?thesis by (simp add: full_iff)
  next
    case False
    with 2(2) have lt: "length (pipe_queue p) < PIPESIZE" by (simp add: pipe_ok_def)
    note q = pipe_put_queue [OF 2(2) lt, of b]
    have nf: "nwrite p \<noteq> nread p + word_of_nat PIPESIZE" using False full_iff [OF 2(2)] by simp
    have ro: "readopen (pipe_put b p) = readopen p" "writeopen (pipe_put b p) = writeopen p" "nread (pipe_put b p) = nread p"
      by (simp_all add: pipe_put_def)
    obtain k where k: "PIPESIZE - length (pipe_queue p) = Suc k" "PIPESIZE - Suc (length (pipe_queue p)) = k"
      using lt by (metis Suc_diff_Suc)
    from 2(1) [OF nf q(2)] show ?thesis by (simp add: nf q(1) ro k)
  qed
qed

lemma read_copy_queue:
  "pipe_ok p \<Longrightarrow> pipe_ok (snd (read_copy p n)) \<and> fst (read_copy p n) = take n (pipe_queue p) \<and>
   pipe_queue (snd (read_copy p n)) = drop n (pipe_queue p) \<and>
   readopen (snd (read_copy p n)) = readopen p \<and> writeopen (snd (read_copy p n)) = writeopen p"
proof (induction n arbitrary: p)
  case (Suc n)
  show ?case
  proof (cases "nread p = nwrite p")
    case True
    then have "pipe_queue p = []" by (simp add: pipe_queue_def pipe_ring.contents_empty)
    with True Suc.prems show ?thesis by simp
  next
    case False
    let ?p = "p\<lparr>nread := nread p + 1\<rparr>"
    have q: "pipe_queue p = pdata p ! (unat (nread p) mod PIPESIZE) # pipe_queue ?p"
      using pipe_ring.contents_get [OF False, of "pdata p"] by (simp add: pipe_queue_def)
    with Suc.prems have "pipe_ok ?p" by (simp add: pipe_ok_def)
    from Suc.IH [OF this] False q show ?thesis by (simp add: split_beta Let_def)
  qed
qed simp

lemma pipewrite_queue:
  assumes "pipe_ok p" "pipewrite killed p bs = (e, c, p')"
  shows "pipe_ok p'" "pipe_queue p' = pipe_queue p @ take (PIPESIZE - length (pipe_queue p)) bs"
    "readopen p' = readopen p" "writeopen p' = writeopen p" "c = (if e = WriteFails then [] else [ChanRead])"
    "e = (if length (pipe_queue p) + length bs \<le> PIPESIZE then Written
       else if \<not> readopen p \<or> killed then WriteFails
       else WriteSleeps (drop (PIPESIZE - length (pipe_queue p)) bs))"
    "unat (nwrite p' - nwrite p) = min (length bs) (PIPESIZE - length (pipe_queue p))"
proof -
  note w = write_loop_queue [OF assms(1), of killed bs]
  have s: "snd (write_loop killed p bs) = p'" "fst (write_loop killed p bs) = e"
    "c = (if e = WriteFails then [] else [ChanRead])"
    using assms(2) by (auto simp: pipewrite_def split: prod.splits write_end.splits)
  from w s show r: "pipe_ok p'" "pipe_queue p' = pipe_queue p @ take (PIPESIZE - length (pipe_queue p)) bs"
    "readopen p' = readopen p" "writeopen p' = writeopen p" "c = (if e = WriteFails then [] else [ChanRead])"
    "e = (if length (pipe_queue p) + length bs \<le> PIPESIZE then Written
       else if \<not> readopen p \<or> killed then WriteFails
       else WriteSleeps (drop (PIPESIZE - length (pipe_queue p)) bs))" by simp_all
  have "nread p' = nread p" using w s(1) by simp
  then have d: "nwrite p' - nwrite p = (nwrite p' - nread p') - (nwrite p - nread p)" by simp
  have "length (pipe_queue p') = length (pipe_queue p) + min (length bs) (PIPESIZE - length (pipe_queue p))"
    by (simp add: r(2))
  then show "unat (nwrite p' - nwrite p) = min (length bs) (PIPESIZE - length (pipe_queue p))"
    unfolding d by (subst unat_sub) (simp_all only: word_le_nat_alt pipe_len le_add1 add_diff_cancel_left')
qed

lemma piperead_queue:
  assumes "pipe_ok p" "piperead killed p n = (ReadBytes bs, c, p')"
  shows "pipe_ok p'" "bs = take n (pipe_queue p)" "pipe_queue p' = drop n (pipe_queue p)"
    "readopen p' = readopen p" "writeopen p' = writeopen p" "c = [ChanWrite]"
  using read_copy_queue [OF assms(1), of n] assms(2) by (auto simp: piperead_def split: if_splits prod.splits)

lemma piperead_empty: "pipe_ok p \<Longrightarrow> pipe_queue p = [] \<longleftrightarrow> nread p = nwrite p"
  by (simp add: pipe_queue_def pipe_ring.contents_empty)

text \<open>What happens to a pipe: stretches of \<open>pipewrite\<close> and \<open>piperead\<close> of any processes in any
  order, and \<open>pipeclose\<close> of one end; with the bytes that have been taken from the writers and handed
  to the readers.\<close>

inductive pipe_trace :: "pipe \<Rightarrow> u8 list \<Rightarrow> u8 list \<Rightarrow> pipe \<Rightarrow> bool" for p0 where
  start: "pipe_trace p0 [] [] p0"
| put: "pipe_trace p0 ws rs p \<Longrightarrow> pipewrite killed p bs = (e, c, p') \<Longrightarrow>
    pipe_trace p0 (ws @ take (unat (nwrite p' - nwrite p)) bs) rs p'"
| get: "pipe_trace p0 ws rs p \<Longrightarrow> piperead killed p n = (ReadBytes bs, c, p') \<Longrightarrow>
    pipe_trace p0 ws (rs @ bs) p'"
| close: "pipe_trace p0 ws rs p \<Longrightarrow> pipeclose w p = (c, Some p') \<Longrightarrow> pipe_trace p0 ws rs p'"

section \<open>Properties\<close>

text \<open>C27.  A pipe is a first-in first-out queue of at most 512 bytes: over any interleaving of readers,
  writers and closes, the bytes taken from the writers are the bytes handed to the readers followed by
  the bytes between the counters, also after the counters have wrapped around.\<close>

theorem pipe_stream:
  assumes "pipe_trace (new_pipe garbage) ws rs p" "length garbage = PIPESIZE"
  shows "ws = rs @ ring_contents PIPESIZE (pdata p) (nread p) (nwrite p) \<and>
    unat (nwrite p - nread p) \<le> PIPESIZE \<and> length (pdata p) = PIPESIZE"
proof -
  have "pipe_ok p \<and> ws = rs @ pipe_queue p"
    using assms
  proof (induction rule: pipe_trace.induct)
    case start
    then show ?case by (simp add: pipe_ok_def pipe_queue_def new_pipe_def ring_contents_def)
  next
    case (put ws rs p killed bs e c p')
    from put.IH [OF put.prems] have ih: "pipe_ok p" "ws = rs @ pipe_queue p" by auto
    note w = pipewrite_queue [OF ih(1) put.hyps(2)]
    have "take (min (length bs) (PIPESIZE - length (pipe_queue p))) bs = take (PIPESIZE - length (pipe_queue p)) bs"
      by (simp add: min_def)
    with w(1,2,7) ih(2) show ?case by simp
  next
    case (get ws rs p killed n bs c p')
    with piperead_queue [of p killed n bs c p'] show ?case by simp
  next
    case (close ws rs p w c p')
    then show ?case by (auto simp: pipeclose_def pipe_ok_def pipe_queue_def Let_def split: if_splits)
  qed
  then show ?thesis by (simp add: pipe_ok_def pipe_queue_def pipe_ring.length_contents)
qed

theorem pipe_stream_witness:
  "\<exists>p. pipe_trace (new_pipe (replicate 512 0)) [104, 105] [104] p \<and>
    ring_contents PIPESIZE (pdata p) (nread p) (nwrite p) = [105]"
proof -
  let ?p = "new_pipe (replicate 512 0)"
  obtain e c p1 where p1: "pipewrite False ?p [104, 105] = (e, c, p1)" by (metis prod_cases3)
  have ok: "pipe_ok ?p" "pipe_queue ?p = []"
    by (simp_all add: pipe_ok_def pipe_queue_def new_pipe_def ring_contents_def PIPESIZE_def)
  note w = pipewrite_queue [OF ok(1) p1]
  have q1: "pipe_queue p1 = [104, 105]" using w(2) ok(2) by (simp add: PIPESIZE_def)
  have "take (unat (nwrite p1 - nwrite ?p)) [104, 105] = ([104, 105] :: u8 list)"
    using w(7) ok(2) by (simp add: PIPESIZE_def)
  with pipe_trace.put [OF pipe_trace.start p1] have t1: "pipe_trace ?p [104, 105] [] p1" by simp
  have ne: "nread p1 \<noteq> nwrite p1" using piperead_empty [OF w(1)] q1 by simp
  obtain p2 where p2: "piperead False p1 1 = (ReadBytes [104], [ChanWrite], p2)"
    using read_copy_queue [OF w(1), of 1] q1 ne by (cases "read_copy p1 1") (simp add: piperead_def)
  have t2: "pipe_trace ?p [104, 105] [104] p2" using pipe_trace.get [OF t1 p2] by simp
  from pipe_stream [OF t2] have "[104, 105] = [104] @ ring_contents PIPESIZE (pdata p2) (nread p2) (nwrite p2)"
    by (simp add: PIPESIZE_def)
  with t2 show ?thesis by auto
qed



end
