(* ===== verification/Console.thy ===== *)
theory Console imports Pipe CLib
begin

text \<open>
  The console: formatted output (\<open>printint\<close> and \<open>cprintf\<close> of \<open>kernel/console.c\<close>, and their user
  level counterparts in \<open>user/printf.c\<close>), the screen, and the line editor with its input ring
  (\<open>consoleintr\<close>, \<open>consoleread\<close>).  Characters are passed as integers where the code does so
  (\<open>BACKSPACE\<close> is no byte); the output of a function is the list of what it passes to
  \<open>consputc\<close> or \<open>putc\<close>.
\<close>

section \<open>Formatted output\<close>

text \<open>\<open>0123456789abcdef\<close> and \<open>0123456789ABCDEF\<close>.\<close>

definition kernel_digits :: cstr where
  "kernel_digits = map (\<lambda>i. 48 + word_of_nat i) [0..<10] @ map (\<lambda>i. 97 + word_of_nat i) [0..<6]"

definition user_digits :: cstr where
  "user_digits = map (\<lambda>i. 48 + word_of_nat i) [0..<10] @ map (\<lambda>i. 65 + word_of_nat i) [0..<6]"

text \<open>The digits, lowest first; the callers pass the bases 10 and 16.\<close>

function digit_loop :: "cstr \<Rightarrow> u32 \<Rightarrow> u32 \<Rightarrow> cstr" where
  "digit_loop digits base x =
     digits ! unat (x mod base) # (if x div base = 0 \<or> base < 2 then [] else digit_loop digits base (x div base))"
  by pat_completeness auto
termination
proof (relation "measure (\<lambda>(digits, base, x). unat x)")
  fix digits :: cstr and base x :: u32
  assume a: "\<not> (x div base = 0 \<or> base < 2)"
  then have "x \<noteq> 0" by auto
  then have "0 < unat x" by (simp only: unat_eq_0 neq0_conv [symmetric]) simp
  moreover have "1 < unat base" using a by (simp add: word_less_nat_alt)
  ultimately show "((digits, base, x div base), digits, base, x) \<in> measure (\<lambda>(digits, base, x). unat x)"
    by (simp add: unat_div_distrib)
qed simp

declare digit_loop.simps [simp del]

definition print_number :: "cstr \<Rightarrow> u32 \<Rightarrow> u32 \<Rightarrow> bool \<Rightarrow> cstr" where
  "print_number digits xx base sign =
     (let neg = (sign \<and> sint xx < 0);
          x = (if neg then - xx else xx);
          buf = digit_loop digits base x @ (if neg then [45] else [])
      in rev buf)"

definition printint :: "u32 \<Rightarrow> u32 \<Rightarrow> bool \<Rightarrow> cstr" where
  "printint = print_number kernel_digits"

definition user_printint :: "u32 \<Rightarrow> u32 \<Rightarrow> bool \<Rightarrow> cstr" where
  "user_printint = print_number user_digits"

definition null_string :: cstr where "null_string = [40, 110, 117, 108, 108, 41]"

text \<open>The format without its final zero; \<open>str\<close> reads a string from memory; \<open>None\<close>: an argument that
  was not passed.\<close>

fun cprintf :: "(u32 \<Rightarrow> cstr) \<Rightarrow> cstr \<Rightarrow> u32 list \<Rightarrow> cstr option" where
  "cprintf str [] args = Some []"
| "cprintf str (c # cs) args =
     (if c \<noteq> 37 then map_option (Cons c) (cprintf str cs args)
      else (case cs of
          [] \<Rightarrow> Some []
        | d # ds \<Rightarrow>
            if d = 100 \<or> d = 120 \<or> d = 112 \<or> d = 115 then
              (case args of
                 [] \<Rightarrow> None
               | a # as \<Rightarrow> map_option (append
                   (if d = 100 then printint a 10 True
                    else if d = 115 then (if a = 0 then null_string else str a)
                    else printint a 16 False)) (cprintf str ds as))
            else if d = 37 then map_option (Cons 37) (cprintf str ds args)
            else map_option (append [37, d]) (cprintf str ds args)))"

text \<open>\<open>printf\<close>: \<open>percent\<close> is the variable \<open>state\<close>.\<close>

fun printf_loop :: "(u32 \<Rightarrow> cstr) \<Rightarrow> bool \<Rightarrow> cstr \<Rightarrow> u32 list \<Rightarrow> cstr option" where
  "printf_loop str percent [] args = Some []"
| "printf_loop str percent (c # cs) args =
     (if \<not> percent then
        (if c = 37 then printf_loop str True cs args
         else map_option (Cons c) (printf_loop str False cs args))
      else if c = 100 \<or> c = 120 \<or> c = 112 \<or> c = 115 \<or> c = 99 then
        (case args of
           [] \<Rightarrow> None
         | a # as \<Rightarrow> map_option (append
             (if c = 100 then user_printint a 10 True
              else if c = 120 \<or> c = 112 then user_printint a 16 False
              else if c = 115 then (if a = 0 then null_string else str a)
              else [ucast a])) (printf_loop str False cs as))
      else if c = 37 then map_option (Cons c) (printf_loop str False cs args)
      else map_option (append [37, c]) (printf_loop str False cs args))"

definition printf :: "(u32 \<Rightarrow> cstr) \<Rightarrow> cstr \<Rightarrow> u32 list \<Rightarrow> cstr option" where
  "printf str fmt args = printf_loop str False fmt args"

section \<open>The screen\<close>

definition BACKSPACE :: int where "BACKSPACE = 0x100"

text \<open>The text memory from \<open>0xb8000\<close> on and the cursor register.\<close>

record cga =
  crt :: "u16 list"
  cursor :: nat

text \<open>\<open>None\<close>: an access outside the text memory.\<close>

definition scroll :: "nat \<Rightarrow> u16 list \<Rightarrow> (nat \<times> u16 list) option" where
  "scroll pos m =
     (if pos div 80 \<ge> 24 then
        (let m = take (23 * 80) (drop 80 m) @ drop (23 * 80) m; pos = pos - 80 in
         if length m < 24 * 80 \<or> pos > 24 * 80 then None
         else Some (pos, take pos m @ replicate (24 * 80 - pos) 0 @ drop (24 * 80) m))
      else Some (pos, m))"

definition cgaputc :: "int \<Rightarrow> cga \<Rightarrow> cga option" where
  "cgaputc c s =
     (let pos = cursor s in do {
        (pos, m) \<leftarrow> (if c = 10 then Some (pos + (80 - pos mod 80), crt s)
          else if c = BACKSPACE then Some (if pos > 0 then pos - 1 else pos, crt s)
          else do { m \<leftarrow> c_update (crt s) (int pos) ((word_of_int c AND 0xFF) OR 0x0700); Some (pos + 1, m) });
        (pos, m) \<leftarrow> scroll pos m;
        m \<leftarrow> c_update m (int pos) (0x20 OR 0x0700);
        Some \<lparr>crt = m, cursor = pos mod 65536\<rparr> })"

text \<open>The screen and the bytes sent to the serial line; \<open>None\<close> also when the kernel has panicked.\<close>

record cons_out =
  screen :: cga
  uart :: "int list"
  panicked :: bool

definition consputc :: "int \<Rightarrow> cons_out \<Rightarrow> cons_out option" where
  "consputc c s =
     (if panicked s then None
      else do {
        g \<leftarrow> cgaputc c (screen s);
        Some (s\<lparr>screen := g, uart := uart s @ (if c = BACKSPACE then [8, 32, 8] else [c])\<rparr>) })"

fun consolewrite :: "u8 list \<Rightarrow> cons_out \<Rightarrow> cons_out option" where
  "consolewrite [] s = Some s"
| "consolewrite (b # bs) s = do { s \<leftarrow> consputc (uint b) s; consolewrite bs s }"

section \<open>The line editor\<close>

definition INPUT_BUF :: nat where "INPUT_BUF = 128"

record input =
  ibuf :: "u8 list"
  ir :: u32
  iw :: u32
  ie :: u32

text \<open>Control-U: back to the start of the line, with the characters echoed.\<close>

function kill_line :: "input \<Rightarrow> input \<times> int list" where
  "kill_line i =
     (if ie i \<noteq> iw i \<and> ibuf i ! (unat (ie i - 1) mod INPUT_BUF) \<noteq> 10
      then (let (j, out) = kill_line (i\<lparr>ie := ie i - 1\<rparr>) in (j, BACKSPACE # out))
      else (i, []))"
  by pat_completeness auto
termination
proof (relation "measure (\<lambda>i. unat (ie i - iw i))")
  fix i :: input assume "ie i \<noteq> iw i \<and> ibuf i ! (unat (ie i - 1) mod INPUT_BUF) \<noteq> 10"
  then show "(i\<lparr>ie := ie i - 1\<rparr>, i) \<in> measure (\<lambda>i. unat (ie i - iw i))"
    using pipe_ring.unat_pred_diff [of "ie i" "iw i"] by (simp add: diff_right_commute)
qed simp

declare kill_line.simps [simp del]

text \<open>One character in \<open>consoleintr\<close>: the input, the echo and whether readers are woken up.  Control-P
  only prints the processes.\<close>

definition console_char :: "int \<Rightarrow> input \<Rightarrow> input \<times> int list \<times> bool" where
  "console_char c i =
     (if c = 16 then (i, [], False)
      else if c = 21 then (let (j, out) = kill_line i in (j, out, False))
      else if c = 8 \<or> c = 127 then
        (if ie i \<noteq> iw i then (i\<lparr>ie := ie i - 1\<rparr>, [BACKSPACE], False) else (i, [], False))
      else if c \<noteq> 0 \<and> ie i - ir i < word_of_nat INPUT_BUF then
        (let c = (if c = 13 then 10 else c);
             i = i\<lparr>ibuf := (ibuf i)[unat (ie i) mod INPUT_BUF := word_of_int c], ie := ie i + 1\<rparr>
         in if c = 10 \<or> c = 4 \<or> ie i = ir i + word_of_nat INPUT_BUF
            then (i\<lparr>iw := ie i\<rparr>, [c], True) else (i, [c], False))
      else (i, [], False))"

text \<open>\<open>consoleintr\<close>, on the characters that \<open>getc\<close> returns.\<close>

fun consoleintr :: "int list \<Rightarrow> input \<Rightarrow> input \<times> int list \<times> bool" where
  "consoleintr [] i = (i, [], False)"
| "consoleintr (c # cs) i =
     (let (i, out, w) = console_char c i; (i, out', w') = consoleintr cs i in (i, out @ out', w \<or> w'))"

text \<open>A stretch of \<open>consoleread\<close> for \<open>n\<close> of \<open>target\<close> bytes: it returns, fails or sleeps with the
  number of bytes still wanted.\<close>

datatype cons_end = ConsReturns | ConsFails | ConsSleeps nat

fun consoleread :: "bool \<Rightarrow> nat \<Rightarrow> nat \<Rightarrow> input \<Rightarrow> cons_end \<times> u8 list \<times> input" where
  "consoleread killed target 0 i = (ConsReturns, [], i)"
| "consoleread killed target (Suc n) i =
     (if ir i = iw i then (if killed then (ConsFails, [], i) else (ConsSleeps (Suc n), [], i))
      else (let c = ibuf i ! (unat (ir i) mod INPUT_BUF); j = i\<lparr>ir := ir i + 1\<rparr> in
        if c = 4 then (ConsReturns, [], if Suc n < target then i else j)
        else if c = 10 then (ConsReturns, [c], j)
        else (let (e, bs, j) = consoleread killed target n j in (e, c # bs, j))))"

end
