(* ===== verification/ConsoleProps.thy ===== *)
theory ConsoleProps imports Console
begin

text \<open>
  What the console promises: the input buffer is a line editor over two strings, the lines that are
  complete and the line being typed; numbers are printed so that they can be read back and fit
  into the buffers of the code; output stays inside the text memory.
\<close>

section \<open>The line editor\<close>

text \<open>The complete input and the line being typed.\<close>

type_synonym tty = "u8 list \<times> u8 list"

definition tty_char :: "u8 \<Rightarrow> tty \<Rightarrow> tty \<times> int list \<times> bool" where
  "tty_char b t =
     (let (ready, line) = t in
      if b = 16 then (t, [], False)
      else if b = 21 then ((ready, []), replicate (length line) BACKSPACE, False)
      else if b = 8 \<or> b = 127 then ((ready, butlast line), if line = [] then [] else [BACKSPACE], False)
      else if b = 0 \<or> length ready + length line = INPUT_BUF then (t, [], False)
      else (let b = (if b = 13 then 10 else b); line = line @ [b] in
        if b = 10 \<or> b = 4 \<or> length ready + length line = INPUT_BUF
        then ((ready @ line, []), [uint b], True) else ((ready, line), [uint b], False)))"

fun tty_keys :: "u8 list \<Rightarrow> tty \<Rightarrow> tty \<times> int list \<times> bool" where
  "tty_keys [] t = (t, [], False)"
| "tty_keys (b # bs) t = (let (t, out, w) = tty_char b t; (t, out', w') = tty_keys bs t in (t, out @ out', w \<or> w'))"

fun tty_read :: "bool \<Rightarrow> nat \<Rightarrow> nat \<Rightarrow> u8 list \<Rightarrow> cons_end \<times> u8 list \<times> u8 list" where
  "tty_read killed target 0 ready = (ConsReturns, [], ready)"
| "tty_read killed target (Suc n) [] = (if killed then ConsFails else ConsSleeps (Suc n), [], [])"
| "tty_read killed target (Suc n) (c # ready) =
     (if c = 4 then (ConsReturns, [], if Suc n < target then c # ready else ready)
      else if c = 10 then (ConsReturns, [c], ready)
      else (let (e, bs, ready) = tty_read killed target n ready in (e, c # bs, ready)))"

interpretation console_ring: ring_buffer INPUT_BUF
  by unfold_locales (simp_all add: INPUT_BUF_def)

definition edit_line :: "input \<Rightarrow> u8 list" where
  "edit_line i = ring_contents INPUT_BUF (ibuf i) (iw i) (ie i)"

definition ready_part :: "input \<Rightarrow> u8 list" where
  "ready_part i = ring_contents INPUT_BUF (ibuf i) (ir i) (iw i)"

definition console_abs :: "input \<Rightarrow> tty" where
  "console_abs i = (ready_part i, edit_line i)"

definition input_ok :: "input \<Rightarrow> bool" where
  "input_ok i \<longleftrightarrow> length (ibuf i) = INPUT_BUF \<and> unat (iw i - ir i) \<le> unat (ie i - ir i) \<and>
     unat (ie i - ir i) \<le> INPUT_BUF \<and> 10 \<notin> set (edit_line i)"

lemma edit_empty: "edit_line i = [] \<longleftrightarrow> ie i = iw i"
  by (auto simp: edit_line_def console_ring.contents_empty)

lemma ready_empty: "ready_part i = [] \<longleftrightarrow> ir i = iw i"
  by (simp add: ready_part_def console_ring.contents_empty)

lemma whole_split: "input_ok i \<Longrightarrow>
    ring_contents INPUT_BUF (ibuf i) (ir i) (ie i) = ready_part i @ edit_line i"
  unfolding input_ok_def ready_part_def edit_line_def by (intro console_ring.contents_split) simp

lemma whole_length: "input_ok i \<Longrightarrow> unat (ie i - ir i) = length (ready_part i) + length (edit_line i)"
  using arg_cong [OF whole_split, of i length] by simp

text \<open>Taking back the last character.\<close>

lemma undo_char:
  assumes ok: "input_ok i" and ne: "ie i \<noteq> iw i"
  shows "input_ok (i\<lparr>ie := ie i - 1\<rparr>)" "console_abs (i\<lparr>ie := ie i - 1\<rparr>) = (ready_part i, butlast (edit_line i))"
    "ibuf i ! (unat (ie i - 1) mod INPUT_BUF) = last (edit_line i)"
proof -
  let ?j = "i\<lparr>ie := ie i - 1\<rparr>"
  have e: "edit_line ?j = butlast (edit_line i)"
    using console_ring.contents_undo [of "iw i" "ie i" "ibuf i"] ne by (auto simp: edit_line_def)
  have r: "ready_part ?j = ready_part i" by (simp add: ready_part_def)
  have "edit_line i \<noteq> []" using ne by (simp add: edit_empty)
  then have lt: "length (ready_part i) < unat (ie i - ir i)" using whole_length [OF ok] by simp
  then have "ie i \<noteq> ir i" by auto
  then have d: "unat (ie i - ir i) = Suc (unat (ie i - 1 - ir i))"
    using console_ring.unat_pred_diff [of "ie i" "ir i"] by (simp add: diff_right_commute)
  have "length (ready_part i) = unat (iw i - ir i)" by (simp add: ready_part_def)
  with ok d lt show "input_ok ?j"
    unfolding input_ok_def e by (auto dest: in_set_butlastD)
  show "console_abs ?j = (ready_part i, butlast (edit_line i))" by (simp add: console_abs_def e r)
  have n: "unat (ie i - iw i) = Suc (unat (ie i - iw i - 1))" using console_ring.unat_pred_diff [OF ne] .
  have "last (edit_line i) = ibuf i ! (unat (iw i + word_of_nat (unat (ie i - iw i - 1))) mod INPUT_BUF)"
    unfolding edit_line_def ring_contents_def n by (simp add: last_map)
  also have "iw i + word_of_nat (unat (ie i - iw i - 1)) = ie i - 1" by simp
  finally show "ibuf i ! (unat (ie i - 1) mod INPUT_BUF) = last (edit_line i)" by simp
qed

lemma kill_line_edit:
  "input_ok i \<Longrightarrow> input_ok (fst (kill_line i)) \<and> console_abs (fst (kill_line i)) = (ready_part i, []) \<and>
   snd (kill_line i) = replicate (length (edit_line i)) BACKSPACE"
proof (induction i rule: kill_line.induct)
  case (1 i)
  show ?case
  proof (cases "ie i = iw i")
    case True
    then have "edit_line i = []" by (simp add: edit_empty)
    with True 1(2) show ?thesis by (simp add: kill_line.simps [of i] console_abs_def)
  next
    case False
    let ?j = "i\<lparr>ie := ie i - 1\<rparr>"
    note u = undo_char [OF 1(2) False]
    have ne: "edit_line i \<noteq> []" using False by (simp add: edit_empty)
    then have "last (edit_line i) \<noteq> 10" using 1(2) last_in_set [of "edit_line i"] unfolding input_ok_def by metis
    then have c: "ie i \<noteq> iw i \<and> ibuf i ! (unat (ie i - 1) mod INPUT_BUF) \<noteq> 10" using False u(3) by simp
    have p: "ready_part ?j = ready_part i" "edit_line ?j = butlast (edit_line i)" using u(2) by (simp_all add: console_abs_def)
    obtain n where n: "length (edit_line i) = Suc n" using ne by (cases "edit_line i") auto
    have "kill_line i = (fst (kill_line ?j), BACKSPACE # snd (kill_line ?j))"
      by (subst kill_line.simps) (simp add: c split_beta)
    with 1(1) [OF c u(1)] p n show ?thesis by simp
  qed
qed

text \<open>Storing a character, and completing the line.\<close>

lemma put_char:
  fixes b :: u8
  assumes ok: "input_ok i" and sp: "length (ready_part i) + length (edit_line i) < INPUT_BUF"
  defines "j \<equiv> i\<lparr>ibuf := (ibuf i)[unat (ie i) mod INPUT_BUF := b], ie := ie i + 1\<rparr>"
  shows "length (ibuf j) = INPUT_BUF" "unat (iw j - ir j) \<le> unat (ie j - ir j)" "unat (ie j - ir j) \<le> INPUT_BUF"
    "ready_part j = ready_part i" "edit_line j = edit_line i @ [b]"
proof -
  have lt: "unat (ie i - ir i) < INPUT_BUF" using whole_length [OF ok] sp by simp
  have le: "unat (ie i - iw i) < INPUT_BUF" using sp by (simp add: edit_line_def)
  have len: "length (ibuf i) = INPUT_BUF" and r: "unat (iw i - ir i) \<le> unat (ie i - ir i)" using ok by (simp_all add: input_ok_def)
  have d: "unat (ie j - ir j) = Suc (unat (ie i - ir i))" using console_ring.unat_Suc_diff [OF lt] by (simp add: j_def)
  show l: "length (ibuf j) = INPUT_BUF" using len by (simp add: j_def)
  show w: "unat (iw j - ir j) \<le> unat (ie j - ir j)" using d r by (simp add: j_def)
  show "unat (ie j - ir j) \<le> INPUT_BUF" using d lt by simp
  show e: "edit_line j = edit_line i @ [b]"
    using console_ring.contents_put [OF len le, of b] by (simp add: j_def edit_line_def)
  have "ready_part j @ edit_line j = ring_contents INPUT_BUF (ibuf j) (ir j) (ie j)"
    unfolding ready_part_def edit_line_def by (rule console_ring.contents_split [OF w, symmetric])
  also have "\<dots> = (ready_part i @ edit_line i) @ [b]"
    using console_ring.contents_put [OF len lt, of b] whole_split [OF ok] by (simp add: j_def)
  finally show "ready_part j = ready_part i" by (simp add: e)
qed

lemma commit_line:
  assumes "length (ibuf j) = INPUT_BUF" "unat (iw j - ir j) \<le> unat (ie j - ir j)" "unat (ie j - ir j) \<le> INPUT_BUF"
  shows "input_ok (j\<lparr>iw := ie j\<rparr>)" "console_abs (j\<lparr>iw := ie j\<rparr>) = (ready_part j @ edit_line j, [])"
proof -
  have e: "edit_line (j\<lparr>iw := ie j\<rparr>) = []" by (simp add: edit_empty)
  have "ready_part (j\<lparr>iw := ie j\<rparr>) = ready_part j @ edit_line j"
    using console_ring.contents_split [OF assms(2), of "ibuf j"] by (simp add: ready_part_def edit_line_def)
  with e assms show "input_ok (j\<lparr>iw := ie j\<rparr>)" "console_abs (j\<lparr>iw := ie j\<rparr>) = (ready_part j @ edit_line j, [])"
    by (simp_all add: input_ok_def console_abs_def)
qed

lemma byte_cases: "(uint b = 16) = (b = 16)" "(uint b = 21) = (b = 21)" "(uint b = 8) = (b = 8)" "(uint b = 127) = (b = 127)"
  "(uint b = 0) = (b = 0)" "(uint b = 13) = (b = 13)" "(uint b = 10) = (b = 10)" "(uint b = 4) = (b = (4 :: u8))"
  using uint_eq_uint_iff [of b 16] uint_eq_uint_iff [of b 21] uint_eq_uint_iff [of b 8] uint_eq_uint_iff [of b 127]
    uint_eq_uint_iff [of b 0] uint_eq_uint_iff [of b 13] uint_eq_uint_iff [of b 10] uint_eq_uint_iff [of b 4]
  by simp_all

lemma room_iff: "input_ok i \<Longrightarrow> ie i - ir i < word_of_nat INPUT_BUF \<longleftrightarrow> length (ready_part i) + length (edit_line i) < INPUT_BUF"
  using whole_length [of i] by (simp add: word_less_nat_alt INPUT_BUF_def)

lemma full_line_iff: "ie j = ir j + word_of_nat INPUT_BUF \<longleftrightarrow> unat (ie j - ir j) = INPUT_BUF"
proof -
  have "ie j = ir j + word_of_nat INPUT_BUF \<longleftrightarrow> ie j - ir j = 128"
    by (auto simp: INPUT_BUF_def algebra_simps)
  then show ?thesis by (simp add: INPUT_BUF_def word_unat_eq_iff)
qed

lemma store_char:
  fixes b :: u8
  assumes ok: "input_ok i" and sp: "length (ready_part i) + length (edit_line i) < INPUT_BUF"
  defines "j \<equiv> i\<lparr>ibuf := (ibuf i)[unat (ie i) mod INPUT_BUF := b], ie := ie i + 1\<rparr>"
  defines "full \<equiv> b = 10 \<or> b = 4 \<or> ie j = ir j + word_of_nat INPUT_BUF"
  shows "full \<longleftrightarrow> b = 10 \<or> b = 4 \<or> length (ready_part i) + length (edit_line i @ [b]) = INPUT_BUF"
    "full \<Longrightarrow> input_ok (j\<lparr>iw := ie j\<rparr>) \<and> console_abs (j\<lparr>iw := ie j\<rparr>) = (ready_part i @ edit_line i @ [b], [])"
    "\<not> full \<Longrightarrow> input_ok j \<and> console_abs j = (ready_part i, edit_line i @ [b])"
proof -
  note p = put_char [OF ok sp, of b, folded j_def]
  have "unat (ie j - ir j) = length (ready_part j) + length (edit_line j)"
    using console_ring.contents_split [OF p(2), of "ibuf j"] arg_cong [where f = length]
    by (metis console_ring.length_contents edit_line_def length_append ready_part_def)
  then show "full \<longleftrightarrow> b = 10 \<or> b = 4 \<or> length (ready_part i) + length (edit_line i @ [b]) = INPUT_BUF"
    unfolding full_def full_line_iff p(4,5) by simp
  show "input_ok (j\<lparr>iw := ie j\<rparr>) \<and> console_abs (j\<lparr>iw := ie j\<rparr>) = (ready_part i @ edit_line i @ [b], [])"
    using commit_line [OF p(1-3)] p(4,5) by simp
  show "input_ok j \<and> console_abs j = (ready_part i, edit_line i @ [b])" if "\<not> full"
    using that p ok by (auto simp: input_ok_def console_abs_def full_def)
qed

lemma console_char_edit:
  assumes "input_ok i"
  shows "input_ok (fst (console_char (uint b) i))"
    "(console_abs (fst (console_char (uint b) i)), snd (console_char (uint b) i)) = tty_char b (console_abs i)"
proof -
  have "input_ok (fst (console_char (uint b) i)) \<and>
    (console_abs (fst (console_char (uint b) i)), snd (console_char (uint b) i)) = tty_char b (console_abs i)"
  proof (cases "b = 16 \<or> b = 21 \<or> b = 8 \<or> b = 127")
    case True
    then consider "b = 16" | "b = 21" | "b = 8 \<or> b = 127" by blast
    then show ?thesis
    proof cases
      case 1
      with assms show ?thesis by (simp add: console_char_def tty_char_def console_abs_def)
    next
      case 2
      with kill_line_edit [OF assms] show ?thesis
        by (simp add: console_char_def tty_char_def console_abs_def split_beta)
    next
      case 3
      then have "uint b \<noteq> 16" "uint b \<noteq> 21" "uint b = 8 \<or> uint b = 127" "b \<noteq> 16" "b \<noteq> 21" by auto
      with 3 assms undo_char(1,2) [OF assms] edit_empty [of i] show ?thesis
        by (cases "ie i = iw i") (simp_all add: console_char_def tty_char_def console_abs_def)
    qed
  next
    case False
    show ?thesis
    proof (cases "b = 0 \<or> \<not> length (ready_part i) + length (edit_line i) < INPUT_BUF")
      case True
      have "length (ready_part i) + length (edit_line i) \<le> INPUT_BUF"
        using assms whole_length [OF assms] by (simp add: input_ok_def)
      with True False assms show ?thesis
        by (auto simp: console_char_def tty_char_def console_abs_def byte_cases room_iff [OF assms])
    next
      case 2: False
      define d where "d = (if b = 13 then 10 else b)"
      from 2 have sp: "length (ready_part i) + length (edit_line i) < INPUT_BUF" by simp
      note st = store_char [OF assms sp, of d]
      have c: "console_char (uint b) i =
        (let j = i\<lparr>ibuf := (ibuf i)[unat (ie i) mod INPUT_BUF := d], ie := ie i + 1\<rparr>
         in if d = 10 \<or> d = 4 \<or> ie j = ir j + word_of_nat INPUT_BUF
            then (j\<lparr>iw := ie j\<rparr>, [uint d], True) else (j, [uint d], False))"
        using False 2 by (cases "b = 13") (simp_all add: d_def console_char_def byte_cases room_iff [OF assms] Let_def)
      have t: "tty_char b (console_abs i) =
        (if d = 10 \<or> d = 4 \<or> length (ready_part i) + length (edit_line i @ [d]) = INPUT_BUF
         then ((ready_part i @ edit_line i @ [d], []), [uint d], True)
         else ((ready_part i, edit_line i @ [d]), [uint d], False))"
        using False 2 sp by (cases "b = 13") (simp_all add: tty_char_def console_abs_def d_def Let_def)
      show ?thesis
      proof (cases "d = 10 \<or> d = 4 \<or> length (ready_part i) + length (edit_line i @ [d]) = INPUT_BUF")
        case True
        from st(1) [THEN iffD2, OF True] have f: "d = 10 \<or> d = 4 \<or> ie i + 1 = ir i + word_of_nat INPUT_BUF" by simp
        show ?thesis unfolding c t Let_def if_P [OF True] using st(2) f by simp
      next
        case nf: False
        with st(1) have f: "\<not> (d = 10 \<or> d = 4 \<or> ie i + 1 = ir i + word_of_nat INPUT_BUF)" by simp
        show ?thesis unfolding c t Let_def if_not_P [OF nf] using st(3) f by simp
      qed
    qed
  qed
  then show "input_ok (fst (console_char (uint b) i))"
    "(console_abs (fst (console_char (uint b) i)), snd (console_char (uint b) i)) = tty_char b (console_abs i)" by blast+
qed

lemma consoleintr_edit:
  "input_ok i \<Longrightarrow> input_ok (fst (consoleintr (map uint bs) i)) \<and>
   (console_abs (fst (consoleintr (map uint bs) i)), snd (consoleintr (map uint bs) i)) = tty_keys bs (console_abs i)"
proof (induction bs arbitrary: i)
  case (Cons b bs)
  obtain j out w where c: "console_char (uint b) i = (j, out, w)" by (metis prod_cases3)
  have j: "input_ok j" and t: "tty_char b (console_abs i) = (console_abs j, out, w)"
    using console_char_edit [OF Cons.prems, of b] by (simp_all add: c)
  obtain j' out' w' where r: "consoleintr (map uint bs) j = (j', out', w')" by (metis prod_cases3)
  from Cons.IH [OF j] have "input_ok j'" "tty_keys bs (console_abs j) = (console_abs j', out', w')" by (simp_all add: r)
  then show ?case by (simp add: c r t)
qed simp

lemma consoleread_edit:
  assumes "input_ok i" "consoleread killed target n i = (e, bs, j)"
  shows "input_ok j \<and> edit_line j = edit_line i \<and> tty_read killed target n (ready_part i) = (e, bs, ready_part j)"
  using assms
proof (induction killed target n i arbitrary: bs rule: consoleread.induct)
  case (2 killed target n i)
  show ?case
  proof (cases "ir i = iw i")
    case True
    with 2(2,3) show ?thesis using ready_empty [of i] by (auto split: if_splits)
  next
    case False
    let ?j = "i\<lparr>ir := ir i + 1\<rparr>" and ?c = "ibuf i ! (unat (ir i) mod INPUT_BUF)"
    have r: "ready_part i = ?c # ready_part ?j" and e: "edit_line ?j = edit_line i"
      using console_ring.contents_get [OF False] by (simp_all add: ready_part_def edit_line_def)
    have "unat (iw i - ir i) = Suc (unat (iw i - (ir i + 1)))"
      using console_ring.unat_pred_diff [of "iw i" "ir i"] False by (simp add: diff_diff_eq)
    moreover have "ie i \<noteq> ir i" using 2(2) calculation by (auto simp: input_ok_def)
    then have "unat (ie i - ir i) = Suc (unat (ie i - (ir i + 1)))"
      using console_ring.unat_pred_diff [of "ie i" "ir i"] by (simp add: diff_diff_eq)
    ultimately have ok: "input_ok ?j" using 2(2) e by (simp add: input_ok_def)
    show ?thesis
    proof (cases "?c = 4 \<or> ?c = 10")
      case True
      with 2(2,3) False ok e r show ?thesis by (auto simp: Let_def split: if_splits)
    next
      case c: False
      obtain bs' where c': "consoleread killed target n ?j = (e, bs', j)" "bs = ?c # bs'"
        using 2(3) False c by (auto simp: Let_def split: prod.splits)
      from 2(1) [OF False refl refl _ _ ok c'(1)] c c'(2) e show ?thesis by (simp add: r)
    qed
  qed
qed auto

text \<open>Interrupts and stretches of reading processes, in any order, and what they show: the echo with the
  wake-up of the readers, and the result of a read.\<close>

datatype tty_event = Keys "u8 list" | ReadStretch bool nat nat

datatype tty_result = Echoed "int list" bool | Got cons_end "u8 list"

fun console_run :: "tty_event list \<Rightarrow> input \<Rightarrow> input \<times> tty_result list" where
  "console_run [] i = (i, [])"
| "console_run (Keys bs # es) i =
     (let (i, out, w) = consoleintr (map uint bs) i; (i, rs) = console_run es i in (i, Echoed out w # rs))"
| "console_run (ReadStretch killed target n # es) i =
     (let (e, bs, i) = consoleread killed target n i; (i, rs) = console_run es i in (i, Got e bs # rs))"

fun tty_run :: "tty_event list \<Rightarrow> tty \<Rightarrow> tty \<times> tty_result list" where
  "tty_run [] t = (t, [])"
| "tty_run (Keys bs # es) t =
     (let (t, out, w) = tty_keys bs t; (t, rs) = tty_run es t in (t, Echoed out w # rs))"
| "tty_run (ReadStretch killed target n # es) t =
     (let (e, bs, ready) = tty_read killed target n (fst t); (t, rs) = tty_run es (ready, snd t)
      in (t, Got e bs # rs))"

definition input0 :: input where
  "input0 = \<lparr>ibuf = replicate INPUT_BUF 0, ir = 0, iw = 0, ie = 0\<rparr>"

lemma console_run_edit:
  "input_ok i \<Longrightarrow> input_ok (fst (console_run es i)) \<and>
   tty_run es (console_abs i) = (console_abs (fst (console_run es i)), snd (console_run es i))"
proof (induction es arbitrary: i)
  case (Cons ev es)
  show ?case
  proof (cases ev)
    case (Keys bs)
    obtain j out w where c: "consoleintr (map uint bs) i = (j, out, w)" by (metis prod_cases3)
    have j: "input_ok j" and t: "tty_keys bs (console_abs i) = (console_abs j, out, w)"
      using consoleintr_edit [OF Cons.prems, of bs] by (simp_all add: c)
    from Cons.IH [OF j] show ?thesis by (simp add: Keys c t split_beta)
  next
    case (ReadStretch killed target n)
    obtain e bs j where c: "consoleread killed target n i = (e, bs, j)" by (metis prod_cases3)
    note r = consoleread_edit [OF Cons.prems c]
    then have "tty_read killed target n (fst (console_abs i)) = (e, bs, ready_part j)" "input_ok j"
      "(ready_part j, snd (console_abs i)) = console_abs j" by (simp_all add: console_abs_def)
    with Cons.IH [of j] show ?thesis by (simp add: ReadStretch c split_beta)
  qed
qed simp

section \<open>Numbers\<close>

lemma kernel_digit: "k < 10 \<Longrightarrow> kernel_digits ! k = word_of_nat (48 + k)"
  and user_digit: "k < 10 \<Longrightarrow> user_digits ! k = word_of_nat (48 + k)"
  by (simp_all add: kernel_digits_def user_digits_def nth_append)

lemma unat_base: "base = 10 \<or> base = 16 \<Longrightarrow> unat (x div base) = unat x div unat base \<and> unat (x mod base) = unat x mod unat base"
  for x base :: u32
  by (simp add: unat_div unat_mod)

lemma digit_loop_dec:
  assumes "\<forall>k < 10. digits ! k = word_of_nat (48 + k)"
  shows "rev (digit_loop digits 10 x) = dec (unat x)"
proof (induction "unat x" arbitrary: x rule: less_induct)
  case less
  have q: "x div 10 = 0 \<longleftrightarrow> unat x < 10"
    by (simp add: word_unat_eq_iff unat_div div_eq_0_iff)
  show ?case
  proof (cases "unat x < 10")
    case True
    then show ?thesis using assms q by (simp add: digit_loop.simps [of digits 10] dec.simps [of "unat x"] unat_mod)
  next
    case False
    then have "unat (x div 10) < unat x" by (simp add: unat_div)
    from less [OF this] False show ?thesis using assms q
      by (simp add: digit_loop.simps [of digits 10] dec.simps [of "unat x"] unat_mod unat_div)
  qed
qed

definition hex_digit :: "u8 \<Rightarrow> nat" where
  "hex_digit c = (if c \<le> 57 then unat c - 48 else if c \<le> 70 then unat c - 55 else unat c - 87)"

definition hex_value :: "cstr \<Rightarrow> nat" where
  "hex_value s = foldl (\<lambda>n c. 16 * n + hex_digit c) 0 s"

lemma kernel_hex: "k < 16 \<Longrightarrow> hex_digit (kernel_digits ! k) = k"
  and user_hex: "k < 16 \<Longrightarrow> hex_digit (user_digits ! k) = k"
proof -
  have "\<forall>k \<in> set [0..<16]. hex_digit (kernel_digits ! k) = k \<and> hex_digit (user_digits ! k) = k" by code_simp
  then show "k < 16 \<Longrightarrow> hex_digit (kernel_digits ! k) = k" "k < 16 \<Longrightarrow> hex_digit (user_digits ! k) = k" by simp_all
qed

lemma digit_loop_hex:
  assumes "\<forall>k < 16. hex_digit (digits ! k) = k"
  shows "hex_value (rev (digit_loop digits 16 x)) = unat x"
proof (induction "unat x" arbitrary: x rule: less_induct)
  case less
  have q: "x div 16 = 0 \<longleftrightarrow> unat x < 16"
    by (simp add: word_unat_eq_iff unat_div div_eq_0_iff)
  show ?case
  proof (cases "unat x < 16")
    case True
    then show ?thesis using assms q by (simp add: digit_loop.simps [of digits 16] hex_value_def unat_mod)
  next
    case False
    then have "unat (x div 16) < unat x" by (simp add: unat_div)
    from less [OF this] False show ?thesis using assms q
      by (simp add: digit_loop.simps [of digits 16] hex_value_def unat_mod unat_div)
  qed
qed

lemma digit_loop_length:
  assumes "2 \<le> base" "unat x < unat base ^ Suc k"
  shows "length (digit_loop digits base x) \<le> Suc k"
  using assms
proof (induction k arbitrary: x)
  case 0
  then have "x div base = 0" by (simp add: word_unat_eq_iff unat_div)
  then show ?case by (subst digit_loop.simps) simp
next
  case (Suc k)
  have "0 < unat base" using Suc.prems(1) by (auto simp: word_le_nat_alt)
  then have "unat (x div base) < unat base ^ Suc k"
    using Suc.prems(2) by (simp add: unat_div less_mult_imp_div_less mult.commute)
  from Suc.IH [OF Suc.prems(1) this] show ?case by (subst digit_loop.simps) simp
qed

lemma print_decimal:
  assumes "\<forall>k < 10. digits ! k = word_of_nat (48 + k)"
  shows "print_number digits xx 10 True = (if sint xx < 0 then 45 # dec (nat (- sint xx)) else dec (nat (sint xx)))"
proof -
  have b: "- (2 ^ 31) \<le> sint xx" "sint xx < 2 ^ 31" using sint_greater_eq [of xx] sint_less [of xx] by simp_all
  show ?thesis
  proof (cases "sint xx < 0")
    case True
    have u: "uint xx = sint xx mod 2 ^ 32" by (simp add: uint_sint take_bit_eq_mod)
    have "uint (- xx) = (- uint xx) mod 2 ^ 32" by (simp add: uint_word_ariths)
    also have "\<dots> = (- sint xx) mod 2 ^ 32" unfolding u by (rule mod_minus_eq)
    also have "\<dots> = - sint xx" by (rule mod_pos_pos_trivial) (use True b in simp_all)
    finally have n: "unat (- xx) = nat (- sint xx)" by (metis nat_uint_eq)
    show ?thesis using True digit_loop_dec [OF assms, of "- xx"] unfolding print_number_def Let_def n [symmetric] by simp
  next
    case False
    have "uint xx = sint xx" unfolding uint_sint by (rule take_bit_int_eq_self) (use False b in simp_all)
    then have n: "unat xx = nat (sint xx)" by (metis nat_uint_eq)
    show ?thesis using False digit_loop_dec [OF assms, of xx] unfolding print_number_def Let_def n [symmetric] by simp
  qed
qed

lemma atoi_print_decimal:
  assumes "\<forall>k < 10. digits ! k = word_of_nat (48 + k)"
  shows "atoi (print_number digits xx 10 True) = sint xx \<and> length (print_number digits xx 10 True) \<le> 11"
proof -
  have b: "- (2 ^ 31) \<le> sint xx" "sint xx < 2 ^ 31" using sint_greater_eq [of xx] sint_less [of xx] by simp_all
  then have "nat (- sint xx) < 10 ^ 10" "nat (sint xx) < 10 ^ 10" by simp_all
  then have l: "length (dec (nat (- sint xx))) \<le> 10" "length (dec (nat (sint xx))) \<le> 10"
    by (simp_all add: length_dec)
  have "atoi (45 # dec n) = - int n" for n by (simp add: atoi_def isspace_def atoi_digits_dec)
  with l show ?thesis unfolding print_decimal [OF assms] by (simp add: atoi_dec)
qed

lemma hex_print:
  assumes "\<forall>k < 16. hex_digit (digits ! k) = k"
  shows "hex_value (print_number digits xx 16 False) = unat xx \<and> length (print_number digits xx 16 False) \<le> 8"
proof -
  have "unat xx < 2 ^ 32" using unsigned_less [of xx] by simp
  then have "length (digit_loop digits 16 xx) \<le> 8" using digit_loop_length [of 16 xx 7 digits] by simp
  then show ?thesis using digit_loop_hex [OF assms, of xx] by (simp add: print_number_def)
qed

text \<open>On formats without \<open>%c\<close>, \<open>%x\<close> and \<open>%p\<close>, \<open>printf\<close> prints what \<open>cprintf\<close> prints.\<close>

lemma printf_cprintf:
  "set fmt \<inter> {99, 112, 120} = {} \<Longrightarrow> printf str fmt args = cprintf str fmt args"
  unfolding printf_def
proof (induction str fmt args rule: cprintf.induct)
  case (2 str c cs args)
  have p: "user_printint a 10 True = printint a 10 True" for a
    by (simp add: printint_def user_printint_def print_decimal kernel_digit user_digit)
  show ?case
  proof (cases "c = 37")
    case False
    with 2 show ?thesis by simp
  next
    case True
    show ?thesis
    proof (cases cs)
      case Nil
      with True show ?thesis by simp
    next
      case (Cons d ds)
      have d: "d \<noteq> 99" "d \<noteq> 120" "d \<noteq> 112" and ds: "set ds \<inter> {99, 112, 120} = {}" using 2(5) Cons by auto
      show ?thesis
      proof (cases "d = 100 \<or> d = 115")
        case True
        with 2(2) [OF _ Cons _ _ ds] d \<open>c = 37\<close> Cons show ?thesis by (cases args) (auto simp: p)
      next
        case False
        with 2(3,4) [OF _ Cons _ _ ds] d \<open>c = 37\<close> Cons show ?thesis by auto
      qed
    qed
  qed
qed simp

section \<open>The screen\<close>

definition screen_ok :: "cga \<Rightarrow> bool" where
  "screen_ok s \<longleftrightarrow> length (crt s) = 25 * 80 \<and> cursor s < 25 * 80"

lemma scroll_ok:
  assumes "length m = 25 * 80" "pos \<le> 25 * 80"
  shows "\<exists>pos' m'. scroll pos m = Some (pos', m') \<and> length m' = 25 * 80 \<and> pos' \<le> 24 * 80"
proof (cases "pos div 80 \<ge> 24")
  case True
  with assms show ?thesis by (simp add: scroll_def Let_def)
next
  case False
  then have "pos < 24 * 80" by linarith
  with False assms(1) show ?thesis by (simp add: scroll_def)
qed

lemma cgaputc_ok:
  assumes "screen_ok s"
  shows "\<exists>s'. cgaputc c s = Some s' \<and> screen_ok s'"
proof -
  have s: "length (crt s) = 25 * 80" "cursor s < 25 * 80" using assms by (simp_all add: screen_ok_def)
  have d: "cursor s div 80 < 25" using s(2) by (simp add: less_mult_imp_div_less)
  have "cursor s div 80 * 80 + cursor s mod 80 = cursor s" "cursor s mod 80 < 80" by simp_all
  with d have nl: "cursor s + (80 - cursor s mod 80) \<le> 25 * 80" by linarith
  let ?move = "if c = 10 then Some (cursor s + (80 - cursor s mod 80), crt s)
          else if c = BACKSPACE then Some (if cursor s > 0 then cursor s - 1 else cursor s, crt s)
          else do { m \<leftarrow> c_update (crt s) (int (cursor s)) ((word_of_int c AND 0xFF) OR 0x0700); Some (cursor s + 1, m) }"
  have "\<exists>pos m. ?move = Some (pos, m) \<and> length m = 25 * 80 \<and> pos \<le> 25 * 80"
  proof (cases "c = 10 \<or> c = BACKSPACE")
    case True
    moreover have "cursor s - 1 \<le> 25 * 80" using s(2) by linarith
    ultimately show ?thesis using nl s by (cases "c = 10") (simp_all add: BACKSPACE_def)
  next
    case False
    with s show ?thesis by simp
  qed
  then obtain pos m where pm: "?move = Some (pos, m)" "length m = 25 * 80" "pos \<le> 25 * 80" by blast
  obtain pos' m' where sc: "scroll pos m = Some (pos', m')" "length m' = 25 * 80" "pos' \<le> 24 * 80"
    using scroll_ok pm by blast
  have "cgaputc c s = Some \<lparr>crt = m'[pos' := 0x20 OR 0x0700], cursor = pos' mod 65536\<rparr>"
    unfolding cgaputc_def Let_def pm(1) using sc by simp
  then show ?thesis using sc by (simp add: screen_ok_def)
qed

lemma consolewrite_ok:
  "screen_ok (screen s) \<Longrightarrow> \<not> panicked s \<Longrightarrow>
   \<exists>s'. consolewrite bs s = Some s' \<and> screen_ok (screen s') \<and> \<not> panicked s' \<and> uart s' = uart s @ map uint bs"
proof (induction bs arbitrary: s)
  case (Cons b bs)
  obtain g where g: "cgaputc (uint b) (screen s) = Some g" "screen_ok g" using cgaputc_ok [OF Cons.prems(1)] by blast
  have "uint b < 256" using uint_lt2p [of b] by simp
  then have "consputc (uint b) s = Some (s\<lparr>screen := g, uart := uart s @ [uint b]\<rparr>)"
    using Cons.prems(2) g by (simp add: consputc_def BACKSPACE_def)
  with Cons.IH [of "s\<lparr>screen := g, uart := uart s @ [uint b]\<rparr>"] g Cons.prems(2) show ?case by simp
qed simp

section \<open>Properties\<close>

text \<open>C32.  The console is a line editor: for any sequence of key strokes and reads, the ring with its three
  free-running counters shows the same echo, wake-ups and results as two plain strings, the complete
  input and the line being typed, where erasing never reaches back into complete input, which is
  handed out line by line.\<close>

theorem console_edit:
  "(let (i, rs) = console_run es input0 in (console_abs i, rs)) = tty_run es ([], []) \<and>
   unat (ie (fst (console_run es input0)) - ir (fst (console_run es input0))) \<le> INPUT_BUF"
proof -
  have "edit_line input0 = []" "ready_part input0 = []" by (simp_all add: edit_empty ready_empty) (simp_all add: input0_def)
  then have "input_ok input0" "console_abs input0 = ([], [])" by (simp_all add: input_ok_def console_abs_def) (simp_all add: input0_def)
  from console_run_edit [OF this(1), of es] this(2) show ?thesis by (simp add: input_ok_def split_beta)
qed

text \<open>C33.  What \<open>printint\<close> prints can be read back, and fits into the sixteen bytes of its buffer: a decimal
  number with its sign has at most 11 characters, \<open>-2147483648\<close> included, and a hexadecimal one at most
  8, in the kernel and at user level.\<close>

theorem printint_value:
  "atoi (printint xx 10 True) = sint xx \<and> length (printint xx 10 True) \<le> 11 \<and>
   hex_value (printint xx 16 False) = unat xx \<and> length (printint xx 16 False) \<le> 8 \<and>
   atoi (user_printint xx 10 True) = sint xx \<and> length (user_printint xx 10 True) \<le> 11 \<and>
   hex_value (user_printint xx 16 False) = unat xx \<and> length (user_printint xx 16 False) \<le> 8"
  using atoi_print_decimal [of kernel_digits xx] atoi_print_decimal [of user_digits xx]
    hex_print [of kernel_digits xx] hex_print [of user_digits xx]
  by (simp add: printint_def user_printint_def kernel_digit user_digit kernel_hex user_hex)

end
