(* ===== verification/ShParse.thy ===== *)
theory ShParse imports CLib Runs "HOL-Library.Sublist"
begin

text \<open>
  The command parser of the xv6 shell (\<open>user/sh.c\<close>).  The line is a string without zero bytes; the
  pointer \<open>*ps\<close> is the rest of the line from there on and a pointer into the line is its distance
  from the start, so that \<open>es\<close> is the length of the line.  \<open>Exit\<close> is a call of \<open>panic\<close>.  Every loop
  and every recursive call costs one unit of fuel; \<open>parsecmd\<close> starts with enough of it.
\<close>

section \<open>Definitions\<close>

type_synonym word_pos = "nat \<times> nat"

text \<open>The structures \<open>execcmd\<close> (with the pairs of \<open>argv\<close> and \<open>eargv\<close>), \<open>redircmd\<close> (\<open>cmd\<close>, \<open>file\<close> and
  \<open>efile\<close>, \<open>mode\<close>, \<open>fd\<close>), \<open>pipecmd\<close>, \<open>listcmd\<close> and \<open>backcmd\<close>.\<close>

datatype cmd = EXEC "word_pos list" | REDIR cmd word_pos nat nat | PIPE cmd cmd | LIST cmd cmd | BACK cmd

datatype syntax_error = Leftovers | MissingFile | NoBlock | MissingParen | SyntaxError | TooManyArgs

definition MAXARGS :: nat where "MAXARGS = 10"

definition whitespace :: "u8 set" where "whitespace = {32, 9, 13, 10, 11}"

definition symbols :: "u8 set" where "symbols = {60, 124, 62, 38, 59, 40, 41}"

definition word_char :: "u8 \<Rightarrow> bool" where
  "word_char c \<longleftrightarrow> c \<notin> whitespace \<and> c \<notin> symbols"

definition skip :: "cstr \<Rightarrow> cstr" where
  "skip s = dropWhile (\<lambda>c. c \<in> whitespace) s"

text \<open>\<open>gettoken\<close>: the token's kind, its start and end, and the new value of \<open>*ps\<close>.\<close>

definition gettoken :: "nat \<Rightarrow> cstr \<Rightarrow> u8 \<times> word_pos \<times> cstr" where
  "gettoken es ps =
     (let s = skip ps; q = es - length s;
          (ret, t) = (case s of
              [] \<Rightarrow> (0, [])
            | c # cs \<Rightarrow>
                if c = 124 \<or> c = 40 \<or> c = 41 \<or> c = 59 \<or> c = 38 \<or> c = 60 then (c, cs)
                else if c = 62 then
                  (case cs of [] \<Rightarrow> (c, []) | d # ds \<Rightarrow> if d = 62 then (43, ds) else (c, d # ds))
                else (97, dropWhile word_char s))
      in (ret, (q, es - length t), skip t))"

definition peek :: "u8 set \<Rightarrow> cstr \<Rightarrow> bool \<times> cstr" where
  "peek toks ps = (let s = skip ps in (case s of [] \<Rightarrow> (False, s) | c # _ \<Rightarrow> (c \<in> toks, s)))"

fun parseredirs :: "nat \<Rightarrow> nat \<Rightarrow> cmd \<Rightarrow> cstr \<Rightarrow> (syntax_error, cmd \<times> cstr) run" where
  "parseredirs 0 es c ps = Hang"
| "parseredirs (Suc n) es c ps =
     (case peek {60, 62} ps of
        (False, ps) \<Rightarrow> Ok (c, ps)
      | (True, ps) \<Rightarrow>
          (let (tok, _, ps) = gettoken es ps; (kind, qe, ps) = gettoken es ps in
           if kind \<noteq> 97 then Exit MissingFile
           else parseredirs n es
             (if tok = 60 then REDIR c qe 0 0
              else if tok = 62 \<or> tok = 43 then REDIR c qe 0x201 1 else c) ps))"

text \<open>\<open>cmd->argv[argc] = q\<close>, on the command that \<open>ret\<close> has been wrapped around.\<close>

fun add_arg :: "word_pos \<Rightarrow> cmd \<Rightarrow> cmd" where
  "add_arg a (EXEC args) = EXEC (args @ [a])"
| "add_arg a (REDIR c qe mode fd) = REDIR (add_arg a c) qe mode fd"
| "add_arg a c = c"

fun exec_loop :: "nat \<Rightarrow> nat \<Rightarrow> nat \<Rightarrow> cmd \<Rightarrow> cstr \<Rightarrow> (syntax_error, cmd \<times> cstr) run" where
  "exec_loop 0 es argc ret ps = Hang"
| "exec_loop (Suc n) es argc ret ps =
     (case peek {124, 41, 38, 59} ps of
        (True, ps) \<Rightarrow> Ok (ret, ps)
      | (False, ps) \<Rightarrow>
          (let (tok, qe, ps) = gettoken es ps in
           if tok = 0 then Ok (ret, ps)
           else if tok \<noteq> 97 then Exit SyntaxError
           else if argc + 1 \<ge> MAXARGS then Exit TooManyArgs
           else and_then (parseredirs n es (add_arg qe ret) ps)
             (\<lambda>(ret, ps). exec_loop n es (argc + 1) ret ps)))"

text \<open>The loop over the ampersands in \<open>parseline\<close>.\<close>

fun back_loop :: "nat \<Rightarrow> nat \<Rightarrow> cmd \<Rightarrow> cstr \<Rightarrow> (syntax_error, cmd \<times> cstr) run" where
  "back_loop 0 es c ps = Hang"
| "back_loop (Suc n) es c ps =
     (case peek {38} ps of
        (False, ps) \<Rightarrow> Ok (c, ps)
      | (True, ps) \<Rightarrow> (let (_, _, ps) = gettoken es ps in back_loop n es (BACK c) ps))"

fun parseline :: "nat \<Rightarrow> nat \<Rightarrow> cstr \<Rightarrow> (syntax_error, cmd \<times> cstr) run"
  and parsepipe :: "nat \<Rightarrow> nat \<Rightarrow> cstr \<Rightarrow> (syntax_error, cmd \<times> cstr) run"
  and parseexec :: "nat \<Rightarrow> nat \<Rightarrow> cstr \<Rightarrow> (syntax_error, cmd \<times> cstr) run"
  and parseblock :: "nat \<Rightarrow> nat \<Rightarrow> cstr \<Rightarrow> (syntax_error, cmd \<times> cstr) run" where
  "parseline 0 es ps = Hang"
| "parseline (Suc n) es ps =
     and_then (parsepipe n es ps) (\<lambda>(c, ps).
     and_then (back_loop n es c ps) (\<lambda>(c, ps).
       case peek {59} ps of
         (False, ps) \<Rightarrow> Ok (c, ps)
       | (True, ps) \<Rightarrow> (let (_, _, ps) = gettoken es ps in
           and_then (parseline n es ps) (\<lambda>(c2, ps). Ok (LIST c c2, ps)))))"
| "parsepipe 0 es ps = Hang"
| "parsepipe (Suc n) es ps =
     and_then (parseexec n es ps) (\<lambda>(c, ps).
       case peek {124} ps of
         (False, ps) \<Rightarrow> Ok (c, ps)
       | (True, ps) \<Rightarrow> (let (_, _, ps) = gettoken es ps in
           and_then (parsepipe n es ps) (\<lambda>(c2, ps). Ok (PIPE c c2, ps))))"
| "parseexec 0 es ps = Hang"
| "parseexec (Suc n) es ps =
     (case peek {40} ps of
        (True, ps) \<Rightarrow> parseblock n es ps
      | (False, ps) \<Rightarrow>
          and_then (parseredirs n es (EXEC []) ps) (\<lambda>(ret, ps). exec_loop n es 0 ret ps))"
| "parseblock 0 es ps = Hang"
| "parseblock (Suc n) es ps =
     (case peek {40} ps of
        (False, ps) \<Rightarrow> Exit NoBlock
      | (True, ps) \<Rightarrow> (let (_, _, ps) = gettoken es ps in
          and_then (parseline n es ps) (\<lambda>(c, ps).
            case peek {41} ps of
              (False, ps) \<Rightarrow> Exit MissingParen
            | (True, ps) \<Rightarrow> (let (_, _, ps) = gettoken es ps in parseredirs n es c ps))))"

text \<open>The zero bytes behind the words, in the buffer of the line.\<close>

fun nulterminate :: "cmd \<Rightarrow> u8 list \<Rightarrow> u8 list" where
  "nulterminate (EXEC args) buf = fold (\<lambda>(q, eq) b. b[eq := 0]) args buf"
| "nulterminate (REDIR c (q, eq) mode fd) buf = (nulterminate c buf)[eq := 0]"
| "nulterminate (PIPE l r) buf = nulterminate r (nulterminate l buf)"
| "nulterminate (LIST l r) buf = nulterminate r (nulterminate l buf)"
| "nulterminate (BACK c) buf = nulterminate c buf"

text \<open>The command and the buffer that its pointers point into.\<close>

definition parsecmd :: "cstr \<Rightarrow> (syntax_error, cmd \<times> u8 list) run" where
  "parsecmd s =
     (let es = length s in
      and_then (parseline (8 * es + 8) es s) (\<lambda>(c, ps).
        case peek {} ps of (_, ps) \<Rightarrow>
          if ps \<noteq> [] then Exit Leftovers else Ok (c, nulterminate c (s @ [0]))))"

end
