(* ===== verification/ShWords.thy ===== *)
theory ShWords imports ShParse
begin

text \<open>
  What the xv6 shell's parser delivers: it returns for every line, and the words of a parsed command
  are the words of the line.
\<close>

section \<open>The tokens of a line\<close>

text \<open>A maximal run of word characters.\<close>

definition tok_ok :: "cstr \<Rightarrow> word_pos \<Rightarrow> bool" where
  "tok_ok s w = (case w of (q, eq) \<Rightarrow> q < eq \<and> eq \<le> length s \<and> (\<forall>i. q \<le> i \<and> i < eq \<longrightarrow> word_char (s ! i)) \<and>
     (eq < length s \<longrightarrow> \<not> word_char (s ! eq)))"

lemma suffix_skip: "suffix (skip ps) ps"
  by (simp add: skip_def suffix_dropWhile)

lemma peek_skip: "peek toks ps = (b, ps') \<Longrightarrow> ps' = skip ps \<and> (b \<longrightarrow> ps' \<noteq> [])"
  by (cases "skip ps") (simp_all add: peek_def Let_def, blast)

lemma skip_head: "skip ps = c # cs \<Longrightarrow> c \<notin> whitespace"
  unfolding skip_def by (metis hd_dropWhile list.distinct(1) list.sel(1))

lemma skip_skip [simp]: "skip (skip ps) = skip ps"
  by (simp add: skip_def dropWhile_idem)

lemma word_run:
  assumes "suffix r s" "r = c # cs" "word_char c"
  shows "tok_ok s (length s - length r, length s - length (dropWhile word_char r))"
proof -
  let ?w = "takeWhile word_char r" and ?t = "dropWhile word_char r"
  obtain pre where pre: "s = pre @ r" using assms(1) by (auto simp: suffix_def)
  have r: "r = ?w @ ?t" by simp
  have lr: "length r = length ?w + length ?t" by (subst (1) r) (rule length_append)
  have l: "length s - length r = length pre" "length s - length ?t = length pre + length ?w"
    using pre lr by simp_all
  have wl: "0 < length ?w" using assms(2,3) by simp
  have le: "length pre + length ?w \<le> length s" using pre lr by simp
  have ch: "word_char (s ! i)" if "length pre \<le> i" "i < length pre + length ?w" for i
  proof -
    have lt: "i - length pre < length ?w" using that by simp
    have "s ! i = r ! (i - length pre)" using that(1) pre by (simp add: nth_append)
    also have "\<dots> = ?w ! (i - length pre)" using takeWhile_nth [OF lt] by simp
    also have "\<dots> \<in> set ?w" using lt by (rule nth_mem)
    finally show ?thesis by (rule set_takeWhileD [THEN conjunct2])
  qed
  have "\<not> word_char (s ! (length pre + length ?w))" if "length pre + length ?w < length s"
  proof -
    have "s ! (length pre + length ?w) = r ! length ?w" by (simp add: pre nth_append)
    moreover have "length ?w < length r" using that pre by simp
    ultimately show ?thesis using nth_length_takeWhile by metis
  qed
  with wl le ch show ?thesis by (simp add: tok_ok_def l)
qed

lemma gettoken_ok:
  assumes "gettoken (length s) ps = (ret, w, ps')" "suffix ps s"
  shows "suffix ps' ps" "ret = 97 \<Longrightarrow> tok_ok s w" "skip ps \<noteq> [] \<Longrightarrow> length ps' < length ps"
    "ret \<noteq> 0 \<Longrightarrow> length ps' < length ps"
proof -
  let ?s = "skip ps"
  have suf: "suffix ?s s" by (rule suffix_order.trans [OF suffix_skip assms(2)])
  have le: "length ?s \<le> length ps" using suffix_skip by (rule suffix_length_le)
  define t where "t = (case ?s of [] \<Rightarrow> [] | c # cs \<Rightarrow>
    if c = 124 \<or> c = 40 \<or> c = 41 \<or> c = 59 \<or> c = 38 \<or> c = 60 then cs
    else if c = 62 then (case cs of [] \<Rightarrow> [] | d # ds \<Rightarrow> if d = 62 then ds else d # ds)
    else dropWhile word_char ?s)"
  have ps': "ps' = skip t"
    using assms(1) unfolding gettoken_def t_def Let_def by (auto split: list.splits if_splits)
  have wc: "word_char c" if "?s = c # cs" "\<not> (c = 124 \<or> c = 40 \<or> c = 41 \<or> c = 59 \<or> c = 38 \<or> c = 60)" "c \<noteq> 62" for c cs
    using that skip_head [OF that(1)] by (simp add: word_char_def symbols_def)
  have t: "suffix t ?s \<and> (?s \<noteq> [] \<longrightarrow> length t < length ?s)"
  proof (cases ?s)
    case (Cons c cs)
    then show ?thesis
      using wc [OF Cons] le_imp_less_Suc [OF length_dropWhile_le [of word_char cs]]
      by (auto simp: t_def suffix_dropWhile suffix_Cons split: list.splits)
  qed (simp add: t_def)
  then have "suffix ps' ?s" using ps' suffix_order.trans [OF suffix_skip] by blast
  then show "suffix ps' ps" by (rule suffix_order.trans [OF _ suffix_skip])
  have lt: "length ps' \<le> length t" using ps' suffix_length_le [OF suffix_skip] by simp
  then show l: "skip ps \<noteq> [] \<Longrightarrow> length ps' < length ps" using t le by auto
  show "ret \<noteq> 0 \<Longrightarrow> length ps' < length ps"
    by (rule l) (use assms(1) in \<open>auto simp: gettoken_def\<close>)
  show "tok_ok s w" if "ret = 97"
  proof (cases ?s)
    case Nil
    with assms(1) that show ?thesis by (simp add: gettoken_def)
  next
    case (Cons c cs)
    have n: "\<not> (c = 124 \<or> c = 40 \<or> c = 41 \<or> c = 59 \<or> c = 38 \<or> c = 60)" "c \<noteq> 62"
      using assms(1) Cons that by (auto simp: gettoken_def Let_def split: list.splits if_splits)
    then have "w = (length s - length ?s, length s - length (dropWhile word_char ?s))"
      using assms(1) Cons by (auto simp: gettoken_def Let_def)
    with word_run [OF suf Cons wc [OF Cons n]] show ?thesis by simp
  qed
qed

section \<open>What the parser returns\<close>

definition yields :: "('e, 'a) run \<Rightarrow> ('a \<Rightarrow> bool) \<Rightarrow> bool" where
  "yields r P \<longleftrightarrow> (case r of Ok a \<Rightarrow> P a | Exit e \<Rightarrow> True | Crash \<Rightarrow> False | Hang \<Rightarrow> False)"

lemma yields_simps [simp]: "yields (Ok a) P \<longleftrightarrow> P a" "yields (Exit e) P" "\<not> yields Hang P" "\<not> yields Crash P"
  by (simp_all add: yields_def)

lemma yields_and_then: "yields r P \<Longrightarrow> (\<And>a. P a \<Longrightarrow> yields (f a) Q) \<Longrightarrow> yields (and_then r f) Q"
  by (cases r) auto

lemma yields_mono: "yields r P \<Longrightarrow> (\<And>a. P a \<Longrightarrow> Q a) \<Longrightarrow> yields r Q"
  by (cases r) auto

text \<open>The words of a command; every argument list is short; the number of arguments that \<open>add_arg\<close>
  adds to.\<close>

fun cmd_words :: "cmd \<Rightarrow> word_pos set" where
  "cmd_words (EXEC args) = set args"
| "cmd_words (REDIR c w mode fd) = insert w (cmd_words c)"
| "cmd_words (PIPE l r) = cmd_words l \<union> cmd_words r"
| "cmd_words (LIST l r) = cmd_words l \<union> cmd_words r"
| "cmd_words (BACK c) = cmd_words c"

fun few_args :: "cmd \<Rightarrow> bool" where
  "few_args (EXEC args) \<longleftrightarrow> length args < MAXARGS"
| "few_args (REDIR c w mode fd) \<longleftrightarrow> few_args c"
| "few_args (PIPE l r) \<longleftrightarrow> few_args l \<and> few_args r"
| "few_args (LIST l r) \<longleftrightarrow> few_args l \<and> few_args r"
| "few_args (BACK c) \<longleftrightarrow> few_args c"

fun simple_args :: "cmd \<Rightarrow> nat \<Rightarrow> bool" where
  "simple_args (EXEC args) n \<longleftrightarrow> length args = n"
| "simple_args (REDIR c w mode fd) n \<longleftrightarrow> simple_args c n"
| "simple_args c n \<longleftrightarrow> False"

definition cmd_ok :: "cstr \<Rightarrow> cmd \<Rightarrow> bool" where
  "cmd_ok s c \<longleftrightarrow> few_args c \<and> (\<forall>w \<in> cmd_words c. tok_ok s w)"

lemma add_arg_ok:
  "simple_args c n \<Longrightarrow> n + 1 < MAXARGS \<Longrightarrow> cmd_ok s c \<Longrightarrow> tok_ok s w \<Longrightarrow>
   simple_args (add_arg w c) (n + 1) \<and> cmd_ok s (add_arg w c)"
  by (induction c) (auto simp: cmd_ok_def)

lemma parseredirs_ok:
  "suffix ps s \<Longrightarrow> length ps < n \<Longrightarrow> cmd_ok s c \<Longrightarrow>
   yields (parseredirs n (length s) c ps) (\<lambda>(c', ps'). suffix ps' ps \<and> cmd_ok s c' \<and>
     (\<forall>k. simple_args c k \<longrightarrow> simple_args c' k))"
proof (induction n arbitrary: c ps)
  case (Suc n)
  obtain b p1 where pk: "peek {60, 62} ps = (b, p1)" by fastforce
  note p1 = peek_skip [OF pk]
  have s1: "suffix p1 ps" using p1 suffix_skip by simp
  have s1': "suffix p1 s" by (rule suffix_order.trans [OF s1 Suc.prems(1)])
  show ?case
  proof (cases b)
    case True
    obtain tok w2 p2 where g1: "gettoken (length s) p1 = (tok, w2, p2)" using prod_cases3 by blast
    obtain kind w p3 where g2: "gettoken (length s) p2 = (kind, w, p3)" using prod_cases3 by blast
    have ne: "skip p1 \<noteq> []" using p1 True by (metis skip_skip)
    note o1 = gettoken_ok [OF g1 s1']
    have s2: "suffix p2 s" by (rule suffix_order.trans [OF o1(1) s1'])
    note o2 = gettoken_ok [OF g2 s2]
    have len: "length p3 < n"
      using suffix_length_le [OF s1] o1(3) [OF ne] suffix_length_le [OF o2(1)] Suc.prems(2) by linarith
    have s3: "suffix p3 ps" using o2(1) o1(1) s1 suffix_order.trans by blast
    let ?c = "if tok = 60 then REDIR c w 0 0 else if tok = 62 \<or> tok = 43 then REDIR c w 0x201 1 else c"
    show ?thesis
    proof (cases "kind = 97")
      case k: True
      have c: "cmd_ok s ?c" using Suc.prems(3) o2(2) [OF k] by (simp add: cmd_ok_def)
      have "yields (parseredirs n (length s) ?c p3) (\<lambda>(c', ps'). suffix ps' p3 \<and> cmd_ok s c' \<and>
          (\<forall>k. simple_args ?c k \<longrightarrow> simple_args c' k))"
        by (rule Suc.IH [OF suffix_order.trans [OF s3 Suc.prems(1)] len c])
      then have "yields (parseredirs n (length s) ?c p3) (\<lambda>(c', ps'). suffix ps' ps \<and> cmd_ok s c' \<and>
          (\<forall>k. simple_args c k \<longrightarrow> simple_args c' k))"
        by (rule yields_mono) (use s3 suffix_order.trans in \<open>auto split: if_splits\<close>)
      then show ?thesis using pk True g1 g2 k by simp
    qed (use pk True g1 g2 in simp)
  qed (use pk s1 Suc.prems(3) in simp)
qed simp

lemma exec_loop_ok:
  "suffix ps s \<Longrightarrow> length ps < n \<Longrightarrow> cmd_ok s c \<Longrightarrow> simple_args c k \<Longrightarrow>
   yields (exec_loop n (length s) k c ps) (\<lambda>(c', ps'). suffix ps' ps \<and> cmd_ok s c')"
proof (induction n arbitrary: k c ps)
  case (Suc n)
  obtain b p1 where pk: "peek {124, 41, 38, 59} ps = (b, p1)" by fastforce
  note p1 = peek_skip [OF pk]
  have s1: "suffix p1 ps" using p1 suffix_skip by simp
  have s1': "suffix p1 s" by (rule suffix_order.trans [OF s1 Suc.prems(1)])
  show ?case
  proof (cases b)
    case False
    obtain tok w p2 where g1: "gettoken (length s) p1 = (tok, w, p2)" using prod_cases3 by blast
    note o1 = gettoken_ok [OF g1 s1']
    have s2: "suffix p2 ps" by (rule suffix_order.trans [OF o1(1) s1])
    have s2': "suffix p2 s" by (rule suffix_order.trans [OF s2 Suc.prems(1)])
    show ?thesis
    proof (cases "tok = 97 \<and> k + 1 < MAXARGS")
      case True
      have len: "length p2 < n" using o1(4) True suffix_length_le [OF s1] Suc.prems(2) by simp
      note a = add_arg_ok [OF Suc.prems(4) _ Suc.prems(3) o1(2)]
      have ac: "simple_args (add_arg w c) (k + 1)" "cmd_ok s (add_arg w c)" using a True by blast+
      have "yields (and_then (parseredirs n (length s) (add_arg w c) p2) (\<lambda>(c, ps). exec_loop n (length s) (k + 1) c ps))
        (\<lambda>(c', ps'). suffix ps' ps \<and> cmd_ok s c')"
      proof (rule yields_and_then [OF parseredirs_ok [OF s2' len ac(2)]])
        fix r assume "case r of (c', ps') \<Rightarrow> suffix ps' p2 \<and> cmd_ok s c' \<and> (\<forall>k. simple_args (add_arg w c) k \<longrightarrow> simple_args c' k)"
        then obtain c' p3 where r: "r = (c', p3)" "suffix p3 p2" "cmd_ok s c'" "simple_args c' (k + 1)"
          using ac(1) by (cases r) auto
        have "yields (exec_loop n (length s) (k + 1) c' p3) (\<lambda>(c'', ps'). suffix ps' p3 \<and> cmd_ok s c'')"
          by (rule Suc.IH [OF suffix_order.trans [OF r(2) s2'] _ r(3,4)])
            (use len suffix_length_le [OF r(2)] in linarith)
        then have "yields (exec_loop n (length s) (k + 1) c' p3) (\<lambda>(c'', ps'). suffix ps' ps \<and> cmd_ok s c'')"
          by (rule yields_mono) (use r(2) s2 suffix_order.trans in blast)
        then show "yields (case r of (c, ps) \<Rightarrow> exec_loop n (length s) (k + 1) c ps) (\<lambda>(c', ps'). suffix ps' ps \<and> cmd_ok s c')"
          by (simp add: r(1))
      qed
      then show ?thesis using pk False g1 True by simp
    next
      case no: False
      then show ?thesis using pk False g1 s2 Suc.prems(3) by auto
    qed
  qed (use pk s1 Suc.prems(3) in simp)
qed simp

lemma back_loop_ok:
  "suffix ps s \<Longrightarrow> length ps < n \<Longrightarrow> cmd_ok s c \<Longrightarrow>
   yields (back_loop n (length s) c ps) (\<lambda>(c', ps'). suffix ps' ps \<and> cmd_ok s c')"
proof (induction n arbitrary: c ps)
  case (Suc n)
  obtain b p1 where pk: "peek {38} ps = (b, p1)" by fastforce
  note p1 = peek_skip [OF pk]
  have s1: "suffix p1 ps" using p1 suffix_skip by simp
  have s1': "suffix p1 s" by (rule suffix_order.trans [OF s1 Suc.prems(1)])
  show ?case
  proof (cases b)
    case True
    obtain tok w p2 where g1: "gettoken (length s) p1 = (tok, w, p2)" using prod_cases3 by blast
    note o1 = gettoken_ok [OF g1 s1']
    have s2: "suffix p2 ps" by (rule suffix_order.trans [OF o1(1) s1])
    have "skip p1 \<noteq> []" using p1 True by (metis skip_skip)
    then have "length p2 < n" using o1(3) suffix_length_le [OF s1] Suc.prems(2) by simp
    moreover have "cmd_ok s (BACK c)" using Suc.prems(3) by (simp add: cmd_ok_def)
    ultimately have "yields (back_loop n (length s) (BACK c) p2) (\<lambda>(c', ps'). suffix ps' p2 \<and> cmd_ok s c')"
      by (intro Suc.IH suffix_order.trans [OF s2 Suc.prems(1)])
    then have "yields (back_loop n (length s) (BACK c) p2) (\<lambda>(c', ps'). suffix ps' ps \<and> cmd_ok s c')"
      by (rule yields_mono) (use s2 suffix_order.trans in blast)
    then show ?thesis using pk True g1 by simp
  qed (use pk s1 Suc.prems(3) in simp)
qed simp

text \<open>A single character in front of the rest: the token that \<open>peek\<close> has seen.\<close>

lemma after_peek:
  assumes "peek toks ps = (b, p1)" "b" "gettoken (length s) p1 = (tok, w, p2)" "suffix ps s"
  shows "suffix p2 ps" "length p2 < length ps" "suffix p2 s"
proof -
  note p1 = peek_skip [OF assms(1)]
  have s1: "suffix p1 ps" using p1 suffix_skip by simp
  note o1 = gettoken_ok [OF assms(3) suffix_order.trans [OF s1 assms(4)]]
  have "skip p1 \<noteq> []" using p1 assms(2) by (metis skip_skip)
  then show "length p2 < length ps" using o1(3) suffix_length_le [OF s1] by simp
  show "suffix p2 ps" by (rule suffix_order.trans [OF o1(1) s1])
  then show "suffix p2 s" by (rule suffix_order.trans [OF _ assms(4)])
qed

lemma peek_suffix: "peek toks ps = (b, p1) \<Longrightarrow> suffix p1 ps"
  using peek_skip suffix_skip by metis

abbreviation parsed :: "cstr \<Rightarrow> cstr \<Rightarrow> cmd \<times> cstr \<Rightarrow> bool" where
  "parsed s ps r \<equiv> case r of (c, ps') \<Rightarrow> suffix ps' ps \<and> cmd_ok s c"

lemma parsed_mono: "yields r (parsed s p2) \<Longrightarrow> suffix p2 ps \<Longrightarrow> yields r (parsed s ps)"
  by (erule yields_mono) (use suffix_order.trans in blast)

lemma block_step:
  assumes sps: "suffix ps s" and len: "length ps \<le> n"
    and line: "\<And>p2. suffix p2 s \<Longrightarrow> length p2 < length ps \<Longrightarrow> yields (parseline n (length s) p2) (parsed s p2)"
  shows "yields (parseblock (Suc n) (length s) ps) (parsed s ps)"
proof -
  obtain b p1 where pk: "peek {40} ps = (b, p1)" by fastforce
  obtain tok w p2 where g: "gettoken (length s) p1 = (tok, w, p2)" using prod_cases3 by blast
  show ?thesis
  proof (cases b)
    case True
    note a = after_peek [OF pk True g sps]
    have "yields (and_then (parseline n (length s) p2) (\<lambda>(c, ps). case peek {41} ps of (False, ps) \<Rightarrow> Exit MissingParen
        | (True, ps) \<Rightarrow> (let (_, _, ps) = gettoken (length s) ps in parseredirs n (length s) c ps))) (parsed s ps)"
    proof (rule yields_and_then [OF line [OF a(3,2)]])
      fix r assume "parsed s p2 r"
      then obtain c p3 where r: "r = (c, p3)" "suffix p3 p2" "cmd_ok s c" by (cases r) auto
      have s3: "suffix p3 s" by (rule suffix_order.trans [OF r(2) a(3)])
      obtain b' p4 where pk': "peek {41} p3 = (b', p4)" by fastforce
      obtain tok' w' p5 where g': "gettoken (length s) p4 = (tok', w', p5)" using prod_cases3 by blast
      show "yields (case r of (c, ps) \<Rightarrow> case peek {41} ps of (False, ps) \<Rightarrow> Exit MissingParen
        | (True, ps) \<Rightarrow> (let (_, _, ps) = gettoken (length s) ps in parseredirs n (length s) c ps)) (parsed s ps)"
      proof (cases b')
        case True
        note a' = after_peek [OF pk' True g' s3]
        have "length p5 < n" using a'(2) suffix_length_le [OF r(2)] a(2) len by linarith
        then have "yields (parseredirs n (length s) c p5) (parsed s p5)"
          by (rule yields_mono [OF parseredirs_ok [OF a'(3) _ r(3)]]) auto
        moreover have "suffix p5 ps" using a'(1) r(2) a(1) suffix_order.trans by blast
        ultimately show ?thesis using pk' g' True by (simp add: r(1) parsed_mono)
      qed (use pk' r(1) in simp)
    qed
    then show ?thesis using pk g True by simp
  qed (use pk in simp)
qed

lemma exec_step:
  assumes sps: "suffix ps s" and len: "length ps < n"
    and block: "yields (parseblock n (length s) (skip ps)) (parsed s (skip ps))"
  shows "yields (parseexec (Suc n) (length s) ps) (parsed s ps)"
proof -
  obtain b p1 where pk: "peek {40} ps = (b, p1)" by fastforce
  have s1: "suffix p1 ps" by (rule peek_suffix [OF pk])
  have s1': "suffix p1 s" by (rule suffix_order.trans [OF s1 sps])
  show ?thesis
  proof (cases b)
    case True
    then show ?thesis using pk block peek_skip [OF pk] parsed_mono [OF block suffix_skip] by simp
  next
    case False
    have e: "cmd_ok s (EXEC [])" "simple_args (EXEC []) 0" by (simp_all add: cmd_ok_def MAXARGS_def)
    have l1: "length p1 < n" using suffix_length_le [OF s1] len by linarith
    have "yields (and_then (parseredirs n (length s) (EXEC []) p1) (\<lambda>(ret, ps). exec_loop n (length s) 0 ret ps)) (parsed s ps)"
    proof (rule yields_and_then [OF parseredirs_ok [OF s1' l1 e(1)]])
      fix r assume "case r of (c', ps') \<Rightarrow> suffix ps' p1 \<and> cmd_ok s c' \<and> (\<forall>k. simple_args (EXEC []) k \<longrightarrow> simple_args c' k)"
      then obtain c p2 where r: "r = (c, p2)" "suffix p2 p1" "cmd_ok s c" "simple_args c 0"
        using e(2) by (cases r) blast
      have "length p2 < n" using suffix_length_le [OF r(2)] l1 by linarith
      from exec_loop_ok [OF suffix_order.trans [OF r(2) s1'] this r(3,4)]
      have "yields (exec_loop n (length s) 0 c p2) (parsed s p2)" .
      from parsed_mono [OF this suffix_order.trans [OF r(2) s1]]
      show "yields (case r of (ret, ps) \<Rightarrow> exec_loop n (length s) 0 ret ps) (parsed s ps)" by (simp add: r(1))
    qed
    then show ?thesis using pk False by simp
  qed
qed

text \<open>A command, a separator, and the rest of the line.\<close>

lemma pair_step:
  assumes sps: "suffix ps s" and first: "yields r (parsed s ps)"
    and rest: "\<And>p2. suffix p2 s \<Longrightarrow> length p2 < length ps \<Longrightarrow> yields (next p2) (parsed s p2)"
    and join: "\<And>c c2. cmd_ok s c \<Longrightarrow> cmd_ok s c2 \<Longrightarrow> cmd_ok s (J c c2)"
  shows "yields (and_then r (\<lambda>(c, ps). case peek toks ps of (False, ps) \<Rightarrow> Ok (c, ps)
    | (True, ps) \<Rightarrow> (let (_, _, ps) = gettoken (length s) ps in and_then (next ps) (\<lambda>(c2, ps). Ok (J c c2, ps)))))
    (parsed s ps)"
proof (rule yields_and_then [OF first])
  fix a assume "parsed s ps a"
  then obtain c p1 where a: "a = (c, p1)" "suffix p1 ps" "cmd_ok s c" by (cases a) auto
  have s1: "suffix p1 s" by (rule suffix_order.trans [OF a(2) sps])
  obtain b p2 where pk: "peek toks p1 = (b, p2)" by fastforce
  obtain tok w p3 where g: "gettoken (length s) p2 = (tok, w, p3)" using prod_cases3 by blast
  show "yields (case a of (c, ps) \<Rightarrow> case peek toks ps of (False, ps) \<Rightarrow> Ok (c, ps)
    | (True, ps) \<Rightarrow> (let (_, _, ps) = gettoken (length s) ps in and_then (next ps) (\<lambda>(c2, ps). Ok (J c c2, ps))))
    (parsed s ps)"
  proof (cases b)
    case False
    then show ?thesis using pk a suffix_order.trans [OF peek_suffix [OF pk] a(2)] by simp
  next
    case True
    note p = after_peek [OF pk True g s1]
    have l: "length p3 < length ps" using p(2) suffix_length_le [OF a(2)] by linarith
    have "yields (and_then (next p3) (\<lambda>(c2, ps). Ok (J c c2, ps))) (parsed s p3)"
      by (rule yields_and_then [OF rest [OF p(3) l]]) (use join [OF a(3)] in auto)
    from parsed_mono [OF this suffix_order.trans [OF p(1) a(2)]] show ?thesis using pk g True a(1) by simp
  qed
qed

lemma parse_ok:
  "suffix ps s \<Longrightarrow>
   (4 * length ps + 4 \<le> n \<longrightarrow> yields (parseline n (length s) ps) (parsed s ps)) \<and>
   (4 * length ps + 3 \<le> n \<longrightarrow> yields (parsepipe n (length s) ps) (parsed s ps)) \<and>
   (4 * length ps + 2 \<le> n \<longrightarrow> yields (parseexec n (length s) ps) (parsed s ps)) \<and>
   (4 * length ps + 1 \<le> n \<longrightarrow> yields (parseblock n (length s) ps) (parsed s ps))"
proof (induction n arbitrary: ps)
  case (Suc n)
  note IH = Suc.IH and sps = Suc.prems
  have shorter: "4 * length p2 + 4 \<le> 4 * length ps" if "length p2 < length ps" for p2 using that by linarith
  have line: "yields (parseline (Suc n) (length s) ps) (parsed s ps)" if n: "4 * length ps + 4 \<le> Suc n"
  proof -
    have pipe: "yields (parsepipe n (length s) ps) (parsed s ps)" using IH [OF sps] n by simp
    have amp: "yields (and_then (parsepipe n (length s) ps) (\<lambda>(c, ps). back_loop n (length s) c ps)) (parsed s ps)"
    proof (rule yields_and_then [OF pipe])
      fix a assume "parsed s ps a"
      then obtain c p1 where a: "a = (c, p1)" "suffix p1 ps" "cmd_ok s c" by (cases a) auto
      have "length p1 < n" using suffix_length_le [OF a(2)] n by linarith
      from back_loop_ok [OF suffix_order.trans [OF a(2) sps] this a(3)]
      have "yields (back_loop n (length s) c p1) (parsed s p1)" .
      from parsed_mono [OF this a(2)] show "yields (case a of (c, ps) \<Rightarrow> back_loop n (length s) c ps) (parsed s ps)"
        by (simp add: a(1))
    qed
    have rest: "yields (parseline n (length s) p2) (parsed s p2)" if "suffix p2 s" "length p2 < length ps" for p2
      using IH [OF that(1)] shorter [OF that(2)] n by simp
    have eq: "parseline (Suc n) (length s) ps = and_then
      (and_then (parsepipe n (length s) ps) (\<lambda>(c, ps). back_loop n (length s) c ps))
      (\<lambda>(c, ps). case peek {59} ps of (False, ps) \<Rightarrow> Ok (c, ps)
       | (True, ps) \<Rightarrow> (let (_, _, ps) = gettoken (length s) ps in
           and_then (parseline n (length s) ps) (\<lambda>(c2, ps). Ok (LIST c c2, ps))))"
      by (cases "parsepipe n (length s) ps") auto
    show ?thesis unfolding eq by (rule pair_step [OF sps amp rest]) (auto simp: cmd_ok_def)
  qed
  have pipe: "yields (parsepipe (Suc n) (length s) ps) (parsed s ps)" if n: "4 * length ps + 3 \<le> Suc n"
  proof -
    have ex: "yields (parseexec n (length s) ps) (parsed s ps)" using IH [OF sps] n by simp
    have rest: "yields (parsepipe n (length s) p2) (parsed s p2)" if "suffix p2 s" "length p2 < length ps" for p2
      using IH [OF that(1)] shorter [OF that(2)] n by simp
    show ?thesis unfolding parsepipe.simps by (rule pair_step [OF sps ex rest]) (auto simp: cmd_ok_def)
  qed
  have ex: "yields (parseexec (Suc n) (length s) ps) (parsed s ps)" if n: "4 * length ps + 2 \<le> Suc n"
  proof (rule exec_step [OF sps])
    show "length ps < n" using n by linarith
    have "4 * length (skip ps) + 1 \<le> n" using n suffix_length_le [OF suffix_skip [of ps]] by linarith
    then show "yields (parseblock n (length s) (skip ps)) (parsed s (skip ps))"
      using IH [OF suffix_order.trans [OF suffix_skip sps]] by blast
  qed
  have "yields (parseblock (Suc n) (length s) ps) (parsed s ps)" if n: "4 * length ps + 1 \<le> Suc n"
  proof (rule block_step [OF sps])
    show "length ps \<le> n" using n by linarith
    show "yields (parseline n (length s) p2) (parsed s p2)" if "suffix p2 s" "length p2 < length ps" for p2
      using IH [OF that(1)] shorter [OF that(2)] n by simp
  qed
  with line pipe ex show ?case by blast
qed simp

lemma parsecmd_yields:
  "yields (parsecmd s) (\<lambda>(c, buf). cmd_ok s c \<and> buf = nulterminate c (s @ [0]))"
proof -
  have "yields (parseline (8 * length s + 8) (length s) s) (parsed s s)"
    using parse_ok [of s s "8 * length s + 8"] by simp
  then show ?thesis
    unfolding parsecmd_def Let_def by (rule yields_and_then) (auto simp: peek_def Let_def split: list.splits)
qed

section \<open>The buffer with the words cut off\<close>




section \<open>Properties\<close>

text \<open>C30.  The parser returns for every line: the fuel it starts with is always enough, so it delivers a
  command or calls \<open>panic\<close>.\<close>

theorem parsecmd_ends: "parsecmd s \<noteq> Hang \<and> parsecmd s \<noteq> Crash"
  using parsecmd_yields [of s] by (cases "parsecmd s") auto



end
