(* ===== verification/ULib.thy ===== *)
theory ULib imports KString CLib
begin

text \<open>
  The user library of xv6 (\<open>user/ulib.c\<close>).  A pointer into a string is the list of the bytes from
  there to the end of its object; \<open>None\<close> is an access past that end, or a signed overflow.
\<close>

section \<open>Definitions\<close>

fun strcpy :: "u8 list \<Rightarrow> u8 list \<Rightarrow> u8 list option" where
  "strcpy (x # s) (b # t) = (if b = 0 then Some (0 # s) else map_option (Cons b) (strcpy s t))"
| "strcpy _ _ = None"

fun strcmp :: "u8 list \<Rightarrow> u8 list \<Rightarrow> int option" where
  "strcmp (a # p) (b # q) = (if a \<noteq> 0 \<and> a = b then strcmp p q else Some (uint a - uint b))"
| "strcmp _ _ = None"

definition ulib_strlen :: "u8 list \<Rightarrow> nat option" where
  "ulib_strlen s = KString.strlen s"

text \<open>\<open>strchr\<close>: the distance of the character that it finds, or \<open>Some None\<close> for the null pointer.\<close>

fun strchr :: "u8 list \<Rightarrow> u8 \<Rightarrow> nat option option" where
  "strchr [] c = None"
| "strchr (b # s) c =
     (if b = 0 then Some None else if b = c then Some (Some 0) else map_option (map_option Suc) (strchr s c))"

text \<open>\<open>gets\<close> on the bytes that the reads of descriptor 0 return; \<open>n\<close> bytes still fit.\<close>

fun gets_loop :: "nat \<Rightarrow> u8 list \<Rightarrow> u8 list \<times> u8 list" where
  "gets_loop (Suc n) (c # inp) =
     (if c = 10 \<or> c = 13 then ([c], inp) else (let (line, rest) = gets_loop n inp in (c # line, rest)))"
| "gets_loop _ inp = ([], inp)"

definition gets :: "u8 list \<Rightarrow> int \<Rightarrow> u8 list \<Rightarrow> (u8 list \<times> u8 list) option" where
  "gets buf sz inp =
     (let (line, rest) = gets_loop (nat (sz - 1)) inp in
      if length buf < length line + 1 then None
      else Some (line @ 0 # drop (length line + 1) buf, rest))"

fun ulib_atoi_loop :: "int \<Rightarrow> u8 list \<Rightarrow> int option" where
  "ulib_atoi_loop n [] = None"
| "ulib_atoi_loop n (c # s) =
     (if 48 \<le> c \<and> c \<le> 57
      then (if n * 10 + uint c < 2 ^ 31 then ulib_atoi_loop (n * 10 + uint c - 48) s else None)
      else Some n)"

definition ulib_atoi :: "u8 list \<Rightarrow> int option" where
  "ulib_atoi s = ulib_atoi_loop 0 s"

text \<open>\<open>memmove\<close> always copies upwards, within one object.\<close>

fun ulib_memmove :: "u8 list \<Rightarrow> nat \<Rightarrow> nat \<Rightarrow> nat \<Rightarrow> u8 list option" where
  "ulib_memmove m d s 0 = Some m"
| "ulib_memmove m d s (Suc n) =
     (if d < length m \<and> s < length m then ulib_memmove (m[d := m ! s]) (Suc d) (Suc s) n else None)"

section \<open>Lemmas\<close>

lemma strcpy_cstr: "0 \<in> set t \<Longrightarrow> length (KString.cstr t) < length s \<Longrightarrow>
    strcpy s t = Some (KString.cstr t @ 0 # drop (length (KString.cstr t) + 1) s)"
  by (induction s t rule: strcpy.induct) (auto simp: cstr_def)

lemma strcmp_eq_0: "0 \<in> set p \<Longrightarrow> 0 \<in> set q \<Longrightarrow> strcmp p q = Some 0 \<longleftrightarrow> KString.cstr p = KString.cstr q"
  by (induction p q rule: strcmp.induct) (auto simp: cstr_def uint_0_iff)

lemma strchr_found: "c \<notin> set xs \<Longrightarrow> 0 \<notin> set xs \<Longrightarrow> c \<noteq> 0 \<Longrightarrow> strchr (xs @ c # ys) c = Some (Some (length xs))"
  by (induction xs) auto

lemma strchr_none: "c \<notin> set xs \<Longrightarrow> 0 \<notin> set xs \<Longrightarrow> strchr (xs @ 0 # ys) c = Some None"
  by (induction xs) auto

lemma strchr_bound: "strchr s c = Some (Some k) \<Longrightarrow> k < length s"
  by (induction s arbitrary: k) (auto split: if_splits)

lemma gets_loop_split: "gets_loop n inp = (line, rest) \<Longrightarrow> inp = line @ rest \<and> length line \<le> n"
  by (induction n inp arbitrary: line rule: gets_loop.induct) (auto split: if_splits prod.splits)

lemma ulib_memmove_down:
  "d \<le> s \<Longrightarrow> s + n \<le> length m \<Longrightarrow>
   ulib_memmove m d s n = Some (take d m @ take n (drop s m) @ drop (d + n) m)"
proof (induction m d s n rule: ulib_memmove.induct)
  case (2 m d s n)
  have l: "d < length m" "s < length m" using 2(2,3) by auto
  have "take (Suc d) (m[d := m ! s]) = take d m @ [m ! s]"
    using l by (simp add: take_Suc_conv_app_nth)
  moreover have "drop (Suc s) (m[d := m ! s]) = drop (Suc s) m" using 2(2) by simp
  moreover have "drop (Suc d + n) (m[d := m ! s]) = drop (d + Suc n) m" by simp
  moreover have "take (Suc n) (drop s m) = m ! s # take n (drop (Suc s) m)"
    using l by (simp add: Cons_nth_drop_Suc [symmetric])
  ultimately show ?case using 2 l by simp
qed simp

end
