(* ===== verification/Grep.thy ===== *)
theory Grep imports ULib
begin

text \<open>
  The pattern matcher of xv6 (\<open>user/grep.c\<close>) and the program around it.  Pattern and line are strings
  without their final zero.  The descriptor delivers its bytes in pieces, one for each \<open>read\<close> that
  has enough room; a regular file is one piece.
\<close>

section \<open>The matcher\<close>

function matchhere :: "cstr \<Rightarrow> cstr \<Rightarrow> bool" and matchstar :: "u8 \<Rightarrow> cstr \<Rightarrow> cstr \<Rightarrow> bool" where
  "matchhere re line =
     (case re of
        [] \<Rightarrow> True
      | c # re' \<Rightarrow>
          if re' \<noteq> [] \<and> hd re' = 42 then matchstar c (tl re') line
          else if c = 36 \<and> re' = [] then line = []
          else (case line of [] \<Rightarrow> False | b # bs \<Rightarrow> (c = 46 \<or> c = b) \<and> matchhere re' bs))"
| "matchstar c re line =
     (matchhere re line \<or>
      (case line of [] \<Rightarrow> False | b # bs \<Rightarrow> (b = c \<or> c = 46) \<and> matchstar c re bs))"
  by pat_completeness auto
termination
  by (relation "measures [\<lambda>x. case x of Inl (re, line) \<Rightarrow> length re | Inr (c, re, line) \<Rightarrow> Suc (length re),
        \<lambda>x. case x of Inl (re, line) \<Rightarrow> length line | Inr (c, re, line) \<Rightarrow> length line]")
    (auto simp: neq_Nil_conv)

declare matchhere.simps [simp del] matchstar.simps [simp del]

fun match_from :: "cstr \<Rightarrow> cstr \<Rightarrow> bool" where
  "match_from re line = (matchhere re line \<or> (case line of [] \<Rightarrow> False | b # bs \<Rightarrow> match_from re bs))"

declare match_from.simps [simp del]

definition match :: "cstr \<Rightarrow> cstr \<Rightarrow> bool" where
  "match re line = (if re \<noteq> [] \<and> hd re = 94 then matchhere (tl re) line else match_from re line)"

section \<open>The program\<close>

definition GREP_BUF :: nat where "GREP_BUF = 1024"

text \<open>The loop over the lines in the buffer, from the position \<open>p\<close> on.  The newline is put back only when
  the line is printed.\<close>

function grep_scan :: "cstr \<Rightarrow> u8 list \<Rightarrow> nat \<Rightarrow> (u8 list \<times> u8 list \<times> nat) option" where
  "grep_scan pattern buf p =
     (case strchr (drop p buf) 10 of
        None \<Rightarrow> None
      | Some None \<Rightarrow> Some ([], buf, p)
      | Some (Some k) \<Rightarrow>
          (let line = take k (drop p buf); found = match pattern line in do {
             (out, buf, p) \<leftarrow> grep_scan pattern (if found then buf else buf[p + k := 0]) (p + k + 1);
             Some ((if found then line @ [10] else []) @ out, buf, p) }))"
  by pat_completeness auto
termination
  by (relation "measure (\<lambda>(pattern, buf, p). length buf - p)") (auto dest!: strchr_bound split: if_splits)

declare grep_scan.simps [simp del]

fun read_piece :: "nat \<Rightarrow> u8 list list \<Rightarrow> u8 list \<times> u8 list list" where
  "read_piece room [] = ([], [])"
| "read_piece room (x # xs) = (if length x \<le> room then (x, xs) else (take room x, drop room x # xs))"

lemma read_piece_less: "read_piece room xs = (bs, ys) \<Longrightarrow> bs \<noteq> [] \<Longrightarrow>
    length (concat ys) < length (concat xs)"
  by (cases xs) (auto split: if_splits)

text \<open>\<open>None\<close>: an access outside the buffer; the result is what is written, and the buffer.\<close>

function grep_loop :: "cstr \<Rightarrow> u8 list \<Rightarrow> int \<Rightarrow> u8 list list \<Rightarrow> (u8 list \<times> u8 list) option" where
  "grep_loop pattern buf m pieces =
     (let (bs, pieces') = read_piece (nat (int GREP_BUF - m)) pieces in
      if bs = [] then Some ([], buf)
      else if m < 0 \<or> length buf \<noteq> GREP_BUF then None
      else (let buf = take (nat m) buf @ bs @ drop (nat m + length bs) buf; m = m + int (length bs) in do {
        (out, buf, p) \<leftarrow> grep_scan pattern buf 0;
        let m = (if p = 0 then 0 else m);
        (m, buf) \<leftarrow> (if m > 0 then (let m = m - int p in do { buf \<leftarrow> ulib_memmove buf 0 p (nat m); Some (m, buf) })
                     else Some (m, buf));
        (out', buf) \<leftarrow> grep_loop pattern buf m pieces';
        Some (out @ out', buf) }))"
  by pat_completeness auto
termination
  by (relation "measure (\<lambda>(pattern, buf, m, pieces). length (concat pieces))")
    (auto dest!: read_piece_less [OF sym])

declare grep_loop.simps [simp del]

definition grep :: "cstr \<Rightarrow> u8 list \<Rightarrow> u8 list list \<Rightarrow> (u8 list \<times> u8 list) option" where
  "grep pattern buf pieces = grep_loop pattern buf 0 pieces"

definition usage_line :: "u8 list" where
  "usage_line = bytes_of ''usage: grep pattern [file ...]'' @ [10]"

definition cannot_open :: "cstr \<Rightarrow> u8 list" where
  "cannot_open name = bytes_of ''grep: cannot open '' @ name @ [10]"

fun grep_args :: "cstr \<Rightarrow> (cstr \<Rightarrow> u8 list list option) \<Rightarrow> u8 list \<Rightarrow> cstr list \<Rightarrow> u8 list option" where
  "grep_args pattern open_in buf [] = Some []"
| "grep_args pattern open_in buf (name # names) =
     (case open_in name of
        None \<Rightarrow> Some (cannot_open name)
      | Some pieces \<Rightarrow> do {
          (out, buf) \<leftarrow> grep pattern buf pieces;
          out' \<leftarrow> grep_args pattern open_in buf names;
          Some (out @ out') })"

text \<open>What \<open>main\<close> writes to the descriptors 1 and 2, with the arguments after the program name.\<close>

definition xv6_grep_main :: "(cstr \<Rightarrow> u8 list list option) \<Rightarrow> u8 list list \<Rightarrow> cstr list \<Rightarrow> (u8 list \<times> u8 list) option" where
  "xv6_grep_main open_in stdin args =
     (let buf = replicate GREP_BUF 0 in
      case args of
        [] \<Rightarrow> Some ([], usage_line)
      | [pattern] \<Rightarrow> do { (out, buf) \<leftarrow> grep pattern buf stdin; Some (out, []) }
      | pattern # names \<Rightarrow> do { out \<leftarrow> grep_args pattern open_in buf names; Some (out, []) })"

section \<open>What a pattern means\<close>

text \<open>A pattern is a sequence of characters, each once or any number of times, with an optional anchor at
  either end; a dot stands for any character.\<close>

datatype item = Single u8 | Repeat u8

definition admits :: "u8 \<Rightarrow> u8 \<Rightarrow> bool" where "admits c b \<longleftrightarrow> c = 46 \<or> c = b"

fun item_lang :: "item \<Rightarrow> cstr set" where
  "item_lang (Single c) = {[b] | b. admits c b}"
| "item_lang (Repeat c) = {bs. \<forall>b \<in> set bs. admits c b}"

fun items_lang :: "item list \<Rightarrow> cstr set" where
  "items_lang [] = {[]}"
| "items_lang (i # is) = {u @ v | u v. u \<in> item_lang i \<and> v \<in> items_lang is}"

text \<open>The items of a pattern without \<open>^\<close>, and whether it ends with \<open>$\<close>.\<close>

function pattern_items :: "cstr \<Rightarrow> item list \<times> bool" where
  "pattern_items [] = ([], False)"
| "pattern_items (c # re) =
     (if re \<noteq> [] \<and> hd re = 42 then (let (is, e) = pattern_items (tl re) in (Repeat c # is, e))
      else if c = 36 \<and> re = [] then ([], True)
      else (let (is, e) = pattern_items re in (Single c # is, e)))"
  by pat_completeness auto
termination by (relation "measure length") auto

definition pattern_matches :: "cstr \<Rightarrow> cstr \<Rightarrow> bool" where
  "pattern_matches re line =
     (let anchored = (re \<noteq> [] \<and> hd re = 94);
          (is, at_end) = pattern_items (if anchored then tl re else re)
      in \<exists>pre u post. line = pre @ u @ post \<and> u \<in> items_lang is \<and> (anchored \<longrightarrow> pre = []) \<and> (at_end \<longrightarrow> post = []))"

text \<open>The items match a prefix of the line.\<close>

definition prefix_matches :: "item list \<times> bool \<Rightarrow> cstr \<Rightarrow> bool" where
  "prefix_matches ie line = (\<exists>u post. line = u @ post \<and> u \<in> items_lang (fst ie) \<and> (snd ie \<longrightarrow> post = []))"

lemma prefix_matchesI:
  "line = u @ post \<Longrightarrow> u \<in> items_lang is \<Longrightarrow> (e \<longrightarrow> post = []) \<Longrightarrow> prefix_matches (is, e) line"
  unfolding prefix_matches_def by (intro exI [of _ u] exI [of _ post]) simp

lemma prefix_matchesE:
  assumes "prefix_matches (is, e) line"
  obtains u post where "line = u @ post" "u \<in> items_lang is" "e \<longrightarrow> post = []"
  using assms by (auto simp: prefix_matches_def)

lemma in_single: "u \<in> items_lang (Single c # is) \<longleftrightarrow> (\<exists>b v. u = b # v \<and> admits c b \<and> v \<in> items_lang is)"
proof
  assume "\<exists>b v. u = b # v \<and> admits c b \<and> v \<in> items_lang is"
  then obtain b v where "u = b # v" "admits c b" "v \<in> items_lang is" by auto
  then show "u \<in> items_lang (Single c # is)"
    unfolding items_lang.simps item_lang.simps by (intro CollectI exI [of _ "[b]"] exI [of _ v]) simp
qed auto

lemma in_repeat: "u \<in> items_lang (Repeat c # is) \<longleftrightarrow> (\<exists>w v. u = w @ v \<and> (\<forall>b \<in> set w. admits c b) \<and> v \<in> items_lang is)"
  by auto

lemma prefix_matches_nil: "prefix_matches ([], e) line \<longleftrightarrow> (e \<longrightarrow> line = [])"
  by (auto simp: prefix_matches_def)

lemma prefix_matches_single: "prefix_matches (Single c # is, e) line \<longleftrightarrow>
    (\<exists>b bs. line = b # bs \<and> admits c b \<and> prefix_matches (is, e) bs)"
proof
  assume "prefix_matches (Single c # is, e) line"
  then obtain u post where u: "line = u @ post" "u \<in> items_lang (Single c # is)" "e \<longrightarrow> post = []"
    by (rule prefix_matchesE)
  then obtain b v where "u = b # v" "admits c b" "v \<in> items_lang is" by (auto simp: in_single simp del: items_lang.simps)
  with u have "line = b # v @ post" "admits c b" "v \<in> items_lang is" "e \<longrightarrow> post = []" by simp_all
  then show "\<exists>b bs. line = b # bs \<and> admits c b \<and> prefix_matches (is, e) bs"
    using prefix_matchesI [OF refl, of v "is" e post] by blast
next
  assume "\<exists>b bs. line = b # bs \<and> admits c b \<and> prefix_matches (is, e) bs"
  then obtain b bs where b: "line = b # bs" "admits c b" "prefix_matches (is, e) bs" by blast
  from b(3) obtain v post where "bs = v @ post" "v \<in> items_lang is" "e \<longrightarrow> post = []" by (rule prefix_matchesE)
  with b have t: "line = b # v @ post" "admits c b" "v \<in> items_lang is" "e \<longrightarrow> post = []" by simp_all
  show "prefix_matches (Single c # is, e) line"
    by (rule prefix_matchesI [of _ "b # v" post]) (use t in \<open>auto simp: in_single simp del: items_lang.simps\<close>)
qed

lemma prefix_matches_repeat: "prefix_matches (Repeat c # is, e) line \<longleftrightarrow>
    prefix_matches (is, e) line \<or> (\<exists>b bs. line = b # bs \<and> admits c b \<and> prefix_matches (Repeat c # is, e) bs)"
proof
  assume "prefix_matches (Repeat c # is, e) line"
  then obtain u post where u: "line = u @ post" "u \<in> items_lang (Repeat c # is)" "e \<longrightarrow> post = []"
    by (rule prefix_matchesE)
  then obtain w v where "u = w @ v" "\<forall>b \<in> set w. admits c b" "v \<in> items_lang is" unfolding in_repeat by blast
  with u have t: "line = w @ v @ post" "\<forall>b \<in> set w. admits c b" "v \<in> items_lang is" "e \<longrightarrow> post = []" by simp_all
  show "prefix_matches (is, e) line \<or> (\<exists>b bs. line = b # bs \<and> admits c b \<and> prefix_matches (Repeat c # is, e) bs)"
  proof (cases w)
    case Nil
    with t prefix_matchesI [of line v post "is" e] show ?thesis by simp
  next
    case (Cons b w')
    have "w' @ v \<in> items_lang (Repeat c # is)" using t(2,3) Cons in_repeat by auto
    with prefix_matchesI [of "w' @ v @ post" "w' @ v" post "Repeat c # is" e] t(4)
    have "prefix_matches (Repeat c # is, e) (w' @ v @ post)" by simp
    with t Cons show ?thesis by simp
  qed
next
  assume "prefix_matches (is, e) line \<or> (\<exists>b bs. line = b # bs \<and> admits c b \<and> prefix_matches (Repeat c # is, e) bs)"
  then have "\<exists>w v post. line = w @ v @ post \<and> (\<forall>b \<in> set w. admits c b) \<and> v \<in> items_lang is \<and> (e \<longrightarrow> post = [])"
  proof (elim disjE exE conjE)
    assume "prefix_matches (is, e) line"
    then obtain v post where v: "line = v @ post" "v \<in> items_lang is" "e \<longrightarrow> post = []"
      by (rule prefix_matchesE)
    then show ?thesis by (intro exI [of _ "[]"] exI [of _ v] exI [of _ post]) simp
  next
    fix b bs assume b: "line = b # bs" "admits c b" "prefix_matches (Repeat c # is, e) bs"
    from b(3) obtain u post where u: "bs = u @ post" "u \<in> items_lang (Repeat c # is)" "e \<longrightarrow> post = []"
      by (rule prefix_matchesE)
    then obtain w v where "u = w @ v" "\<forall>b \<in> set w. admits c b" "v \<in> items_lang is" unfolding in_repeat by blast
    with b u have "line = (b # w) @ v @ post \<and> (\<forall>b \<in> set (b # w). admits c b) \<and> v \<in> items_lang is \<and> (e \<longrightarrow> post = [])"
      by simp
    then show ?thesis by blast
  qed
  then obtain w v post where t: "line = w @ v @ post" "\<forall>b \<in> set w. admits c b" "v \<in> items_lang is" "e \<longrightarrow> post = []"
    by blast
  then have "w @ v \<in> items_lang (Repeat c # is)" unfolding in_repeat by blast
  with prefix_matchesI [of line "w @ v" post "Repeat c # is" e] t show "prefix_matches (Repeat c # is, e) line" by simp
qed

lemma matchhere_Nil: "matchhere [] line"
  by (simp add: matchhere.simps)

lemma matchhere_Cons: "matchhere (c # re) line =
    (if re \<noteq> [] \<and> hd re = 42 then matchstar c (tl re) line
     else if c = 36 \<and> re = [] then line = []
     else (\<exists>b bs. line = b # bs \<and> admits c b \<and> matchhere re bs))"
  by (subst matchhere.simps) (auto simp: admits_def split: list.splits)

lemma matchstar_step: "matchstar c re line =
    (matchhere re line \<or> (\<exists>b bs. line = b # bs \<and> admits c b \<and> matchstar c re bs))"
  by (subst matchstar.simps) (auto simp: admits_def split: list.splits)

lemma matchhere_prefix: "matchhere re line \<longleftrightarrow> prefix_matches (pattern_items re) line"
  and matchstar_prefix: "matchstar c re line \<longleftrightarrow>
    prefix_matches (Repeat c # fst (pattern_items re), snd (pattern_items re)) line"
proof (induction re line and c re line rule: matchhere_matchstar.induct)
  case (1 re line)
  show ?case
  proof (cases re)
    case Nil
    then show ?thesis by (simp add: matchhere_Nil prefix_matches_nil)
  next
    case (Cons c re')
    consider "re' \<noteq> [] \<and> hd re' = 42" | "\<not> (re' \<noteq> [] \<and> hd re' = 42)" "c = 36 \<and> re' = []"
      | "\<not> (re' \<noteq> [] \<and> hd re' = 42)" "\<not> (c = 36 \<and> re' = [])" by blast
    then show ?thesis
    proof cases
      case 1
      with "1.IH"(1) [OF Cons] Cons show ?thesis by (simp add: matchhere_Cons split_beta)
    next
      case 2
      with Cons show ?thesis by (simp add: matchhere_Cons prefix_matches_nil)
    next
      case 3
      have p: "pattern_items re = (Single c # fst (pattern_items re'), snd (pattern_items re'))"
        using 3 Cons by (simp add: split_beta)
      have "matchhere re' bs = prefix_matches (fst (pattern_items re'), snd (pattern_items re')) bs"
        if "line = b # bs" for b bs using "1.IH"(2) [OF Cons 3 that] by simp
      with 3 Cons show ?thesis unfolding p prefix_matches_single by (auto simp: matchhere_Cons)
    qed
  qed
next
  case (2 c re line)
  have "matchstar c re bs = prefix_matches (Repeat c # fst (pattern_items re), snd (pattern_items re)) bs"
    if "line = b # bs" "admits c b" "\<not> matchhere re line" for b bs
    using "2.IH"(2) [of b bs] that by (auto simp: admits_def)
  with "2.IH"(1) show ?case
    unfolding matchstar_step [of c re line] prefix_matches_repeat [of c _ _ line] by auto
qed

lemma match_from_prefix: "match_from re line \<longleftrightarrow>
    (\<exists>pre rest. line = pre @ rest \<and> prefix_matches (pattern_items re) rest)"
proof (induction line)
  case Nil
  then show ?case by (simp add: match_from.simps [of re] matchhere_prefix)
next
  case (Cons b bs)
  then show ?case by (auto simp: match_from.simps [of re "b # bs"] matchhere_prefix Cons_eq_append_conv)
qed

lemma match_pattern: "match re line \<longleftrightarrow> pattern_matches re line"
  by (auto simp: match_def pattern_matches_def matchhere_prefix match_from_prefix prefix_matches_def split_beta Let_def)

section \<open>The lines that are printed\<close>

lemma getlines_line: "10 \<notin> set l \<Longrightarrow> getlines (l @ 10 # ys) = (l @ [10]) # getlines ys"
  by (induction l) auto

lemma getlines_partial: "10 \<notin> set xs \<Longrightarrow> getlines xs = (if xs = [] then [] else [xs])"
  by (induction xs) auto

definition printed :: "cstr \<Rightarrow> u8 list \<Rightarrow> u8 list" where
  "printed pattern c = concat (filter (\<lambda>l. last l = 10 \<and> match pattern (butlast l)) (getlines c))"

lemma grep_scan_lines:
  assumes "0 \<notin> set xs"
  shows "\<exists>buf' p'. grep_scan pattern (before @ xs @ 0 # rest) (length before) = Some (printed pattern xs, buf', p') \<and>
    length buf' = length (before @ xs @ 0 # rest) \<and> p' \<le> length (before @ xs)"
  using assms
proof (induction xs arbitrary: before rule: length_induct)
  case (1 xs)
  show ?case
  proof (cases "10 \<in> set xs")
    case False
    with 1(2) have "printed pattern xs = []" by (auto simp: printed_def getlines_partial dest: last_in_set)
    with False 1(2) show ?thesis by (subst grep_scan.simps) (simp add: strchr_none)
  next
    case True
    then obtain l ys where xs: "xs = l @ 10 # ys" "10 \<notin> set l" by (metis split_list_first)
    define f where "f = match pattern l"
    define before' where "before' = before @ l @ [if f then 10 else 0]"
    have p: "length before + length l + 1 = length before'" by (simp add: before'_def)
    have b: "(if f then before @ xs @ 0 # rest else (before @ xs @ 0 # rest)[length before + length l := 0]) =
        before' @ ys @ 0 # rest"
      by (simp add: before'_def xs list_update_append)
    have "length ys < length xs" "0 \<notin> set ys" using 1(2) xs by auto
    with 1(1) obtain buf' p' where r: "grep_scan pattern (before' @ ys @ 0 # rest) (length before') =
        Some (printed pattern ys, buf', p')" "length buf' = length (before' @ ys @ 0 # rest)"
      "p' \<le> length (before' @ ys)" by blast
    define B where "B = before @ xs @ 0 # rest"
    have k: "strchr (drop (length before) B) 10 = Some (Some (length l))"
      using strchr_found [of 10 l "ys @ 0 # rest"] xs 1(2) by (simp add: B_def)
    have l: "take (length l) (drop (length before) B) = l" by (simp add: B_def xs)
    have "grep_scan pattern B (length before) = Some ((if f then l @ [10] else []) @ printed pattern ys, buf', p')"
      by (subst grep_scan.simps)
        (simp only: k l f_def [symmetric] b [folded B_def] p r(1) Let_def option.case bind.bind_lunit prod.case)
    moreover have "printed pattern xs = (if f then l @ [10] else []) @ printed pattern ys"
      by (simp add: printed_def xs getlines_line f_def)
    ultimately show ?thesis using r(2,3) by (simp add: B_def [symmetric]) (simp add: B_def xs(1) before'_def)
  qed
qed

lemma grep_short:
  assumes "0 \<notin> set c" "length c < GREP_BUF"
  shows "\<exists>buf. grep pattern (replicate GREP_BUF 0) [c] = Some (printed pattern c, buf)"
proof (cases "c = []")
  case True
  then show ?thesis by (simp add: grep_def grep_loop.simps [of _ _ 0] printed_def)
next
  case False
  let ?B = "c @ replicate (GREP_BUF - length c) 0"
  have B: "?B = [] @ c @ 0 # replicate (GREP_BUF - length c - 1) 0"
    using assms(2) by (simp add: replicate_Suc [symmetric] del: replicate_Suc)
  from grep_scan_lines [OF assms(1), of pattern "[]" "replicate (GREP_BUF - length c - 1) 0"]
  obtain buf p where s: "grep_scan pattern ?B 0 = Some (printed pattern c, buf, p)" "length buf = GREP_BUF" "p \<le> length c"
    unfolding B [symmetric] using assms(2) by auto
  have e: "grep_loop pattern buf' m [] = Some ([], buf')" for buf' m by (simp add: grep_loop.simps [of _ _ m])
  have mv: "\<exists>buf'. ulib_memmove buf 0 p (length c - p) = Some buf'"
    using ulib_memmove_down [of 0 p "length c - p" buf] s(2,3) assms(2) by simp
  then show ?thesis using False s assms(2)
    by (auto simp: grep_def grep_loop.simps [of _ _ 0] Let_def e nat_diff_distrib)
qed

text \<open>\<open>grep\<close> prints lines of the first file again when it reads the second one, because the buffer is neither
  cleared nor terminated.\<close>

lemma grep_prints_stale_lines:
  "xv6_grep_main (\<lambda>f. if f = [49] then Some [[97, 98, 10, 120, 98, 10]] else Some [[122, 10]]) [] [[98], [49], [50]] =
     Some ([97, 98, 10, 120, 98, 10] @ [120, 98, 10], [])"
  by code_simp

section \<open>Properties\<close>

text \<open>C31.  On a file that fits into the buffer, \<open>grep\<close> prints exactly the lines, among those that end with a
  newline, that the pattern describes: \<open>^\<close> and \<open>$\<close> anchor it, \<open>c*\<close> stands for any number of \<open>c\<close>, a dot
  for any character, and everything else for itself.\<close>

theorem grep_prints_matching_lines:
  assumes "open_in name = Some [content]" "0 \<notin> set content" "length content < GREP_BUF"
  shows "xv6_grep_main open_in stdin [pattern, name] =
    Some (concat (filter (\<lambda>l. last l = 10 \<and> pattern_matches pattern (butlast l)) (getlines content)), [])"
proof -
  obtain buf where "grep pattern (replicate GREP_BUF 0) [content] = Some (printed pattern content, buf)"
    using grep_short [OF assms(2,3)] by blast
  then show ?thesis using assms(1) by (simp add: xv6_grep_main_def printed_def match_pattern)
qed

text \<open>The pattern \<open>^a*b$\<close> on the lines \<open>aab\<close>, \<open>cb\<close> and \<open>b\<close>.\<close>

theorem grep_prints_matching_lines_witness:
  "xv6_grep_main (\<lambda>_. Some [[97, 97, 98, 10, 99, 98, 10, 98, 10]]) [] [[94, 97, 42, 98, 36], [102]] =
     Some ([97, 97, 98, 10, 98, 10], []) \<and>
   pattern_matches [94, 97, 42, 98, 36] [97, 97, 98] \<and> \<not> pattern_matches [94, 97, 42, 98, 36] [99, 98]"
proof -
  have m: "match [94, 97, 42, 98, 36] [97, 97, 98]" "\<not> match [94, 97, 42, 98, 36] [99, 98]"
    "match [94, 97, 42, 98, 36] [98]" by code_simp+
  have "xv6_grep_main (\<lambda>_. Some [[97, 97, 98, 10, 99, 98, 10, 98, 10]]) [] [[94, 97, 42, 98, 36], [102]] =
      Some (concat (filter (\<lambda>l. last l = 10 \<and> pattern_matches [94, 97, 42, 98, 36] (butlast l))
        (getlines [97, 97, 98, 10, 99, 98, 10, 98, 10])), [])"
    by (rule grep_prints_matching_lines) (simp_all add: GREP_BUF_def)
  with m show ?thesis by (simp add: match_pattern)
qed

end
