(* ===== verification/Bio.thy ===== *)
theory Bio imports Bytes
begin

text \<open>
  The buffer cache (\<open>kernel/bio.c\<close>) over a disk whose requests complete without an error
  (\<open>iderw\<close> of \<open>kernel/ide.c\<close>), and the abstract store of blocks that it implements.  A pointer to a
  \<open>struct buf\<close> is its index in \<open>bcache.buf\<close>; the circular list through \<open>prev\<close> and \<open>next\<close> is
  the list of the indices from \<open>head.next\<close> on; the bits of \<open>flags\<close> are three Booleans.  A stretch of a
  call ends when it returns or when it has to sleep for a busy buffer.
\<close>

section \<open>The abstract store\<close>

type_synonym block = "nat \<Rightarrow> u8"

text \<open>The contents of the blocks of each device, and the blocks that are in somebody's hands.\<close>

record bstore =
  disk :: "u32 \<Rightarrow> u32 \<Rightarrow> block"
  held :: "(u32 \<times> u32) set"

text \<open>\<open>None\<close>: the block is held, also when the caller itself holds it.\<close>

definition block_read :: "u32 \<Rightarrow> u32 \<Rightarrow> 'a bstore_scheme \<Rightarrow> (block \<times> 'a bstore_scheme) option" where
  "block_read dev b s =
     (if (dev, b) \<in> held s then None else Some (disk s dev b, s\<lparr>held := insert (dev, b) (held s)\<rparr>))"

definition block_write :: "u32 \<Rightarrow> u32 \<Rightarrow> block \<Rightarrow> 'a bstore_scheme \<Rightarrow> 'a bstore_scheme option" where
  "block_write dev b data s =
     (if (dev, b) \<in> held s then Some (s\<lparr>disk := (disk s)(dev := (disk s dev)(b := data))\<rparr>) else None)"

definition block_release :: "u32 \<Rightarrow> u32 \<Rightarrow> 'a bstore_scheme \<Rightarrow> 'a bstore_scheme option" where
  "block_release dev b s = (if (dev, b) \<in> held s then Some (s\<lparr>held := held s - {(dev, b)}\<rparr>) else None)"

section \<open>The cache\<close>

definition NBUF :: nat where "NBUF = 10"

record buf =
  bdev :: u32
  bsector :: u32
  b_busy :: bool
  b_valid :: bool
  b_dirty :: bool
  bdata :: block

record bcache =
  bufs :: "buf list"
  lru :: "nat list"
  bdisk :: "u32 \<Rightarrow> u32 \<Rightarrow> block"

definition set_buf :: "nat \<Rightarrow> buf \<Rightarrow> bcache \<Rightarrow> bcache" where
  "set_buf j b c = c\<lparr>bufs := (bufs c)[j := b]\<rparr>"

definition binit :: "(u32 \<Rightarrow> u32 \<Rightarrow> block) \<Rightarrow> bcache" where
  "binit d = \<lparr>bufs = replicate NBUF \<lparr>bdev = -1, bsector = 0, b_busy = False, b_valid = False,
       b_dirty = False, bdata = (\<lambda>_. 0)\<rparr>,
     lru = foldl (\<lambda>l b. b # l) [] [0..<NBUF], bdisk = d\<rparr>"

datatype bget_end = BufGot nat | BufSleeps nat

definition bget :: "u32 \<Rightarrow> u32 \<Rightarrow> bcache \<Rightarrow> (bget_end \<times> bcache) option" where
  "bget dev sector c =
     (case find (\<lambda>j. bdev (bufs c ! j) = dev \<and> bsector (bufs c ! j) = sector) (lru c) of
        Some j \<Rightarrow>
          if \<not> b_busy (bufs c ! j) then Some (BufGot j, set_buf j ((bufs c ! j)\<lparr>b_busy := True\<rparr>) c)
          else Some (BufSleeps j, c)
      | None \<Rightarrow>
          (case find (\<lambda>j. \<not> b_busy (bufs c ! j)) (rev (lru c)) of
             Some j \<Rightarrow> Some (BufGot j, set_buf j ((bufs c ! j)\<lparr>bdev := dev, bsector := sector,
               b_busy := True, b_valid := False, b_dirty := False\<rparr>) c)
           | None \<Rightarrow> None))"

text \<open>The finished request.  The drive is selected by the lowest bit of the device number, and the sector
  has 28 bits.\<close>

definition iderw :: "bool \<Rightarrow> nat \<Rightarrow> bcache \<Rightarrow> bcache option" where
  "iderw havedisk1 j c =
     (let b = bufs c ! j; d = bdev b AND 1; n = bsector b AND 0x0FFFFFFF in
      if \<not> b_busy b \<or> (b_valid b \<and> \<not> b_dirty b) \<or> (bdev b \<noteq> 0 \<and> \<not> havedisk1) then None
      else if b_dirty b
      then Some (set_buf j (b\<lparr>b_valid := True, b_dirty := False\<rparr>)
             (c\<lparr>bdisk := (bdisk c)(d := (bdisk c d)(n := bdata b))\<rparr>))
      else Some (set_buf j (b\<lparr>b_valid := True, b_dirty := False, bdata := bdisk c d n\<rparr>) c))"

definition bread :: "bool \<Rightarrow> u32 \<Rightarrow> u32 \<Rightarrow> bcache \<Rightarrow> (bget_end \<times> bcache) option" where
  "bread havedisk1 dev sector c = do {
     (r, c) \<leftarrow> bget dev sector c;
     case r of
       BufSleeps j \<Rightarrow> Some (r, c)
     | BufGot j \<Rightarrow>
         if \<not> b_valid (bufs c ! j) then do { c \<leftarrow> iderw havedisk1 j c; Some (r, c) } else Some (r, c) }"

text \<open>The caller has changed the data before.\<close>

definition change_data :: "nat \<Rightarrow> block \<Rightarrow> bcache \<Rightarrow> bcache" where
  "change_data j f c = set_buf j ((bufs c ! j)\<lparr>bdata := f\<rparr>) c"

definition bwrite :: "bool \<Rightarrow> nat \<Rightarrow> bcache \<Rightarrow> bcache option" where
  "bwrite havedisk1 j c =
     (if \<not> b_busy (bufs c ! j) then None
      else iderw havedisk1 j (set_buf j ((bufs c ! j)\<lparr>b_dirty := True\<rparr>) c))"

definition brelse :: "nat \<Rightarrow> bcache \<Rightarrow> bcache option" where
  "brelse j c =
     (if \<not> b_busy (bufs c ! j) then None
      else Some (set_buf j ((bufs c ! j)\<lparr>b_busy := False\<rparr>) (c\<lparr>lru := j # remove1 j (lru c)\<rparr>)))"

section \<open>The cache implements the store\<close>

text \<open>The blocks that exist: 28-bit sectors of the drives 0 and 1.\<close>

definition on_disk :: "bool \<Rightarrow> u32 \<Rightarrow> u32 \<Rightarrow> bool" where
  "on_disk havedisk1 dev sector \<longleftrightarrow> dev \<le> 1 \<and> sector \<le> 0x0FFFFFFF \<and> (dev = 0 \<or> havedisk1)"

definition cache_abs :: "bool \<Rightarrow> bcache \<Rightarrow> bstore" where
  "cache_abs h c = \<lparr>disk = (\<lambda>d n. if on_disk h d n then bdisk c d n else (\<lambda>_. 0)),
     held = {(bdev b, bsector b) | b. b \<in> set (bufs c) \<and> b_busy b}\<rparr>"

definition buf_ok :: "bool \<Rightarrow> bcache \<Rightarrow> buf \<Rightarrow> bool" where
  "buf_ok h c b \<longleftrightarrow> \<not> b_dirty b \<and> (b_busy b \<longrightarrow> b_valid b) \<and>
     (bdev b = -1 \<and> \<not> b_valid b \<or> on_disk h (bdev b) (bsector b) \<and> b_valid b \<and> bdata b = bdisk c (bdev b) (bsector b))"

definition cache_ok :: "bool \<Rightarrow> bcache \<Rightarrow> bool" where
  "cache_ok h c \<longleftrightarrow> length (bufs c) = NBUF \<and> distinct (lru c) \<and> set (lru c) = {0..<NBUF} \<and>
     (\<forall>b \<in> set (bufs c). buf_ok h c b) \<and>
     (\<forall>i < NBUF. \<forall>j < NBUF. i \<noteq> j \<and> bdev (bufs c ! i) = bdev (bufs c ! j) \<and> bsector (bufs c ! i) = bsector (bufs c ! j) \<longrightarrow>
        bdev (bufs c ! i) = -1)"

text \<open>What the processes do with the cache, in any order; nobody releases or changes a buffer that he does
  not hold.\<close>

inductive cache_reach :: "bool \<Rightarrow> (u32 \<Rightarrow> u32 \<Rightarrow> block) \<Rightarrow> bcache \<Rightarrow> bool" for h d where
  boot: "cache_reach h d (binit d)"
| got: "cache_reach h d c \<Longrightarrow> on_disk h dev n \<Longrightarrow> bread h dev n c = Some (r, c') \<Longrightarrow> cache_reach h d c'"
| stored: "cache_reach h d c \<Longrightarrow> j < NBUF \<Longrightarrow> b_busy (bufs c ! j) \<Longrightarrow> bwrite h j (change_data j f c) = Some c' \<Longrightarrow>
    cache_reach h d c'"
| released: "cache_reach h d c \<Longrightarrow> j < NBUF \<Longrightarrow> b_busy (bufs c ! j) \<Longrightarrow> brelse j c = Some c' \<Longrightarrow> cache_reach h d c'"

lemma on_disk_masks: "on_disk h d n \<Longrightarrow> d AND 1 = d \<and> n AND 0x0FFFFFFF = n"
proof
  assume o: "on_disk h d n"
  have m: "(1 :: u32) = mask 1" "(0x0FFFFFFF :: u32) = mask 28" by (simp_all add: mask_eq_exp_minus_1)
  have "unat d \<le> 1" "unat n \<le> 0x0FFFFFFF" using o by (simp_all add: on_disk_def word_le_nat_alt)
  then have "unat d < 2 ^ 1" "unat n < 2 ^ 28" by simp_all
  then show "d AND 1 = d" "n AND 0x0FFFFFFF = n"
    unfolding m take_bit_eq_mask [symmetric] by (simp_all add: word_unat_eq_iff unsigned_take_bit_eq take_bit_nat_eq_self unat_mod)
qed

lemma binit_ok: "cache_ok h (binit d)"
proof -
  have "foldl (\<lambda>l b. b # l) [] [0..<NBUF] = rev [0..<NBUF]" by (simp add: NBUF_def upt_rec)
  then show ?thesis by (simp add: cache_ok_def binit_def buf_ok_def set_replicate_conv_if)
qed

text \<open>A buffer in the cache, and the change of one buffer.\<close>

lemma set_buf_sel [simp]:
  "bufs (set_buf j b c) = (bufs c)[j := b]" "lru (set_buf j b c) = lru c" "bdisk (set_buf j b c) = bdisk c"
  by (simp_all add: set_buf_def)

lemma buf_ok_nth: "cache_ok h c \<Longrightarrow> j < NBUF \<Longrightarrow> buf_ok h c (bufs c ! j)"
  by (auto simp: cache_ok_def)

lemma busy_on_disk:
  assumes "cache_ok h c" "j < NBUF" "b_busy (bufs c ! j)"
  shows "on_disk h (bdev (bufs c ! j)) (bsector (bufs c ! j))" "b_valid (bufs c ! j)"
    "bdata (bufs c ! j) = bdisk c (bdev (bufs c ! j)) (bsector (bufs c ! j))"
  using buf_ok_nth [OF assms(1,2)] assms(3) by (auto simp: buf_ok_def)

lemma not_minus_one: "on_disk h d n \<Longrightarrow> d \<noteq> -1"
proof -
  have "\<not> (-1 :: u32) \<le> 1" by code_simp
  then show "on_disk h d n \<Longrightarrow> d \<noteq> -1" by (auto simp only: on_disk_def)
qed

lemma cache_distinct:
  assumes "cache_ok h c" "i < NBUF" "j < NBUF" "bdev (bufs c ! i) = bdev (bufs c ! j)"
    "bsector (bufs c ! i) = bsector (bufs c ! j)" "bdev (bufs c ! i) \<noteq> -1"
  shows "i = j"
  using assms unfolding cache_ok_def by blast

text \<open>Replacing the buffer \<open>j\<close> by one for a block that no other buffer has.\<close>

lemma cache_ok_set:
  assumes c: "cache_ok h c" and j: "j < NBUF" and b: "buf_ok h c b"
    and new: "\<forall>i < NBUF. i \<noteq> j \<and> bdev (bufs c ! i) = bdev b \<and> bsector (bufs c ! i) = bsector b \<longrightarrow> bdev b = -1"
  shows "cache_ok h (set_buf j b c)"
proof -
  have l: "length (bufs c) = NBUF" using c by (simp add: cache_ok_def)
  have "buf_ok h (set_buf j b c) x = buf_ok h c x" for x by (simp add: buf_ok_def)
  moreover have "\<forall>x \<in> set ((bufs c)[j := b]). buf_ok h c x"
    using c b by (auto simp: cache_ok_def dest!: set_update_subset_insert [THEN subsetD])
  moreover have "bdev ((bufs c)[j := b] ! i) = -1"
    if "i < NBUF" "k < NBUF" "i \<noteq> k" "bdev ((bufs c)[j := b] ! i) = bdev ((bufs c)[j := b] ! k)"
      "bsector ((bufs c)[j := b] ! i) = bsector ((bufs c)[j := b] ! k)" for i k
  proof (cases "i = j")
    case True
    then have e: "(bufs c)[j := b] ! i = b" "(bufs c)[j := b] ! k = bufs c ! k" using that l j by simp_all
    have "bdev b = -1" using new that(2,3) True that(4,5) unfolding e by auto
    then show ?thesis by (simp only: e)
  next
    case False
    then have e: "(bufs c)[j := b] ! i = bufs c ! i" by simp
    show ?thesis
    proof (cases "k = j")
      case True
      then have k: "(bufs c)[j := b] ! k = b" using that l j by simp
      have "bdev b = -1" using new that(1,3) True that(4,5) unfolding e k by auto
      then show ?thesis using that(4) by (simp only: e k)
    next
      case nk: False
      then have k: "(bufs c)[j := b] ! k = bufs c ! k" by simp
      show ?thesis using that c unfolding e k cache_ok_def by blast
    qed
  qed
  ultimately show ?thesis using c unfolding cache_ok_def by auto
qed

lemma held_set:
  assumes l: "length (bufs c) = NBUF" and j: "j < NBUF"
  shows "{(bdev x, bsector x) | x. x \<in> set (bufs (set_buf j b c)) \<and> b_busy x} =
    {(bdev (bufs c ! i), bsector (bufs c ! i)) | i. i < NBUF \<and> i \<noteq> j \<and> b_busy (bufs c ! i)} \<union>
    (if b_busy b then {(bdev b, bsector b)} else {})"
proof -
  have s: "set (bufs (set_buf j b c)) = insert b {bufs c ! i | i. i < NBUF \<and> i \<noteq> j}"
    using l j by (auto simp: set_conv_nth nth_list_update intro: exI [of _ j] split: if_splits)
  show ?thesis unfolding s by auto
qed

lemma held_nth:
  assumes l: "length (bufs c) = NBUF"
  shows "{(bdev x, bsector x) | x. x \<in> set (bufs c) \<and> b_busy x} =
    {(bdev (bufs c ! i), bsector (bufs c ! i)) | i. i < NBUF \<and> b_busy (bufs c ! i)}"
  using l by (auto simp: set_conv_nth)

lemma set_buf_twice [simp]: "set_buf j b (set_buf j b' c) = set_buf j b c"
  by (simp add: set_buf_def)

lemma held_abs: "cache_ok h c \<Longrightarrow>
    held (cache_abs h c) = {(bdev (bufs c ! i), bsector (bufs c ! i)) | i. i < NBUF \<and> b_busy (bufs c ! i)}"
  using held_nth [of c] by (simp add: cache_abs_def cache_ok_def)

text \<open>Taking the buffer \<open>j\<close>, which nobody holds, for the block \<open>(dev, n)\<close>, which no other buffer has.\<close>

lemma take_buf:
  assumes c: "cache_ok h c" and d: "on_disk h dev n" and j: "j < NBUF" "\<not> b_busy (bufs c ! j)"
    and new: "\<forall>i < NBUF. i \<noteq> j \<longrightarrow> \<not> (bdev (bufs c ! i) = dev \<and> bsector (bufs c ! i) = n)"
    and b: "bdev b = dev" "bsector b = n" "b_busy b" "b_valid b" "\<not> b_dirty b" "bdata b = bdisk c dev n"
  shows "cache_ok h (set_buf j b c)" "block_read dev n (cache_abs h c) = Some (bdata b, cache_abs h (set_buf j b c))"
proof -
  have l: "length (bufs c) = NBUF" using c by (simp add: cache_ok_def)
  show "cache_ok h (set_buf j b c)"
    by (rule cache_ok_set [OF c j(1)]) (use d new b in \<open>auto simp: buf_ok_def\<close>)
  have nh: "(dev, n) \<notin> held (cache_abs h c)" using new j(2) by (auto simp: held_abs [OF c])
  have "held (cache_abs h (set_buf j b c)) = insert (dev, n) (held (cache_abs h c))"
    using held_set [OF l j(1), of b] j(2) b(1-3) by (simp add: cache_abs_def held_nth [OF l]) auto
  moreover have "disk (cache_abs h (set_buf j b c)) = disk (cache_abs h c)"
    by (simp add: cache_abs_def cong: if_cong)
  moreover have "disk (cache_abs h c) dev n = bdata b" using d b(6) by (simp add: cache_abs_def)
  ultimately show "block_read dev n (cache_abs h c) = Some (bdata b, cache_abs h (set_buf j b c))"
    using nh by (simp add: block_read_def)
qed

lemma find_SomeD: "find P xs = Some x \<Longrightarrow> P x \<and> x \<in> set xs"
  by (induction xs) (auto split: if_splits)

lemma find_NoneD: "find P xs = None \<Longrightarrow> x \<in> set xs \<Longrightarrow> \<not> P x"
  by (induction xs) (auto split: if_splits)

definition read_refines :: "bool \<Rightarrow> u32 \<Rightarrow> u32 \<Rightarrow> bcache \<Rightarrow> bool" where
  "read_refines h dev n c \<longleftrightarrow>
     (case bread h dev n c of
        None \<Rightarrow> \<forall>j < NBUF. b_busy (bufs c ! j)
      | Some (BufSleeps j, c') \<Rightarrow> c' = c \<and> (dev, n) \<in> held (cache_abs h c)
      | Some (BufGot j, c') \<Rightarrow> j < NBUF \<and> bdev (bufs c' ! j) = dev \<and> bsector (bufs c' ! j) = n \<and> b_busy (bufs c' ! j) \<and>
          block_read dev n (cache_abs h c) = Some (bdata (bufs c' ! j), cache_abs h c'))"

lemma bread_refines:
  assumes c: "cache_ok h c" and d: "on_disk h dev n"
  shows "read_refines h dev n c" "bread h dev n c = Some (r, c') \<Longrightarrow> cache_ok h c'"
proof -
  have l: "length (bufs c) = NBUF" and lru: "set (lru c) = {0..<NBUF}" using c by (simp_all add: cache_ok_def)
  let ?match = "\<lambda>j. bdev (bufs c ! j) = dev \<and> bsector (bufs c ! j) = n"
  have "read_refines h dev n c \<and> (\<forall>r c'. bread h dev n c = Some (r, c') \<longrightarrow> cache_ok h c')"
  proof (cases "find ?match (lru c)")
    case (Some j)
    then have j: "j < NBUF" "bdev (bufs c ! j) = dev" "bsector (bufs c ! j) = n" using find_SomeD [OF Some] lru by auto
    show ?thesis
    proof (cases "b_busy (bufs c ! j)")
      case True
      then have "(dev, n) \<in> held (cache_abs h c)" using j by (auto simp: held_abs [OF c])
      with True Some c show ?thesis by (simp add: read_refines_def bread_def bget_def)
    next
      case False
      let ?b = "(bufs c ! j)\<lparr>b_busy := True\<rparr>"
      have ok: "b_valid (bufs c ! j)" "\<not> b_dirty (bufs c ! j)" "bdata (bufs c ! j) = bdisk c dev n"
        using buf_ok_nth [OF c j(1)] j(2,3) not_minus_one [OF d] by (auto simp: buf_ok_def)
      have "\<forall>i < NBUF. i \<noteq> j \<longrightarrow> \<not> ?match i"
        using cache_distinct [OF c _ j(1)] j(2,3) not_minus_one [OF d] by auto
      from take_buf [OF c d j(1) False this, of ?b] j ok
      have t: "cache_ok h (set_buf j ?b c)" "block_read dev n (cache_abs h c) = Some (bdata ?b, cache_abs h (set_buf j ?b c))"
        by simp_all
      have "bread h dev n c = Some (BufGot j, set_buf j ?b c)"
        using Some False j ok l by (simp add: bread_def bget_def)
      then show ?thesis using t j l by (simp add: read_refines_def)
    qed
  next
    case None
    then have new: "\<not> ?match i" if "i < NBUF" for i using find_NoneD [OF None, of i] lru that by simp
    show ?thesis
    proof (cases "find (\<lambda>j. \<not> b_busy (bufs c ! j)) (rev (lru c))")
      case n2: None
      then have "\<forall>j < NBUF. b_busy (bufs c ! j)" using find_NoneD [OF n2] lru by auto
      with None n2 show ?thesis by (simp add: read_refines_def bread_def bget_def)
    next
      case (Some j)
      then have j: "j < NBUF" "\<not> b_busy (bufs c ! j)" using find_SomeD [OF Some] lru by auto
      let ?b = "(bufs c ! j)\<lparr>bdev := dev, bsector := n, b_busy := True, b_valid := True, b_dirty := False, bdata := bdisk c dev n\<rparr>"
      have "\<forall>i < NBUF. i \<noteq> j \<longrightarrow> \<not> ?match i" using new by blast
      from take_buf [OF c d j this, of ?b]
      have t: "cache_ok h (set_buf j ?b c)" "block_read dev n (cache_abs h c) = Some (bdata ?b, cache_abs h (set_buf j ?b c))"
        by simp_all
      have "\<not> (dev \<noteq> 0 \<and> \<not> h)" using d by (simp add: on_disk_def)
      then have "bread h dev n c = Some (BufGot j, set_buf j ?b c)"
        using None Some j l on_disk_masks [OF d] by (simp add: bread_def bget_def iderw_def Let_def)
      then show ?thesis using t j l by (simp add: read_refines_def)
    qed
  qed
  then show "read_refines h dev n c" "bread h dev n c = Some (r, c') \<Longrightarrow> cache_ok h c'" by blast+
qed

text \<open>A change that leaves every buffer with its block.\<close>

lemma cache_ok_keep:
  assumes c: "cache_ok h c" and l: "length (bufs c') = NBUF" "distinct (lru c')" "set (lru c') = {0..<NBUF}"
    and k: "\<forall>i < NBUF. bdev (bufs c' ! i) = bdev (bufs c ! i) \<and> bsector (bufs c' ! i) = bsector (bufs c ! i)"
    and b: "\<forall>i < NBUF. buf_ok h c' (bufs c' ! i)"
  shows "cache_ok h c'"
proof -
  have "\<forall>b \<in> set (bufs c'). buf_ok h c' b" using b l(1) by (auto simp: set_conv_nth)
  moreover have "\<forall>i < NBUF. \<forall>j < NBUF. i \<noteq> j \<and> bdev (bufs c' ! i) = bdev (bufs c' ! j) \<and>
      bsector (bufs c' ! i) = bsector (bufs c' ! j) \<longrightarrow> bdev (bufs c' ! i) = -1"
    using c k unfolding cache_ok_def by metis
  ultimately show ?thesis using l unfolding cache_ok_def by blast
qed

definition write_refines :: "bool \<Rightarrow> nat \<Rightarrow> block \<Rightarrow> bcache \<Rightarrow> bool" where
  "write_refines h j f c \<longleftrightarrow> (\<exists>c'. bwrite h j (change_data j f c) = Some c' \<and>
     bufs c' ! j = (bufs c ! j)\<lparr>bdata := f\<rparr> \<and>
     block_write (bdev (bufs c ! j)) (bsector (bufs c ! j)) f (cache_abs h c) = Some (cache_abs h c'))"

lemma bwrite_refines:
  assumes c: "cache_ok h c" and j: "j < NBUF" "b_busy (bufs c ! j)"
  shows "write_refines h j f c" "bwrite h j (change_data j f c) = Some c' \<Longrightarrow> cache_ok h c'"
proof -
  have l: "length (bufs c) = NBUF" using c by (simp add: cache_ok_def)
  define dev n where "dev = bdev (bufs c ! j)" and "n = bsector (bufs c ! j)"
  note bd = busy_on_disk [OF c j, folded dev_def n_def]
  let ?b = "(bufs c ! j)\<lparr>bdata := f\<rparr>"
  define d' where "d' = (bdisk c)(dev := (bdisk c dev)(n := f))"
  define c2 where "c2 = set_buf j ?b (c\<lparr>bdisk := d'\<rparr>)"
  have "\<not> b_dirty (bufs c ! j)" using buf_ok_nth [OF c j(1)] by (simp add: buf_ok_def)
  then have b: "?b = (bufs c ! j)\<lparr>bdata := f, b_valid := True, b_dirty := False\<rparr>" using bd(2) by (cases "bufs c ! j") simp
  have m: "dev AND 1 = dev" "n AND 0x0FFFFFFF = n" "\<not> (dev \<noteq> 0 \<and> \<not> h)"
    using on_disk_masks [OF bd(1)] bd(1) by (simp_all add: on_disk_def)
  have "bwrite h j (change_data j f c) =
      Some (set_buf j ((bufs c ! j)\<lparr>bdata := f, b_valid := True, b_dirty := False\<rparr>) (c\<lparr>bdisk := d'\<rparr>))"
    using j l m by (simp add: bwrite_def change_data_def iderw_def Let_def dev_def n_def d'_def set_buf_def)
  then have w: "bwrite h j (change_data j f c) = Some c2" by (simp only: b [symmetric] c2_def)
  have sel: "bufs c2 = (bufs c)[j := ?b]" "bdisk c2 = d'" "lru c2 = lru c" by (simp_all add: c2_def set_buf_def)
  have key: "bdev (bufs c2 ! i) = bdev (bufs c ! i) \<and> bsector (bufs c2 ! i) = bsector (bufs c ! i) \<and>
      b_busy (bufs c2 ! i) = b_busy (bufs c ! i)" if "i < NBUF" for i
    using that l by (cases "i = j") (simp_all add: sel)
  have "buf_ok h c2 (bufs c2 ! i)" if i: "i < NBUF" for i
  proof (cases "i = j")
    case True
    with bd(1,2) j l b \<open>\<not> b_dirty (bufs c ! j)\<close> show ?thesis by (simp add: sel buf_ok_def dev_def n_def d'_def)
  next
    case False
    then have "\<not> (bdev (bufs c ! i) = dev \<and> bsector (bufs c ! i) = n)"
      using cache_distinct [OF c i j(1)] not_minus_one [OF bd(1)] by (auto simp: dev_def n_def)
    then have "d' (bdev (bufs c ! i)) (bsector (bufs c ! i)) = bdisk c (bdev (bufs c ! i)) (bsector (bufs c ! i))"
      by (auto simp: d'_def)
    with False buf_ok_nth [OF c i] show ?thesis by (simp add: sel buf_ok_def)
  qed
  then have ok: "cache_ok h c2" using c key l by (intro cache_ok_keep [OF c]) (simp_all add: sel cache_ok_def)
  have "held (cache_abs h c2) = held (cache_abs h c)" 
    unfolding held_abs [OF c] held_abs [OF ok] by (intro Collect_cong ex_cong1) (auto simp: key)
  moreover have "disk (cache_abs h c2) = (disk (cache_abs h c))(dev := (disk (cache_abs h c) dev)(n := f))"
    using bd(1) by (auto simp: cache_abs_def sel d'_def fun_eq_iff)
  moreover have "(dev, n) \<in> held (cache_abs h c)" using j by (auto simp: held_abs [OF c] dev_def n_def)
  ultimately have "block_write dev n f (cache_abs h c) = Some (cache_abs h c2)" by (simp add: block_write_def)
  then show "write_refines h j f c" using w j l by (simp add: write_refines_def sel dev_def n_def)
  show "cache_ok h c'" if "bwrite h j (change_data j f c) = Some c'"
    using that ok unfolding w option.inject by (rule subst)
qed

definition release_refines :: "bool \<Rightarrow> nat \<Rightarrow> bcache \<Rightarrow> bool" where
  "release_refines h j c \<longleftrightarrow> (\<exists>c'. brelse j c = Some c' \<and>
     block_release (bdev (bufs c ! j)) (bsector (bufs c ! j)) (cache_abs h c) = Some (cache_abs h c'))"

lemma brelse_refines:
  assumes c: "cache_ok h c" and j: "j < NBUF" "b_busy (bufs c ! j)"
  shows "release_refines h j c" "brelse j c = Some c' \<Longrightarrow> cache_ok h c'"
proof -
  have l: "length (bufs c) = NBUF" and lru: "distinct (lru c)" "set (lru c) = {0..<NBUF}" using c by (simp_all add: cache_ok_def)
  define dev n where "dev = bdev (bufs c ! j)" and "n = bsector (bufs c ! j)"
  let ?b = "(bufs c ! j)\<lparr>b_busy := False\<rparr>"
  define c2 where "c2 = set_buf j ?b (c\<lparr>lru := j # remove1 j (lru c)\<rparr>)"
  have w: "brelse j c = Some c2" using j by (simp add: brelse_def c2_def)
  have sel: "bufs c2 = (bufs c)[j := ?b]" "bdisk c2 = bdisk c" "lru c2 = j # remove1 j (lru c)"
    by (simp_all add: c2_def set_buf_def)
  have key: "bdev (bufs c2 ! i) = bdev (bufs c ! i) \<and> bsector (bufs c2 ! i) = bsector (bufs c ! i) \<and>
      b_busy (bufs c2 ! i) = (b_busy (bufs c ! i) \<and> i \<noteq> j)" if "i < NBUF" for i
    using that l by (cases "i = j") (simp_all add: sel)
  have "buf_ok h c2 (bufs c2 ! i)" if i: "i < NBUF" for i
    using buf_ok_nth [OF c i] i l by (cases "i = j") (auto simp: sel buf_ok_def)
  then have ok: "cache_ok h c2" using key l lru j by (intro cache_ok_keep [OF c]) (auto simp: sel)
  have one: "i = j" if "i < NBUF" "bdev (bufs c ! i) = dev" "bsector (bufs c ! i) = n" for i
    using cache_distinct [OF c that(1) j(1)] that not_minus_one [OF busy_on_disk(1) [OF c j]] by (simp add: dev_def n_def)
  have "held (cache_abs h c2) = held (cache_abs h c) - {(dev, n)}"
  proof -
    have "{(bdev (bufs c2 ! i), bsector (bufs c2 ! i)) |i. i < NBUF \<and> b_busy (bufs c2 ! i)} =
        {(bdev (bufs c ! i), bsector (bufs c ! i)) |i. i < NBUF \<and> b_busy (bufs c ! i) \<and> i \<noteq> j}"
      by (intro Collect_cong ex_cong1) (auto simp: key)
    then show ?thesis unfolding held_abs [OF c] held_abs [OF ok] using one by (auto simp: dev_def n_def)
  qed
  moreover have "disk (cache_abs h c2) = disk (cache_abs h c)" by (simp add: cache_abs_def sel cong: if_cong)
  moreover have "(dev, n) \<in> held (cache_abs h c)" using j by (auto simp: held_abs [OF c] dev_def n_def)
  ultimately have "block_release dev n (cache_abs h c) = Some (cache_abs h c2)" by (simp add: block_release_def)
  then show "release_refines h j c" using w by (simp add: release_refines_def dev_def n_def)
  show "cache_ok h c'" if "brelse j c = Some c'"
    using that ok unfolding w option.inject by (rule subst)
qed

lemma cache_reach_ok: "cache_reach h d c \<Longrightarrow> cache_ok h c"
proof (induction rule: cache_reach.induct)
  case boot
  then show ?case by (rule binit_ok)
next
  case (got c dev n r c')
  then show ?case using bread_refines(2) by blast
next
  case (stored c j f c')
  then show ?case using bwrite_refines(2) by blast
next
  case (released c j c')
  then show ?case using brelse_refines(2) by blast
qed

section \<open>Properties\<close>

text \<open>C34.  The buffer cache implements the store of blocks: in every state that processes can reach, \<open>bread\<close>
  returns the block's current contents and takes it, waits exactly when somebody else holds it, and
  panics only when all ten buffers are held; \<open>bwrite\<close> changes that block and no other; \<open>brelse\<close> gives it
  back.\<close>

theorem cache_implements_store:
  assumes "cache_reach h d c" "on_disk h dev n" "j < NBUF" "b_busy (bufs c ! j)"
  shows "read_refines h dev n c \<and> write_refines h j f c \<and> release_refines h j c"
  using cache_reach_ok [OF assms(1)] assms(2-4) bread_refines(1) bwrite_refines(1) brelse_refines(1) by blast

text \<open>A block that has been written and released is read again from the same buffer.\<close>

theorem cache_implements_store_witness:
  "\<exists>c j. cache_reach False (\<lambda>_ _ _. 0) c \<and> b_busy (bufs c ! j) \<and> bdata (bufs c ! j) 0 = 7 \<and>
     read_refines False 0 5 c \<and> write_refines False j (\<lambda>_. 9) c \<and> release_refines False j c"
proof -
  let ?d = "\<lambda>_ _ _. 0 :: u8"
  have d: "on_disk False 0 3" "on_disk False 0 5" by (simp_all add: on_disk_def)
  obtain j c1 where r: "bread False 0 3 (binit ?d) = Some (BufGot j, c1)" and j: "j < NBUF"
  proof -
    have "find (\<lambda>j. bdev (bufs (binit ?d) ! j) = 0 \<and> bsector (bufs (binit ?d) ! j) = 3) (lru (binit ?d)) = None"
      by (simp add: binit_def NBUF_def upt_rec)
    moreover have "find (\<lambda>j. \<not> b_busy (bufs (binit ?d) ! j)) (rev (lru (binit ?d))) = Some 0"
      by (simp add: binit_def NBUF_def upt_rec)
    ultimately show thesis using that [of 0]
      by (simp add: bread_def bget_def iderw_def Let_def binit_def NBUF_def)
  qed
  have c1: "cache_reach False ?d c1" by (rule cache_reach.got [OF cache_reach.boot d(1) r])
  have b: "b_busy (bufs c1 ! j)" using bread_refines(1) [OF binit_ok d(1), of ?d] r by (simp add: read_refines_def)
  from bwrite_refines(1) [OF cache_reach_ok [OF c1] j b, of "\<lambda>_. 7"]
  obtain c2 where w: "bwrite False j (change_data j (\<lambda>_. 7) c1) = Some c2" "bufs c2 ! j = (bufs c1 ! j)\<lparr>bdata := \<lambda>_. 7\<rparr>"
    by (auto simp: write_refines_def)
  have c2: "cache_reach False ?d c2" by (rule cache_reach.stored [OF c1 j b w(1)])
  have b2: "b_busy (bufs c2 ! j)" "bdata (bufs c2 ! j) 0 = 7" using b w(2) by simp_all
  from cache_implements_store [OF c2 d(2) j b2(1)] c2 b2 show ?thesis by blast
qed

end
